(* ===== verification/Fell_Prelude.thy ===== *)
theory Fell_Prelude
  imports Main "HOL-Library.Word" "HOL-Library.Char_ord" "HOL-Library.List_Lexorder"
    "HOL-Library.Multiset"
begin

unbundle bit_operations_syntax

text \<open>
  Shared vocabulary of the development: the machine integer types of the C++ sources, byte
  strings, the collections of simplification rules the component theories fill and use, and
  the interface of a fixed-width codec, which every packed struct of the broker
  (\<^verbatim>\<open>LogRecordHeader\<close>, \<^verbatim>\<open>IndexEntry\<close>, the protocol headers) implements.
\<close>

section \<open>Machine types\<close>

type_synonym u8 = "8 word"
type_synonym u16 = "16 word"
type_synonym u32 = "32 word"
type_synonym u64 = "64 word"

type_synonym bytes = "u8 list"

text \<open>\<^verbatim>\<open>size_t\<close> values are lengths of containers, kept as \<^typ>\<open>nat\<close>; the one operation on
  them that can leave the range is subtraction, which wraps at \<open>2 ^ 64\<close>.\<close>

definition size_max :: nat where
  "size_max = 2 ^ 64"

definition size_sub :: "nat \<Rightarrow> nat \<Rightarrow> nat" where
  "size_sub a b = (if b \<le> a then a - b else a + size_max - b)"

text \<open>Faults of the C++ abstract machine that an operation of the sources can run into. A
  model function returns the fault in place of a result where the source would read or write
  out of bounds or through a dangling reference.\<close>

datatype fault =
    OutOfBounds      \<comment> \<open>a read or write beyond the end of a buffer\<close>
  | Dangling         \<comment> \<open>an access through a reference to an erased object\<close>
  | IoError          \<comment> \<open>a \<^verbatim>\<open>std::system_error\<close> thrown by a failed system call\<close>
  | BadNumber        \<comment> \<open>\<^verbatim>\<open>std::invalid_argument\<close> or \<^verbatim>\<open>std::out_of_range\<close> of \<^verbatim>\<open>std::stoull\<close>\<close>

section \<open>Rule collections\<close>

named_theorems codec_simps "lengths and round trips of the fixed-width encodings"
named_theorems store_simps "field updates of the partition store's operations"
named_theorems handler_simps "unfolding rules of the request handlers"

section \<open>Lists of bytes\<close>

definition bytes_at :: "nat \<Rightarrow> nat \<Rightarrow> bytes \<Rightarrow> bytes" where
  "bytes_at off n bs = take n (drop off bs)"

lemma length_bytes_at [simp]: "length (bytes_at off n bs) = min n (length bs - off)"
  by (simp add: bytes_at_def)

lemma bytes_at_append1:
  "off + n \<le> length xs \<Longrightarrow> bytes_at off n (xs @ ys) = bytes_at off n xs"
  by (simp add: bytes_at_def)

lemma bytes_at_append2:
  "length xs \<le> off \<Longrightarrow> bytes_at off n (xs @ ys) = bytes_at (off - length xs) n ys"
  by (simp add: bytes_at_def)

lemma bytes_at_whole [simp]: "length xs = n \<Longrightarrow> bytes_at 0 n xs = xs"
  by (simp add: bytes_at_def)

lemma length_eq_2: "length p = 2 \<longleftrightarrow> (\<exists>a b. p = [a, b])"
  by (auto simp: numeral_eq_Suc length_Suc_conv)

lemma length_eq_4: "length p = 4 \<longleftrightarrow> (\<exists>a b c d. p = [a, b, c, d])"
  by (auto simp: numeral_eq_Suc length_Suc_conv)

lemma length_eq_8: "length p = 8 \<longleftrightarrow> (\<exists>a b c d e f g h. p = [a, b, c, d, e, f, g, h])"
  by (auto simp: numeral_eq_Suc length_Suc_conv)

section \<open>Sizes and words\<close>

lemma size_sub_le [simp]: "b \<le> a \<Longrightarrow> size_sub a b = a - b"
  by (simp add: size_sub_def)

lemma size_sub_wraps: "a < b \<Longrightarrow> b < size_max \<Longrightarrow> size_sub a b = a + size_max - b"
  by (simp add: size_sub_def)

lemma word_ff_mask: "(0xFF :: 'a::len word) = mask 8"
  by (simp add: mask_eq_exp_minus_1)

lemma ucast_and_ff: "(ucast (w AND 0xFF :: 'a::len word) :: u8) = ucast w"
  unfolding word_ff_mask by (rule bit_word_eqI) (auto simp: bit_simps dest: bit_imp_le_length)

lemma unat_of_nat_u64 [simp]: "n < 2 ^ 64 \<Longrightarrow> unat (of_nat n :: u64) = n"
  by (simp add: unat_of_nat take_bit_nat_eq_self)

lemma unat_of_nat_u32 [simp]: "n < 2 ^ 32 \<Longrightarrow> unat (of_nat n :: u32) = n"
  by (simp add: unat_of_nat take_bit_nat_eq_self)

lemma unat_of_nat_u16 [simp]: "n < 2 ^ 16 \<Longrightarrow> unat (of_nat n :: u16) = n"
  by (simp add: unat_of_nat take_bit_nat_eq_self)

lemma unat_add_u64: "unat (a :: u64) + n < 2 ^ 64 \<Longrightarrow> unat (a + of_nat n) = unat a + n"
  by (simp add: unat_word_ariths unat_of_nat take_bit_eq_mod mod_add_right_eq)

lemma unat_add_u64': "unat (a :: u64) + unat b < 2 ^ 64 \<Longrightarrow> unat (a + b) = unat a + unat b"
  by (simp add: unat_word_ariths)

lemma unat_lt_u64: "unat (a :: u64) < 2 ^ 64"
  using unsigned_less [of a] by simp

lemma unat_lt_u32: "unat (a :: u32) < 2 ^ 32"
  using unsigned_less [of a] by simp

lemma unat_lt_u16: "unat (a :: u16) < 2 ^ 16"
  using unsigned_less [of a] by simp

lemma unat_lt_u8: "unat (a :: u8) < 256"
  using unsigned_less [of a] by simp

lemma unat_ucast_u64 [simp]:
  "unat (ucast (x :: u32) :: u64) = unat x"
  "unat (ucast (y :: u16) :: u64) = unat y"
  "unat (ucast (y :: u16) :: u32) = unat y"
  using unat_lt_u32 [of x] unat_lt_u16 [of y]
  by (simp_all add: unsigned_ucast_eq take_bit_nat_eq_self)

section \<open>Fixed-width codecs\<close>

text \<open>
  The contract of a packed struct: its encoding has a fixed width, decoding reads exactly that
  many bytes from the front of a buffer, and every buffer that is long enough is the encoding of
  what it decodes to.
\<close>

locale fixed_codec =
  fixes enc :: "'a \<Rightarrow> bytes" and dec :: "bytes \<Rightarrow> 'a" and width :: nat
  assumes length_enc: "length (enc x) = width"
    and dec_enc: "dec (enc x @ rest) = x"
    and enc_dec: "width \<le> length bs \<Longrightarrow> enc (dec bs) = take width bs"
begin

lemma dec_enc_exact: "dec (enc x) = x"
  using dec_enc [of x "[]"] by simp

lemma enc_inj: "enc x = enc y \<longleftrightarrow> x = y"
  by (metis dec_enc_exact)

lemma enc_append_eq: "enc x @ r = enc y @ s \<longleftrightarrow> x = y \<and> r = s"
  by (metis append_eq_append_conv dec_enc length_enc)

lemma split_buffer:
  assumes "width \<le> length bs"
  shows "bs = enc (dec bs) @ drop width bs"
  using enc_dec [OF assms] by simp

lemma dec_prefix: "width \<le> length bs \<Longrightarrow> dec (take width bs @ r) = dec bs"
  by (metis enc_dec dec_enc)

end

end
