(* ===== verification/Fell_Endian.thy ===== *)
theory Fell_Endian
  imports Fell_Prelude
begin

text \<open>
  Byte order: \<^verbatim>\<open>platform/include/platform/endian.hpp\<close>, the \<^verbatim>\<open>read_be\<close>/\<^verbatim>\<open>write_be\<close> helpers of
  \<^verbatim>\<open>broker/request_handler.cpp\<close> and the \<^verbatim>\<open>swap_be\<close> helpers of the command line tools. The host is
  the little-endian one the sources select with \<^verbatim>\<open>__BYTE_ORDER__\<close>; \<open>mem16\<close>, \<open>mem32\<close> and
  \<open>mem64\<close> are the bytes an integer occupies in its memory. The lemmas show that the three
  families of helpers agree and are inverse to each other.
\<close>

section \<open>Definitions\<close>

subsection \<open>Object representation on the host\<close>

definition mem16 :: "u16 \<Rightarrow> bytes" where
  "mem16 v = [ucast v, ucast (drop_bit 8 v)]"

definition mem32 :: "u32 \<Rightarrow> bytes" where
  "mem32 v = [ucast v, ucast (drop_bit 8 v), ucast (drop_bit 16 v), ucast (drop_bit 24 v)]"

definition mem64 :: "u64 \<Rightarrow> bytes" where
  "mem64 v = [ucast v, ucast (drop_bit 8 v), ucast (drop_bit 16 v), ucast (drop_bit 24 v),
              ucast (drop_bit 32 v), ucast (drop_bit 40 v), ucast (drop_bit 48 v),
              ucast (drop_bit 56 v)]"

definition load16 :: "bytes \<Rightarrow> u16" where
  "load16 p = ucast (p ! 0) OR push_bit 8 (ucast (p ! 1))"

definition load32 :: "bytes \<Rightarrow> u32" where
  "load32 p = ucast (p ! 0) OR push_bit 8 (ucast (p ! 1)) OR
              push_bit 16 (ucast (p ! 2)) OR push_bit 24 (ucast (p ! 3))"

definition load64 :: "bytes \<Rightarrow> u64" where
  "load64 p = ucast (p ! 0) OR push_bit 8 (ucast (p ! 1)) OR
              push_bit 16 (ucast (p ! 2)) OR push_bit 24 (ucast (p ! 3)) OR
              push_bit 32 (ucast (p ! 4)) OR push_bit 40 (ucast (p ! 5)) OR
              push_bit 48 (ucast (p ! 6)) OR push_bit 56 (ucast (p ! 7))"

subsection \<open>platform/endian.hpp\<close>

text \<open>\<^verbatim>\<open>__builtin_bswap16/32/64\<close> reverse the bytes of their argument.\<close>

definition host_to_be16 :: "u16 \<Rightarrow> u16" where
  "host_to_be16 v = load16 (rev (mem16 v))"

definition host_to_be32 :: "u32 \<Rightarrow> u32" where
  "host_to_be32 v = load32 (rev (mem32 v))"

definition host_to_be64 :: "u64 \<Rightarrow> u64" where
  "host_to_be64 v = load64 (rev (mem64 v))"

definition be16_to_host :: "u16 \<Rightarrow> u16" where
  "be16_to_host v = host_to_be16 v"

definition be32_to_host :: "u32 \<Rightarrow> u32" where
  "be32_to_host v = host_to_be32 v"

definition be64_to_host :: "u64 \<Rightarrow> u64" where
  "be64_to_host v = host_to_be64 v"

subsection \<open>The helpers of request\_handler.cpp\<close>

definition read_be16 :: "bytes \<Rightarrow> u16" where
  "read_be16 p = push_bit 8 (ucast (p ! 0)) OR ucast (p ! 1)"

definition read_be32 :: "bytes \<Rightarrow> u32" where
  "read_be32 p = push_bit 24 (ucast (p ! 0)) OR push_bit 16 (ucast (p ! 1)) OR
                 push_bit 8 (ucast (p ! 2)) OR ucast (p ! 3)"

definition read_be64 :: "bytes \<Rightarrow> u64" where
  "read_be64 p = push_bit 56 (ucast (p ! 0)) OR push_bit 48 (ucast (p ! 1)) OR
                 push_bit 40 (ucast (p ! 2)) OR push_bit 32 (ucast (p ! 3)) OR
                 push_bit 24 (ucast (p ! 4)) OR push_bit 16 (ucast (p ! 5)) OR
                 push_bit 8 (ucast (p ! 6)) OR ucast (p ! 7)"

text \<open>The sources have no \<^verbatim>\<open>write_be16\<close>; \<open>handle_metadata_req\<close> writes the two bytes in line.\<close>

definition write_be16 :: "u16 \<Rightarrow> bytes" where
  "write_be16 v = [ucast (drop_bit 8 v AND 0xFF), ucast (v AND 0xFF)]"

definition write_be32 :: "u32 \<Rightarrow> bytes" where
  "write_be32 v = [ucast (drop_bit 24 v AND 0xFF), ucast (drop_bit 16 v AND 0xFF),
                   ucast (drop_bit 8 v AND 0xFF), ucast (v AND 0xFF)]"

definition write_be64 :: "u64 \<Rightarrow> bytes" where
  "write_be64 v = [ucast (drop_bit 56 v AND 0xFF), ucast (drop_bit 48 v AND 0xFF),
                   ucast (drop_bit 40 v AND 0xFF), ucast (drop_bit 32 v AND 0xFF),
                   ucast (drop_bit 24 v AND 0xFF), ucast (drop_bit 16 v AND 0xFF),
                   ucast (drop_bit 8 v AND 0xFF), ucast (v AND 0xFF)]"

subsection \<open>The helpers of the command line tools\<close>

definition swap_be16 :: "u16 \<Rightarrow> u16" where
  "swap_be16 v = drop_bit 8 v OR push_bit 8 v"

definition swap_be32 :: "u32 \<Rightarrow> u32" where
  "swap_be32 v = (drop_bit 24 v AND 0x000000FF) OR (drop_bit 8 v AND 0x0000FF00) OR
                 (push_bit 8 v AND 0x00FF0000) OR (push_bit 24 v AND 0xFF000000)"

definition swap_be64 :: "u64 \<Rightarrow> u64" where
  "swap_be64 v = (drop_bit 56 v AND 0x00000000000000FF) OR (drop_bit 40 v AND 0x000000000000FF00) OR
                 (drop_bit 24 v AND 0x0000000000FF0000) OR (drop_bit 8 v AND 0x00000000FF000000) OR
                 (push_bit 8 v AND 0x000000FF00000000) OR (push_bit 24 v AND 0x0000FF0000000000) OR
                 (push_bit 40 v AND 0x00FF000000000000) OR (push_bit 56 v AND 0xFF00000000000000)"

section \<open>Round trips\<close>

lemma length_write_be16 [simp, codec_simps]: "length (write_be16 v) = 2"
  by (simp add: write_be16_def)

lemma length_write_be32 [simp, codec_simps]: "length (write_be32 v) = 4"
  by (simp add: write_be32_def)

lemma length_write_be64 [simp, codec_simps]: "length (write_be64 v) = 8"
  by (simp add: write_be64_def)

lemma read_write_be16: "read_be16 (write_be16 v @ r) = v"
proof (rule bit_word_eqI)
  fix n assume "n < LENGTH(16)"
  then show "bit (read_be16 (write_be16 v @ r)) n = bit v n"
    by (cases "n < 8")
      (simp_all add: read_be16_def write_be16_def ucast_and_ff bit_simps less_diff_conv2)
qed

lemma read_write_be32: "read_be32 (write_be32 v @ r) = v"
proof (rule bit_word_eqI)
  fix n assume "n < LENGTH(32)"
  then show "bit (read_be32 (write_be32 v @ r)) n = bit v n"
    by (cases "n < 8"; cases "n < 16"; cases "n < 24")
      (simp_all add: read_be32_def write_be32_def ucast_and_ff bit_simps less_diff_conv2)
qed

lemma read_write_be64: "read_be64 (write_be64 v @ r) = v"
proof (rule bit_word_eqI)
  fix n assume "n < LENGTH(64)"
  then show "bit (read_be64 (write_be64 v @ r)) n = bit v n"
    by (cases "n < 8"; cases "n < 16"; cases "n < 24"; cases "n < 32"; cases "n < 40";
        cases "n < 48"; cases "n < 56")
      (simp_all add: read_be64_def write_be64_def ucast_and_ff bit_simps less_diff_conv2)
qed

lemma write_read_be16_exact: "length p = 2 \<Longrightarrow> write_be16 (read_be16 p) = p"
  by (clarsimp simp: length_eq_2 read_be16_def write_be16_def ucast_and_ff, intro conjI;
      rule bit_word_eqI; simp add: bit_simps)
    (auto dest: bit_imp_le_length)

lemma write_read_be32_exact: "length p = 4 \<Longrightarrow> write_be32 (read_be32 p) = p"
  by (clarsimp simp: length_eq_4 read_be32_def write_be32_def ucast_and_ff, intro conjI;
      rule bit_word_eqI; simp add: bit_simps)
    (auto dest: bit_imp_le_length)

lemma write_read_be64_exact: "length p = 8 \<Longrightarrow> write_be64 (read_be64 p) = p"
  by (clarsimp simp: length_eq_8 read_be64_def write_be64_def ucast_and_ff, intro conjI;
      rule bit_word_eqI; simp add: bit_simps)
    (auto dest: bit_imp_le_length)

lemma read_be_take:
  "2 \<le> n \<Longrightarrow> read_be16 (take n p) = read_be16 p"
  "4 \<le> n \<Longrightarrow> read_be32 (take n p) = read_be32 p"
  "8 \<le> n \<Longrightarrow> read_be64 (take n p) = read_be64 p"
  by (simp_all add: read_be16_def read_be32_def read_be64_def)

lemma write_read_be:
  "2 \<le> length p \<Longrightarrow> write_be16 (read_be16 p) = take 2 p"
  "4 \<le> length p \<Longrightarrow> write_be32 (read_be32 p) = take 4 p"
  "8 \<le> length p \<Longrightarrow> write_be64 (read_be64 p) = take 8 p"
  using write_read_be16_exact [of "take 2 p"] write_read_be32_exact [of "take 4 p"]
    write_read_be64_exact [of "take 8 p"]
  by (simp_all add: read_be_take)

interpretation be16: fixed_codec write_be16 read_be16 2
  by unfold_locales (simp_all add: read_write_be16 write_read_be)

interpretation be32: fixed_codec write_be32 read_be32 4
  by unfold_locales (simp_all add: read_write_be32 write_read_be)

interpretation be64: fixed_codec write_be64 read_be64 8
  by unfold_locales (simp_all add: read_write_be64 write_read_be)

lemmas [codec_simps] =
  read_write_be16 read_write_be32 read_write_be64
  be16.dec_enc_exact be32.dec_enc_exact be64.dec_enc_exact

section \<open>The three families agree\<close>

lemma rev_mem: "rev (mem16 a) = write_be16 a" "rev (mem32 b) = write_be32 b"
  "rev (mem64 c) = write_be64 c"
  by (simp_all add: mem16_def mem32_def mem64_def write_be16_def write_be32_def write_be64_def
      ucast_and_ff)

lemma load_rev: "length p = 2 \<Longrightarrow> load16 (rev p) = read_be16 p"
  "length q = 4 \<Longrightarrow> load32 (rev q) = read_be32 q"
  "length s = 8 \<Longrightarrow> load64 (rev s) = read_be64 s"
  by (auto simp: length_eq_2 length_eq_4 length_eq_8 load16_def load32_def load64_def
      read_be16_def read_be32_def read_be64_def ac_simps)

lemma mem_load_rev: "length p = 2 \<Longrightarrow> mem16 (load16 p) = p" "length q = 4 \<Longrightarrow> mem32 (load32 q) = q"
  "length s = 8 \<Longrightarrow> mem64 (load64 s) = s"
proof -
  show "mem16 (load16 p) = p" if "length p = 2"
    using that load_rev(1) [of "rev p"] rev_mem(1) [of "load16 p"] write_read_be16_exact [of "rev p"]
    by (metis length_rev rev_rev_ident)
  show "mem32 (load32 q) = q" if "length q = 4"
    using that load_rev(2) [of "rev q"] rev_mem(2) [of "load32 q"] write_read_be32_exact [of "rev q"]
    by (metis length_rev rev_rev_ident)
  show "mem64 (load64 s) = s" if "length s = 8"
    using that load_rev(3) [of "rev s"] rev_mem(3) [of "load64 s"] write_read_be64_exact [of "rev s"]
    by (metis length_rev rev_rev_ident)
qed

text \<open>A field that holds \<^verbatim>\<open>host_to_be64(v)\<close> has in memory the bytes \<^verbatim>\<open>write_be64\<close> writes.\<close>

lemma mem_host_to_be [simp]:
  "mem16 (host_to_be16 a) = write_be16 a"
  "mem32 (host_to_be32 b) = write_be32 b"
  "mem64 (host_to_be64 c) = write_be64 c"
  by (simp_all add: host_to_be16_def host_to_be32_def host_to_be64_def mem_load_rev rev_mem)

lemma be_to_host_load [simp]:
  "length p = 2 \<Longrightarrow> be16_to_host (load16 p) = read_be16 p"
  "length q = 4 \<Longrightarrow> be32_to_host (load32 q) = read_be32 q"
  "length s = 8 \<Longrightarrow> be64_to_host (load64 s) = read_be64 s"
  by (simp_all add: be16_to_host_def be32_to_host_def be64_to_host_def
      host_to_be16_def host_to_be32_def host_to_be64_def mem_load_rev load_rev)

lemma host_to_be_involutive [simp]:
  "be16_to_host (host_to_be16 a) = a"
  "be32_to_host (host_to_be32 b) = b"
  "be64_to_host (host_to_be64 c) = c"
  by (simp_all add: be16_to_host_def be32_to_host_def be64_to_host_def host_to_be16_def
      host_to_be32_def host_to_be64_def mem_load_rev rev_mem load_rev
      be16.dec_enc_exact be32.dec_enc_exact be64.dec_enc_exact)

text \<open>The shift-and-mask swaps of the command line tools are the byte reversals of
  \<^verbatim>\<open>endian.hpp\<close>.\<close>

lemma byte_masks:
  "(0xFF00 :: 'a::len word) = push_bit 8 (mask 8)"
  "(0xFF0000 :: 'a::len word) = push_bit 16 (mask 8)"
  "(0xFF000000 :: 'a::len word) = push_bit 24 (mask 8)"
  "(0xFF00000000 :: 'a::len word) = push_bit 32 (mask 8)"
  "(0xFF0000000000 :: 'a::len word) = push_bit 40 (mask 8)"
  "(0xFF000000000000 :: 'a::len word) = push_bit 48 (mask 8)"
  "(0xFF00000000000000 :: 'a::len word) = push_bit 56 (mask 8)"
  by (simp_all add: mask_eq_exp_minus_1 push_bit_eq_mult)

lemma swap_be16_host_to_be16: "swap_be16 v = host_to_be16 v"
proof (rule bit_word_eqI)
  fix n assume "n < LENGTH(16)"
  then show "bit (swap_be16 v) n = bit (host_to_be16 v) n"
    by (cases "n < 8")
      (auto simp add: swap_be16_def host_to_be16_def load16_def mem16_def bit_simps less_diff_conv2 dest: bit_imp_le_length)
qed

lemma swap_be32_host_to_be32: "swap_be32 v = host_to_be32 v"
proof (rule bit_word_eqI)
  fix n assume "n < LENGTH(32)"
  then show "bit (swap_be32 v) n = bit (host_to_be32 v) n"
    by (cases "n < 8"; cases "n < 16"; cases "n < 24")
      (simp_all add: swap_be32_def host_to_be32_def load32_def mem32_def byte_masks word_ff_mask bit_simps less_diff_conv2)
qed

lemma swap_be64_host_to_be64: "swap_be64 v = host_to_be64 v"
proof (rule bit_word_eqI)
  fix n assume "n < LENGTH(64)"
  then show "bit (swap_be64 v) n = bit (host_to_be64 v) n"
    by (cases "n < 8"; cases "n < 16"; cases "n < 24"; cases "n < 32"; cases "n < 40";
        cases "n < 48"; cases "n < 56")
      (simp_all add: swap_be64_def host_to_be64_def load64_def mem64_def byte_masks word_ff_mask bit_simps less_diff_conv2)
qed

end
