(* ===== verification/Fell_Log_Format.thy ===== *)
theory Fell_Log_Format
  imports Fell_Endian
begin

text \<open>
  The on-disk format: \<^verbatim>\<open>storage/log_format.hpp\<close> (packed headers and size constants), the record
  structs of the storage layer, and the byte image of a record as \<^verbatim>\<open>write_batch\<close> builds it.
  A segment file is the concatenation of such images.
\<close>

section \<open>Definitions\<close>

definition LOG_RECORD_HEADER_SIZE :: nat where
  "LOG_RECORD_HEADER_SIZE = 20"

definition LOG_SEGMENT_MAX_BYTES :: nat where
  "LOG_SEGMENT_MAX_BYTES = 64 * 1024 * 1024"

definition INDEX_INTERVAL :: u64 where
  "INDEX_INTERVAL = 128"

definition INDEX_ENTRY_SIZE :: nat where
  "INDEX_ENTRY_SIZE = 16"

record log_record_header =
  lh_offset :: u64
  lh_timestamp_ms :: u64
  lh_payload_size :: u32

record index_entry =
  ie_offset :: u64
  ie_file_position :: u64

text \<open>\<^verbatim>\<open>DiskRecord\<close>, \<^verbatim>\<open>StoredMessage\<close>, \<^verbatim>\<open>CommittedRecord\<close> and \<^verbatim>\<open>AppendCommand\<close> have the same three
  fields, and the code copies them one to one; they are one record type here.\<close>

record log_record =
  rec_offset :: u64
  rec_timestamp_ms :: u64
  rec_payload :: bytes

type_synonym disk_record = log_record
type_synonym stored_message = log_record
type_synonym committed_record = log_record
type_synonym append_command = log_record

subsection \<open>Byte images\<close>

text \<open>The packed struct as it lies in memory once its fields hold \<^verbatim>\<open>host_to_be\<close> values, and the
  conversion back that follows every \<^verbatim>\<open>pread_file\<close> of a header.\<close>

definition encode_header :: "log_record_header \<Rightarrow> bytes" where
  "encode_header h = mem64 (host_to_be64 (lh_offset h)) @ mem64 (host_to_be64 (lh_timestamp_ms h))
     @ mem32 (host_to_be32 (lh_payload_size h))"

definition decode_header :: "bytes \<Rightarrow> log_record_header" where
  "decode_header p = \<lparr>lh_offset = be64_to_host (load64 (bytes_at 0 8 p)),
     lh_timestamp_ms = be64_to_host (load64 (bytes_at 8 8 p)),
     lh_payload_size = be32_to_host (load32 (bytes_at 16 4 p))\<rparr>"

definition encode_index_entry :: "index_entry \<Rightarrow> bytes" where
  "encode_index_entry e = mem64 (host_to_be64 (ie_offset e)) @ mem64 (host_to_be64 (ie_file_position e))"

definition decode_index_entry :: "bytes \<Rightarrow> index_entry" where
  "decode_index_entry p = \<lparr>ie_offset = be64_to_host (load64 (bytes_at 0 8 p)),
     ie_file_position = be64_to_host (load64 (bytes_at 8 8 p))\<rparr>"

definition record_header :: "log_record \<Rightarrow> log_record_header" where
  "record_header r = \<lparr>lh_offset = rec_offset r, lh_timestamp_ms = rec_timestamp_ms r,
     lh_payload_size = of_nat (length (rec_payload r))\<rparr>"

text \<open>Header and payload as \<^verbatim>\<open>write_batch\<close> appends them to its buffer.\<close>

definition encode_record :: "log_record \<Rightarrow> bytes" where
  "encode_record r = encode_header (record_header r) @ rec_payload r"

definition encode_records :: "log_record list \<Rightarrow> bytes" where
  "encode_records rs = concat (map encode_record rs)"

text \<open>\<^verbatim>\<open>append\<close> takes its payload size as a \<^verbatim>\<open>uint32_t\<close>, so the cast in the header loses nothing.\<close>

definition wf_record :: "log_record \<Rightarrow> bool" where
  "wf_record r = (length (rec_payload r) < 2 ^ 32)"

text \<open>The bytes at a position do not hold a complete record.\<close>

definition incomplete :: "bytes \<Rightarrow> bool" where
  "incomplete t = (length t < 20 \<or> length t < 20 + unat (lh_payload_size (decode_header t)))"

section \<open>Codecs\<close>

lemma length_encode_header [simp, codec_simps]: "length (encode_header h) = 20"
  by (simp add: encode_header_def)

lemma length_encode_index_entry [simp, codec_simps]: "length (encode_index_entry e) = 16"
  by (simp add: encode_index_entry_def)

lemma decode_encode_header: "decode_header (encode_header h @ r) = h"
  by (simp add: decode_header_def encode_header_def bytes_at_def be64.dec_enc_exact
      be32.dec_enc_exact)

lemma decode_encode_index_entry: "decode_index_entry (encode_index_entry e @ r) = e"
  by (simp add: decode_index_entry_def encode_index_entry_def bytes_at_def be64.dec_enc_exact)

lemma encode_decode_header:
  assumes "20 \<le> length p"
  shows "encode_header (decode_header p) = take 20 p"
proof -
  from assms have "length (take 8 p) = 8" "length (take 8 (drop 8 p)) = 8" "length (take 4 (drop 16 p)) = 4"
    by simp_all
  then have "encode_header (decode_header p) = take 8 p @ take 8 (drop 8 p) @ take 4 (drop 16 p)"
    by (simp add: decode_header_def encode_header_def write_read_be bytes_at_def)
  also have "\<dots> = take 20 p"
    using take_add [of 8 "8 + 4" p] take_add [of 8 4 "drop 8 p"] by simp
  finally show ?thesis .
qed

lemma encode_decode_index_entry:
  assumes "16 \<le> length p"
  shows "encode_index_entry (decode_index_entry p) = take 16 p"
proof -
  from assms have "length (take 8 p) = 8" "length (take 8 (drop 8 p)) = 8" by simp_all
  then show ?thesis
    using take_add [of 8 8 p]
    by (simp add: decode_index_entry_def encode_index_entry_def write_read_be bytes_at_def)
qed

interpretation hdr: fixed_codec encode_header decode_header 20
  by unfold_locales (simp_all add: decode_encode_header encode_decode_header)

interpretation idx: fixed_codec encode_index_entry decode_index_entry 16
  by unfold_locales (simp_all add: decode_encode_index_entry encode_decode_index_entry)

lemmas [codec_simps] = decode_encode_header decode_encode_index_entry

section \<open>Records\<close>

lemma length_encode_record [simp]: "length (encode_record r) = 20 + length (rec_payload r)"
  by (simp add: encode_record_def)

lemma encode_records_simps [simp]:
  "encode_records [] = []"
  "encode_records (r # rs) = encode_record r @ encode_records rs"
  "encode_records (as @ bs) = encode_records as @ encode_records bs"
  by (simp_all add: encode_records_def)

lemma decode_header_encode_record [simp]: "decode_header (encode_record r @ t) = record_header r"
  by (simp add: encode_record_def decode_encode_header)

lemma payload_size_record_header [simp]:
  "wf_record r \<Longrightarrow> unat (lh_payload_size (record_header r)) = length (rec_payload r)"
  by (simp add: record_header_def wf_record_def)

lemma record_header_fields [simp]:
  "lh_offset (record_header r) = rec_offset r"
  "lh_timestamp_ms (record_header r) = rec_timestamp_ms r"
  by (simp_all add: record_header_def)

lemma incomplete_Nil [simp]: "incomplete []"
  by (simp add: incomplete_def)

text \<open>A strict prefix of a record image, as a crash in the middle of a write leaves it, is
  incomplete.\<close>

lemma incomplete_take:
  assumes "wf_record r" "n < length (encode_record r)"
  shows "incomplete (take n (encode_record r))"
proof (cases "n < 20")
  case True
  then show ?thesis using assms(2) by (simp add: incomplete_def)
next
  case False
  then have "take n (encode_record r) = encode_header (record_header r) @ take (n - 20) (rec_payload r)"
    by (simp add: encode_record_def)
  then show ?thesis
    using assms False by (simp add: incomplete_def decode_encode_header less_diff_conv2)
qed

lemma length_encode_records_ge: "20 * length rs \<le> length (encode_records rs)"
  by (induction rs) auto

lemma encode_record_inject:
  "wf_record r \<Longrightarrow> wf_record s \<Longrightarrow> encode_record r @ t = encode_record s @ u \<longleftrightarrow> r = s \<and> t = u"
proof (intro iffI)
  assume wf: "wf_record r" "wf_record s" and eq: "encode_record r @ t = encode_record s @ u"
  from eq have h: "record_header r = record_header s"
    by (metis decode_header_encode_record)
  have "length (rec_payload r) = length (rec_payload s)"
    using wf h payload_size_record_header by metis
  with eq h show "r = s \<and> t = u"
    by (cases r; cases s) (simp add: encode_record_def record_header_def)
qed simp

end
