(* ===== verification/Fell_Files.thy ===== *)
theory Fell_Files
  imports Fell_Prelude
begin

text \<open>
  The file layer: \<^verbatim>\<open>platform/file_posix.cpp\<close>, and what the storage code uses of the standard
  library on file names (\<^verbatim>\<open>std::filesystem\<close>, \<^verbatim>\<open>snprintf\<close>, \<^verbatim>\<open>std::stoull\<close>, \<^verbatim>\<open>std::to_string\<close>).
  A partition directory is an association list from file names to contents, in the order the
  directory iterator would list it. An open descriptor is the name it was opened with: files are
  only ever appended to or truncated, never renamed, so a read through the descriptor sees the
  current contents. The result of the \<^verbatim>\<open>writev\<close> system call is an argument of the model.
\<close>

section \<open>Definitions\<close>

type_synonym fname = string
type_synonym dir = "(fname \<times> bytes) list"

subsection \<open>Directories\<close>

fun file_put :: "dir \<Rightarrow> fname \<Rightarrow> bytes \<Rightarrow> dir" where
  "file_put [] f c = [(f, c)]"
| "file_put ((g, d) # fs) f c = (if g = f then (f, c) # fs else (g, d) # file_put fs f c)"

definition file_contents :: "dir \<Rightarrow> fname \<Rightarrow> bytes" where
  "file_contents d f = (case map_of d f of None \<Rightarrow> [] | Some c \<Rightarrow> c)"

definition file_size :: "dir \<Rightarrow> fname \<Rightarrow> nat" where
  "file_size d f = length (file_contents d f)"

text \<open>\<^verbatim>\<open>std::filesystem::resize_file\<close>: shrinks, or grows with zero bytes.\<close>

definition resize_file :: "dir \<Rightarrow> fname \<Rightarrow> nat \<Rightarrow> dir" where
  "resize_file d f n =
     (let c = file_contents d f in file_put d f (take n c @ replicate (n - length c) 0))"

subsection \<open>platform/file\_posix.cpp\<close>

text \<open>\<^verbatim>\<open>O_CREAT | O_APPEND\<close>: the file exists afterwards, with its old contents.\<close>

definition open_file_append :: "dir \<Rightarrow> fname \<Rightarrow> dir" where
  "open_file_append d f = (case map_of d f of None \<Rightarrow> file_put d f [] | Some _ \<Rightarrow> d)"

text \<open>\<open>None\<close> is \<^verbatim>\<open>INVALID_FILE\<close>.\<close>

definition open_file_read :: "dir \<Rightarrow> fname \<Rightarrow> fname option" where
  "open_file_read d f = (case map_of d f of None \<Rightarrow> None | Some _ \<Rightarrow> Some f)"

definition iov_max :: nat where
  "iov_max = 1024"

text \<open>
  \<open>r\<close> is what \<^verbatim>\<open>writev\<close> returns for this call: negative on error, otherwise the number of bytes
  it appended, which may be fewer than asked for. The function reports success for every
  non-negative result.
\<close>

definition write_file_vec :: "int \<Rightarrow> dir \<Rightarrow> fname \<Rightarrow> bytes list \<Rightarrow> bool \<times> dir" where
  "write_file_vec r d f buffers =
     (if length buffers > iov_max then (False, d)
      else if r < 0 then (False, d)
      else (True, file_put d f (file_contents d f @ take (nat r) (concat buffers))))"

text \<open>
  \<^verbatim>\<open>pread\<close> on a regular file: the bytes from the offset up to the end of the file, at most
  \<open>n\<close> of them; \<open>None\<close> is the result \<open>-1\<close>, given for an invalid descriptor and for an offset
  that is negative as an \<^verbatim>\<open>off_t\<close>.
\<close>

definition pread_file :: "dir \<Rightarrow> fname option \<Rightarrow> nat \<Rightarrow> u64 \<Rightarrow> bytes option" where
  "pread_file d fd n off =
     (case fd of None \<Rightarrow> None
      | Some f \<Rightarrow> if 2 ^ 63 \<le> unat off then None
                 else Some (bytes_at (unat off) n (file_contents d f)))"

subsection \<open>Numbers in file names\<close>

definition digit :: "nat \<Rightarrow> char" where
  "digit n = char_of (48 + n mod 10)"

definition is_digit :: "char \<Rightarrow> bool" where
  "is_digit c = (48 \<le> (of_char c :: nat) \<and> (of_char c :: nat) \<le> 57)"

definition digit_val :: "char \<Rightarrow> nat" where
  "digit_val c = of_char c - 48"

fun dec_digits :: "nat \<Rightarrow> nat \<Rightarrow> string" where
  "dec_digits 0 n = []"
| "dec_digits (Suc k) n = dec_digits k (n div 10) @ [digit n]"

text \<open>\<^verbatim>\<open>snprintf(buf, sizeof(buf), "%020llu", base)\<close>: a 64-bit value has at most 20 digits.\<close>

definition segment_stem :: "u64 \<Rightarrow> string" where
  "segment_stem base = dec_digits 20 (unat base)"

definition log_name :: "u64 \<Rightarrow> fname" where
  "log_name base = segment_stem base @ ''.log''"

definition idx_name :: "u64 \<Rightarrow> fname" where
  "idx_name base = segment_stem base @ ''.idx''"

text \<open>\<^verbatim>\<open>std::to_string\<close> on an unsigned value.\<close>

fun to_string :: "nat \<Rightarrow> string" where
  "to_string n = (if n < 10 then [digit n] else to_string (n div 10) @ [digit n])"

declare to_string.simps [simp del]

definition is_space :: "char \<Rightarrow> bool" where
  "is_space c = ((of_char c :: nat) = 32 \<or> (9 \<le> (of_char c :: nat) \<and> (of_char c :: nat) \<le> 13))"

definition dec_value :: "string \<Rightarrow> nat" where
  "dec_value s = foldl (\<lambda>a c. 10 * a + digit_val c) 0 s"

text \<open>\<^verbatim>\<open>std::stoull\<close>: leading white space, an optional sign, the longest run of digits, the rest of
  the string ignored.\<close>

definition stoull :: "string \<Rightarrow> fault + u64" where
  "stoull s =
     (let s1 = dropWhile is_space s;
          neg = (s1 \<noteq> [] \<and> hd s1 = CHR ''-'');
          s2 = (if s1 \<noteq> [] \<and> (hd s1 = CHR ''-'' \<or> hd s1 = CHR ''+'') then tl s1 else s1);
          ds = takeWhile is_digit s2
      in if ds = [] then Inl BadNumber
         else if 2 ^ 64 \<le> dec_value ds then Inl BadNumber
         else Inr (if neg then - of_nat (dec_value ds) else of_nat (dec_value ds)))"

subsection \<open>File name parts\<close>

text \<open>\<^verbatim>\<open>path::extension\<close> and \<^verbatim>\<open>path::stem\<close> of a file name: they split at the last dot, unless there
  is none or it is the first character.\<close>

definition split_ext :: "fname \<Rightarrow> string \<times> string" where
  "split_ext f =
     (let e = takeWhile (\<lambda>c. c \<noteq> CHR ''.'') (rev f);
          n = length f - length e
      in if n = 0 \<or> n = 1 \<or> f = ''..'' then (f, []) else (take (n - 1) f, drop (n - 1) f))"

definition stem :: "fname \<Rightarrow> string" where
  "stem f = fst (split_ext f)"

definition extension :: "fname \<Rightarrow> string" where
  "extension f = snd (split_ext f)"

text \<open>\<^verbatim>\<open>seg_path.replace_extension(".idx")\<close>.\<close>

definition replace_ext :: "fname \<Rightarrow> string \<Rightarrow> fname" where
  "replace_ext f e = stem f @ e"

definition log_paths :: "dir \<Rightarrow> fname list" where
  "log_paths d = sort (filter (\<lambda>f. extension f = ''.log'') (map fst d))"

section \<open>Files\<close>

lemma map_of_file_put [simp]: "map_of (file_put d f c) = (map_of d)(f \<mapsto> c)"
  by (induction d f c rule: file_put.induct) (auto simp: fun_eq_iff)

lemma file_contents_put [simp]:
  "file_contents (file_put d f c) g = (if g = f then c else file_contents d g)"
  by (simp add: file_contents_def)

lemma file_contents_open_append [simp]:
  "file_contents (open_file_append d f) g = file_contents d g"
  by (simp add: open_file_append_def file_contents_def split: option.splits)

lemma map_of_open_append:
  "map_of (open_file_append d f) g =
     (if g = f then Some (file_contents d f) else map_of d g)"
  by (simp add: open_file_append_def file_contents_def split: option.splits)

lemma fst_set_file_put: "fst ` set (file_put d f c) = insert f (fst ` set d)"
  by (induction d f c rule: file_put.induct) auto

lemma distinct_file_put: "distinct (map fst d) \<Longrightarrow> distinct (map fst (file_put d f c))"
  by (induction d f c rule: file_put.induct) (auto simp: fst_set_file_put image_iff)

lemma map_fst_file_put_mem: "f \<in> fst ` set d \<Longrightarrow> map fst (file_put d f c) = map fst d"
  by (induction d f c rule: file_put.induct) auto

lemma write_file_vec_one:
  "0 \<le> r \<Longrightarrow> write_file_vec r d f [b] = (True, file_put d f (file_contents d f @ take (nat r) b))"
  by (simp add: write_file_vec_def iov_max_def)

lemma pread_file_at:
  "unat off < 2 ^ 63 \<Longrightarrow>
     pread_file d (Some f) n off = Some (bytes_at (unat off) n (file_contents d f))"
  by (simp add: pread_file_def)

section \<open>Decimal numbers\<close>

lemma of_char_digit: "(of_char (digit n) :: nat) = 48 + n mod 10"
proof -
  have "n mod 10 < 10" by simp
  then show ?thesis by (simp add: digit_def take_bit_nat_eq_self)
qed

lemma digit_facts:
  "is_digit (digit n)" "digit_val (digit n) = n mod 10" "\<not> is_space (digit n)"
  "digit n \<noteq> CHR ''.''" "digit n \<noteq> CHR ''-''" "digit n \<noteq> CHR ''+''"
proof -
  have b: "n mod 10 < 10" by simp
  show "is_digit (digit n)" "digit_val (digit n) = n mod 10" "\<not> is_space (digit n)"
    using b by (simp_all add: is_digit_def digit_val_def is_space_def of_char_digit)
  have "digit n \<noteq> c" if "(of_char c :: nat) < 48" for c
    using that of_char_digit [of n] by auto
  from this [of "CHR ''.''"] this [of "CHR ''-''"] this [of "CHR ''+''"]
  show "digit n \<noteq> CHR ''.''" "digit n \<noteq> CHR ''-''" "digit n \<noteq> CHR ''+''"
    by simp_all
qed

lemma digit_less_iff: "digit a < digit b \<longleftrightarrow> a mod 10 < b mod 10"
  by (simp add: less_char_def of_char_digit)

lemma digit_eq_iff: "digit a = digit b \<longleftrightarrow> a mod 10 = b mod 10"
  by (metis of_char_digit add_left_cancel of_char_eq_iff)

lemma length_dec_digits [simp]: "length (dec_digits k n) = k"
  by (induction k arbitrary: n) auto

lemma dec_digits_all: "c \<in> set (dec_digits k n) \<Longrightarrow> \<exists>m. c = digit m"
  by (induction k arbitrary: n) auto

lemma dec_value_snoc: "dec_value (s @ [c]) = 10 * dec_value s + digit_val c"
  by (simp add: dec_value_def)

lemma dec_value_dec_digits: "dec_value (dec_digits k n) = n mod 10 ^ k"
proof (induction k arbitrary: n)
  case 0
  then show ?case by (simp add: dec_value_def)
next
  case (Suc k)
  then show ?case by (simp add: dec_value_snoc digit_facts mod_mult2_eq)
qed

lemma append_less_append:
  fixes xs :: "'a::linorder list"
  shows "length xs = length ys \<Longrightarrow> xs @ as < ys @ bs \<longleftrightarrow> xs < ys \<or> (xs = ys \<and> as < bs)"
  by (induction xs ys rule: list_induct2) auto

lemma dec_digits_eq_iff:
  "a < 10 ^ k \<Longrightarrow> b < 10 ^ k \<Longrightarrow> dec_digits k a = dec_digits k b \<longleftrightarrow> a = b"
  by (metis dec_value_dec_digits mod_less)

lemma dec_digits_less_iff:
  "a < 10 ^ k \<Longrightarrow> b < 10 ^ k \<Longrightarrow> dec_digits k a < dec_digits k b \<longleftrightarrow> a < b"
proof (induction k arbitrary: a b)
  case 0
  then show ?case by simp
next
  case (Suc k)
  have lt: "a div 10 < 10 ^ k" "b div 10 < 10 ^ k"
    using Suc.prems by (simp_all add: less_mult_imp_div_less mult.commute)
  have "dec_digits (Suc k) a < dec_digits (Suc k) b \<longleftrightarrow>
      a div 10 < b div 10 \<or> (a div 10 = b div 10 \<and> a mod 10 < b mod 10)"
    using lt by (simp add: append_less_append Suc.IH dec_digits_eq_iff digit_less_iff)
  also have "\<dots> \<longleftrightarrow> a < b"
    using div_mod_decomp [of a 10] div_mod_decomp [of b 10] mod_less_divisor [of 10 a]
      mod_less_divisor [of 10 b] by linarith
  finally show ?case .
qed

lemma u64_lt_10_20: "unat (b :: u64) < 10 ^ 20"
  using unat_lt_u64 [of b] by simp

lemma segment_stem_less_iff: "segment_stem a < segment_stem b \<longleftrightarrow> a < b"
  unfolding segment_stem_def
  by (simp only: dec_digits_less_iff u64_lt_10_20 word_less_nat_alt)

lemma segment_stem_eq_iff [simp]: "segment_stem a = segment_stem b \<longleftrightarrow> a = b"
  unfolding segment_stem_def
  by (simp only: dec_digits_eq_iff u64_lt_10_20 word_unat_eq_iff)

lemma length_segment_stem [simp]: "length (segment_stem b) = 20"
  by (simp add: segment_stem_def)

lemma segment_stem_digit: "c \<in> set (segment_stem b) \<Longrightarrow> \<exists>m. c = digit m"
  unfolding segment_stem_def by (rule dec_digits_all)

lemma stoull_digits:
  assumes "\<forall>c \<in> set s. \<exists>m. c = digit m" "s \<noteq> []" "dec_value s < 2 ^ 64"
  shows "stoull s = Inr (of_nat (dec_value s))"
proof -
  have hd: "\<exists>m. hd s = digit m" using assms(1,2) by simp
  have sp: "dropWhile is_space s = s"
    using assms(2) hd digit_facts(3) by (cases s) auto
  have dg: "takeWhile is_digit s = s"
    using assms(1) digit_facts(1) by (metis takeWhile_eq_all_conv)
  have sg: "hd s \<noteq> CHR ''-''" "hd s \<noteq> CHR ''+''"
    using hd digit_facts(5,6) by metis+
  show ?thesis using assms(2,3) by (simp add: stoull_def sp dg sg)
qed

lemma stoull_segment_stem: "stoull (segment_stem b) = Inr b"
proof -
  have v: "dec_value (segment_stem b) = unat b"
    unfolding segment_stem_def dec_value_dec_digits using u64_lt_10_20 by (rule mod_less)
  have "segment_stem b \<noteq> []" using length_segment_stem [of b] by force
  then show ?thesis
    using stoull_digits [of "segment_stem b"] segment_stem_digit [of _ b] v unat_lt_u64 [of b]
    by auto
qed

section \<open>Segment file names\<close>

lemma split_ext_log: "split_ext (log_name b) = (segment_stem b, ''.log'')"
  "split_ext (idx_name b) = (segment_stem b, ''.idx'')"
  by (simp_all add: split_ext_def log_name_def idx_name_def)

lemma stem_log_name [simp]: "stem (log_name b) = segment_stem b" "stem (idx_name b) = segment_stem b"
  by (simp_all add: stem_def split_ext_log)

lemma extension_log_name [simp]:
  "extension (log_name b) = ''.log''" "extension (idx_name b) = ''.idx''"
  by (simp_all add: extension_def split_ext_log)

lemma replace_ext_log_name [simp]: "replace_ext (log_name b) ''.idx'' = idx_name b"
  by (simp add: replace_ext_def idx_name_def)

lemma log_name_inject [simp]: "log_name a = log_name b \<longleftrightarrow> a = b" "idx_name a = idx_name b \<longleftrightarrow> a = b"
  by (simp_all add: log_name_def idx_name_def)

lemma log_name_neq_idx_name [simp]: "log_name a \<noteq> idx_name b" "idx_name b \<noteq> log_name a"
  by (simp_all add: log_name_def idx_name_def)

lemma log_name_less_iff: "log_name a < log_name b \<longleftrightarrow> a < b"
  by (simp add: log_name_def append_less_append segment_stem_less_iff)

lemma log_name_le_iff: "log_name a \<le> log_name b \<longleftrightarrow> a \<le> b"
  by (metis log_name_less_iff linorder_not_less)

lemma map_log_name_sort: "sort (map log_name bs) = map log_name (sort bs)"
proof (rule properties_for_sort)
  show "mset (map log_name (sort bs)) = mset (map log_name bs)" by simp
  have "sorted (sort bs)" by simp
  then show "sorted (map log_name (sort bs))"
    by (simp add: sorted_map log_name_le_iff)
qed

section \<open>\<open>to_string\<close>\<close>

lemma to_string_nonempty [simp]: "to_string n \<noteq> []"
  by (subst to_string.simps) simp

lemma to_string_digits: "c \<in> set (to_string n) \<Longrightarrow> \<exists>m. c = digit m"
proof (induction n rule: to_string.induct)
  case (1 n)
  then show ?case by (subst (asm) to_string.simps) (auto split: if_splits)
qed

lemma dec_value_to_string: "dec_value (to_string n) = n"
proof (induction n rule: to_string.induct)
  case (1 n)
  then show ?case
    by (subst to_string.simps)
      (auto simp: dec_value_snoc digit_facts dec_value_def [of "[_]"] dec_value_def [of "[]"])
qed

lemma to_string_inject [simp]: "to_string a = to_string b \<longleftrightarrow> a = b"
  by (metis dec_value_to_string)

lemma stoull_to_string: "n < 2 ^ 64 \<Longrightarrow> stoull (to_string n) = Inr (of_nat n)"
  using stoull_digits [of "to_string n"] to_string_digits by (simp add: dec_value_to_string)

end
