(* ===== verification/Fell_Segment_Reader.thy ===== *)
theory Fell_Segment_Reader
  imports Fell_Log_Format Fell_Files
begin

text \<open>
  \<^verbatim>\<open>storage/segment_reader.cpp\<close>: the two loops over a segment file. \<^verbatim>\<open>read\<close> collects records from a
  file position, skipping those below the start offset; \<^verbatim>\<open>scan_valid\<close> walks the whole file at
  recovery. Both are shown to terminate on every file and to return exactly the records the file
  holds, up to an incomplete tail.
\<close>

section \<open>Definitions\<close>

subsection \<open>SegmentReader\<close>

text \<open>\<open>None\<close> is a reader whose constructor got \<^verbatim>\<open>INVALID_FILE\<close>.\<close>

type_synonym segment_reader = "fname option"

definition SegmentReader :: "dir \<Rightarrow> fname \<Rightarrow> segment_reader" where
  "SegmentReader d log_path = open_file_read d log_path"

definition disk_record_of :: "log_record_header \<Rightarrow> bytes \<Rightarrow> disk_record" where
  "disk_record_of h payload = \<lparr>rec_offset = lh_offset h, rec_timestamp_ms = lh_timestamp_ms h,
     rec_payload = payload\<rparr>"

lemma pread_file_SomeD:
  assumes "pread_file d fd n off = Some p"
  obtains f where "fd = Some f" "unat off < 2 ^ 63" "p = bytes_at (unat off) n (file_contents d f)"
  using assms by (auto simp: pread_file_def split: option.splits if_splits)

lemma unat_advance:
  assumes "unat (pos :: u64) < 2 ^ 63"
  shows "unat (pos + 20 + ucast (sz :: u32)) = unat pos + 20 + unat sz"
proof -
  have "unat (pos + 20) = unat pos + 20"
    using assms unat_add_u64' [of pos 20] by simp
  then show ?thesis
    using assms unat_lt_u32 [of sz] unat_add_u64' [of "pos + 20" "ucast sz"]
    by simp
qed

text \<open>A full header read moves the position forward, inside the file.\<close>

lemma reader_progress:
  assumes "pread_file d fd LOG_RECORD_HEADER_SIZE pos = Some hb"
    and "\<not> length hb < LOG_RECORD_HEADER_SIZE"
  shows "length (file_contents d (the fd)) - unat (pos + 20 + ucast (sz :: u32))
           < length (file_contents d (the fd)) - unat pos"
proof -
  from assms(1) obtain f where f: "fd = Some f" "unat pos < 2 ^ 63"
    "hb = bytes_at (unat pos) LOG_RECORD_HEADER_SIZE (file_contents d f)"
    by (rule pread_file_SomeD)
  with assms(2) have "unat pos + 20 \<le> length (file_contents d f)"
    by (simp add: LOG_RECORD_HEADER_SIZE_def)
  then show ?thesis using f(1) unat_advance [OF f(2), of sz] by simp
qed

function read_loop ::
  "dir \<Rightarrow> segment_reader \<Rightarrow> u64 \<Rightarrow> u64 \<Rightarrow> nat \<Rightarrow> disk_record list \<Rightarrow> fault + disk_record list" where
  "read_loop d fd pos start_offset max_count records =
     (if length records < max_count then
        case pread_file d fd LOG_RECORD_HEADER_SIZE pos of
          None \<Rightarrow> Inl IoError
        | Some hb \<Rightarrow>
            if length hb < LOG_RECORD_HEADER_SIZE then Inr records
            else let h = decode_header hb
              in if lh_offset h < start_offset
                 then read_loop d fd (pos + 20 + ucast (lh_payload_size h)) start_offset max_count records
                 else case pread_file d fd (unat (lh_payload_size h)) (pos + 20) of
                        None \<Rightarrow> Inl IoError
                      | Some payload \<Rightarrow>
                          if length payload < unat (lh_payload_size h) then Inr records
                          else read_loop d fd (pos + 20 + ucast (lh_payload_size h)) start_offset
                                 max_count (records @ [disk_record_of h payload])
      else Inr records)"
  by pat_completeness auto
termination
  by (relation "measure (\<lambda>(d, fd, pos, _). length (file_contents d (the fd)) - unat pos)")
    (auto intro: reader_progress)

declare read_loop.simps [simp del]

definition segment_read ::
  "dir \<Rightarrow> segment_reader \<Rightarrow> u64 \<Rightarrow> u64 \<Rightarrow> u16 \<Rightarrow> fault + disk_record list" where
  "segment_read d fd file_position start_offset max_count =
     read_loop d fd file_position start_offset (unat max_count) []"

function scan_valid ::
  "dir \<Rightarrow> segment_reader \<Rightarrow> u64 \<Rightarrow> disk_record list \<Rightarrow> u64 \<times> disk_record list" where
  "scan_valid d fd pos out =
     (case pread_file d fd LOG_RECORD_HEADER_SIZE pos of
        None \<Rightarrow> (pos, out)
      | Some hb \<Rightarrow>
          if length hb < LOG_RECORD_HEADER_SIZE then (pos, out)
          else let h = decode_header hb
            in case pread_file d fd (unat (lh_payload_size h)) (pos + 20) of
                 None \<Rightarrow> (pos, out)
               | Some payload \<Rightarrow>
                   if length payload < unat (lh_payload_size h) then (pos, out)
                   else scan_valid d fd (pos + 20 + ucast (lh_payload_size h))
                          (out @ [disk_record_of h payload]))"
  by pat_completeness auto
termination
  by (relation "measure (\<lambda>(d, fd, pos, _). length (file_contents d (the fd)) - unat pos)")
    (auto intro: reader_progress)

declare scan_valid.simps [simp del]

section \<open>Reading one record\<close>

lemma unat_pos_20: "unat (pos :: u64) < 2 ^ 63 \<Longrightarrow> unat (pos + 20) = unat pos + 20"
  using unat_add_u64' [of pos 20] by simp

lemma bytes_at_suffix: "length a = n \<Longrightarrow> bytes_at n k (a @ b) = take k b"
  by (simp add: bytes_at_def)

text \<open>The situation at the top of an iteration: the file is \<open>pre @ rest\<close> and the position is the
  length of \<open>pre\<close>.\<close>

definition at_pos :: "dir \<Rightarrow> fname \<Rightarrow> u64 \<Rightarrow> bytes \<Rightarrow> bytes \<Rightarrow> bool" where
  "at_pos d f pos pre rest =
     (file_contents d f = pre @ rest \<and> unat pos = length pre \<and> length (pre @ rest) < 2 ^ 62)"

lemma at_pos_header:
  assumes "at_pos d f pos pre rest"
  shows "pread_file d (Some f) LOG_RECORD_HEADER_SIZE pos = Some (take 20 rest)"
  using assms by (simp add: at_pos_def pread_file_def LOG_RECORD_HEADER_SIZE_def bytes_at_suffix)

lemma at_pos_payload:
  assumes "at_pos d f pos pre rest" "20 \<le> length rest"
  shows "pread_file d (Some f) n (pos + 20) = Some (take n (drop 20 rest))"
proof -
  have "unat (pos + 20) = length pre + 20" using assms by (simp add: at_pos_def unat_pos_20)
  then show ?thesis using assms
    by (simp add: at_pos_def pread_file_def bytes_at_def)
qed

lemma at_pos_step:
  assumes "at_pos d f pos pre (encode_record r @ rest)" "wf_record r"
  shows "at_pos d f (pos + 20 + ucast (lh_payload_size (record_header r))) (pre @ encode_record r) rest"
  using assms by (simp add: at_pos_def unat_advance)

lemma take20_encode_record: "take 20 (encode_record r) = encode_header (record_header r)"
  by (simp add: encode_record_def)

lemma drop20_encode_record: "drop 20 (encode_record r) = rec_payload r"
  by (simp add: encode_record_def)

lemma disk_record_of_record [simp]: "disk_record_of (record_header r) (rec_payload r) = r"
  by (simp add: disk_record_of_def)

lemma decode_take20: "20 \<le> length p \<Longrightarrow> decode_header (take 20 p) = decode_header p"
  using hdr.dec_prefix [of p "[]"] by simp

section \<open>The loops\<close>

lemma read_loop_full: "max_count \<le> length records \<Longrightarrow>
    read_loop d fd pos start max_count records = Inr records"
  by (subst read_loop.simps) simp

lemma read_loop_skip:
  assumes "at_pos d f pos pre (encode_record r @ rest)" "wf_record r"
    and "length records < max_count" "rec_offset r < start"
  shows "read_loop d (Some f) pos start max_count records =
     read_loop d (Some f) (pos + 20 + ucast (lh_payload_size (record_header r))) start max_count records"
  using assms at_pos_header [OF assms(1)]
  by (subst read_loop.simps) (simp add: take20_encode_record hdr.dec_enc_exact LOG_RECORD_HEADER_SIZE_def Let_def)

lemma read_loop_take:
  assumes "at_pos d f pos pre (encode_record r @ rest)" "wf_record r"
    and "length records < max_count" "\<not> rec_offset r < start"
  shows "read_loop d (Some f) pos start max_count records =
     read_loop d (Some f) (pos + 20 + ucast (lh_payload_size (record_header r))) start max_count
       (records @ [r])"
  using assms at_pos_header [OF assms(1)] at_pos_payload [OF assms(1)]
  by (subst read_loop.simps)
    (simp add: take20_encode_record drop20_encode_record hdr.dec_enc_exact LOG_RECORD_HEADER_SIZE_def Let_def)

lemma read_loop_incomplete:
  assumes "at_pos d f pos pre t" "incomplete t"
  shows "read_loop d (Some f) pos start max_count records = Inr records"
proof (cases "length records < max_count \<and> 20 \<le> length t")
  case False
  then show ?thesis
    using at_pos_header [OF assms(1)]
    by (subst read_loop.simps) (auto simp: LOG_RECORD_HEADER_SIZE_def)
next
  case True
  define h where "h = decode_header t"
  let ?q = "pos + 20 + ucast (lh_payload_size h)"
  have short: "length t < 20 + unat (lh_payload_size h)"
    using assms(2) True by (simp add: incomplete_def h_def)
  have q: "unat ?q = length pre + 20 + unat (lh_payload_size h)"
    using assms(1) by (simp add: at_pos_def unat_advance)
  have "unat ?q < 2 ^ 63"
    using q assms(1) True unat_lt_u32 [of "lh_payload_size h"] by (simp add: at_pos_def)
  then have "pread_file d (Some f) LOG_RECORD_HEADER_SIZE ?q = Some []"
    using q short assms(1) by (simp add: pread_file_def at_pos_def bytes_at_def)
  then have skip: "read_loop d (Some f) ?q start max_count records = Inr records"
    by (subst read_loop.simps) (simp add: LOG_RECORD_HEADER_SIZE_def)
  have "length t - 20 < unat (lh_payload_size h)" using short True by linarith
  then show ?thesis
    using True at_pos_header [OF assms(1)] at_pos_payload [OF assms(1)] skip
    by (subst read_loop.simps)
      (simp add: LOG_RECORD_HEADER_SIZE_def decode_take20 flip: h_def)
qed

lemma read_loop_records:
  assumes "at_pos d f pos pre (encode_records rs @ t)" "\<forall>r \<in> set rs. wf_record r" "incomplete t"
  shows "read_loop d (Some f) pos start max_count records =
     Inr (records @ take (max_count - length records) (filter (\<lambda>r. start \<le> rec_offset r) rs))"
  using assms
proof (induction rs arbitrary: pos pre records)
  case Nil
  then show ?case by (simp add: read_loop_incomplete)
next
  case (Cons r rs)
  let ?pos' = "pos + 20 + ucast (lh_payload_size (record_header r))"
  have wf: "wf_record r" "\<forall>r \<in> set rs. wf_record r" using Cons.prems(2) by auto
  have here: "at_pos d f pos pre (encode_record r @ encode_records rs @ t)"
    using Cons.prems(1) by simp
  have there: "at_pos d f ?pos' (pre @ encode_record r) (encode_records rs @ t)"
    using at_pos_step [OF here wf(1)] .
  note ih = Cons.IH [OF there wf(2) Cons.prems(3)]
  show ?case
  proof (cases "length records < max_count")
    case False
    then show ?thesis by (simp add: read_loop_full)
  next
    case True
    show ?thesis
    proof (cases "start \<le> rec_offset r")
      case False
      with read_loop_skip [OF here wf(1) True] ih show ?thesis by simp
    next
      case take: True
      then have "\<not> rec_offset r < start" by simp
      with take read_loop_take [OF here wf(1) True] ih [of "records @ [r]"] True
      show ?thesis by (simp add: take_Cons')
    qed
  qed
qed

lemma segment_read_records:
  assumes "at_pos d f pos pre (encode_records rs @ t)" "\<forall>r \<in> set rs. wf_record r" "incomplete t"
  shows "segment_read d (Some f) pos start max_count =
     Inr (take (unat max_count) (filter (\<lambda>r. start \<le> rec_offset r) rs))"
  unfolding segment_read_def by (simp add: read_loop_records [OF assms])

lemma scan_valid_incomplete:
  assumes "at_pos d f pos pre t" "incomplete t"
  shows "scan_valid d (Some f) pos out = (pos, out)"
  using assms(2) at_pos_header [OF assms(1)] at_pos_payload [OF assms(1)]
  by (subst scan_valid.simps)
    (auto simp: LOG_RECORD_HEADER_SIZE_def decode_take20 incomplete_def Let_def)

lemma scan_valid_step:
  assumes "at_pos d f pos pre (encode_record r @ rest)" "wf_record r"
  shows "scan_valid d (Some f) pos out =
     scan_valid d (Some f) (pos + 20 + ucast (lh_payload_size (record_header r))) (out @ [r])"
  using assms at_pos_header [OF assms(1)] at_pos_payload [OF assms(1)]
  by (subst scan_valid.simps)
    (simp add: take20_encode_record drop20_encode_record hdr.dec_enc_exact LOG_RECORD_HEADER_SIZE_def Let_def)

lemma ucast_payload_size:
  "wf_record r \<Longrightarrow> (ucast (lh_payload_size (record_header r)) :: u64) = of_nat (length (rec_payload r))"
  by (simp add: word_unat_eq_iff wf_record_def)

lemma scan_valid_records:
  assumes "at_pos d f pos pre (encode_records rs @ t)" "\<forall>r \<in> set rs. wf_record r" "incomplete t"
  shows "scan_valid d (Some f) pos out = (pos + of_nat (length (encode_records rs)), out @ rs)"
  using assms
proof (induction rs arbitrary: pos pre out)
  case Nil
  then show ?case by (simp add: scan_valid_incomplete)
next
  case (Cons r rs)
  have wf: "wf_record r" "\<forall>r \<in> set rs. wf_record r" using Cons.prems(2) by auto
  have here: "at_pos d f pos pre (encode_record r @ encode_records rs @ t)"
    using Cons.prems(1) by simp
  show ?case
    using scan_valid_step [OF here wf(1), of out]
      Cons.IH [OF at_pos_step [OF here wf(1)] wf(2) Cons.prems(3), of "out @ [r]"]
      payload_size_record_header [OF wf(1)]
    by (simp add: ucast_payload_size [OF wf(1)])
qed

text \<open>Every file splits into complete records and an incomplete tail: what the scan relies on when
  it walks a file of unknown contents.\<close>

lemma split_records:
  "\<exists>rs t. bs = encode_records rs @ t \<and> (\<forall>r \<in> set rs. wf_record r) \<and> incomplete t"
proof (induction bs rule: length_induct)
  case (1 bs)
  show ?case
  proof (cases "incomplete bs")
    case True
    then have "bs = encode_records [] @ bs \<and> (\<forall>r \<in> set []. wf_record r) \<and> incomplete bs" by simp
    then show ?thesis by blast
  next
    case False
    define h where "h = decode_header bs"
    define n where "n = unat (lh_payload_size h)"
    define r where "r = disk_record_of h (take n (drop 20 bs))"
    from False have len: "20 \<le> length bs" "20 + n \<le> length bs"
      by (auto simp: incomplete_def h_def n_def)
    have hdr: "record_header r = h"
      using len by (simp add: r_def record_header_def disk_record_of_def n_def)
    have wf: "wf_record r"
      using len unat_lt_u32 [of "lh_payload_size h"]
      by (simp add: wf_record_def r_def disk_record_of_def n_def)
    have "encode_record r = take 20 bs @ take n (drop 20 bs)"
      unfolding encode_record_def hdr
      using len by (simp add: h_def encode_decode_header) (simp add: r_def disk_record_of_def)
    also have "\<dots> = take (20 + n) bs" by (simp add: take_add)
    finally have bs: "bs = encode_record r @ drop (20 + n) bs" by simp
    from len have "length (drop (20 + n) bs) < length bs" by simp
    then obtain rs t where "drop (20 + n) bs = encode_records rs @ t"
      "\<forall>r \<in> set rs. wf_record r" "incomplete t"
      using "1.IH" by blast
    with bs wf have "bs = encode_records (r # rs) @ t \<and> (\<forall>r \<in> set (r # rs). wf_record r) \<and> incomplete t"
      by simp
    then show ?thesis by blast
  qed
qed

end
