(* ===== verification/Fell_Search.thy ===== *)
theory Fell_Search
  imports Fell_Prelude
begin

text \<open>
  \<^verbatim>\<open>std::upper_bound\<close> as the storage code calls it (\<^verbatim>\<open>OffsetIndex::lookup\<close> and
  \<^verbatim>\<open>PartitionStore::find_segment_for\<close>): the halving search of the standard library, over the
  predicate "the searched value is below this element". On a partitioned list it is the length of
  the prefix that fails the predicate; on any list its result is a boundary of the predicate.
\<close>

section \<open>Definitions\<close>

function upper_bound_loop :: "('a \<Rightarrow> bool) \<Rightarrow> 'a list \<Rightarrow> nat \<Rightarrow> nat \<Rightarrow> nat" where
  "upper_bound_loop p xs first len =
     (if 0 < len then
        let half = len div 2; mid = first + half
        in if p (xs ! mid) then upper_bound_loop p xs first half
           else upper_bound_loop p xs (mid + 1) (len - half - 1)
      else first)"
  by pat_completeness auto
termination
  by (relation "measure (\<lambda>(p, xs, first, len). len)") auto

declare upper_bound_loop.simps [simp del]

definition upper_bound :: "('a \<Rightarrow> bool) \<Rightarrow> 'a list \<Rightarrow> nat" where
  "upper_bound p xs = upper_bound_loop p xs 0 (length xs)"

section \<open>The result is a boundary\<close>

lemma upper_bound_loop_boundary:
  assumes "first + len \<le> length xs"
    and "first = 0 \<or> \<not> p (xs ! (first - 1))"
    and "first + len = length xs \<or> p (xs ! (first + len))"
  shows "(let i = upper_bound_loop p xs first len
          in first \<le> i \<and> i \<le> first + len \<and> (i = 0 \<or> \<not> p (xs ! (i - 1))) \<and>
             (i = length xs \<or> p (xs ! i)))"
  using assms
proof (induction p xs first len rule: upper_bound_loop.induct)
  case (1 p xs first len)
  show ?case
  proof (cases "0 < len")
    case False
    then have "upper_bound_loop p xs first len = first"
      by (subst upper_bound_loop.simps) simp
    with False "1.prems" show ?thesis by (simp add: Let_def)
  next
    case True
    define mid where "mid = first + len div 2"
    show ?thesis
    proof (cases "p (xs ! mid)")
      case True
      have step: "upper_bound_loop p xs first len = upper_bound_loop p xs first (len div 2)"
        using True \<open>0 < len\<close>
        by (subst upper_bound_loop.simps) (simp add: Let_def mid_def)
      have pre: "first + len div 2 \<le> length xs" "p (xs ! (first + len div 2))"
        using "1.prems"(1) True by (simp_all add: mid_def)
      show ?thesis
        using "1.IH"(1) [OF \<open>0 < len\<close> refl mid_def True pre(1) "1.prems"(2) disjI2 [OF pre(2)]]
        unfolding step Let_def by auto
    next
      case False
      have le: "mid + 1 + (len - len div 2 - 1) = first + len"
        using \<open>0 < len\<close> by (simp add: mid_def)
      have "mid + 1 + (len - len div 2 - 1) \<le> length xs"
        "mid + 1 = 0 \<or> \<not> p (xs ! (mid + 1 - 1))"
        "mid + 1 + (len - len div 2 - 1) = length xs \<or>
           p (xs ! (mid + 1 + (len - len div 2 - 1)))"
        using "1.prems"(1,3) False unfolding le by simp_all
      note ih = "1.IH"(2) [OF \<open>0 < len\<close> refl mid_def False this]
      have step: "upper_bound_loop p xs first len =
          upper_bound_loop p xs (mid + 1) (len - len div 2 - 1)"
        using False \<open>0 < len\<close>
        by (subst upper_bound_loop.simps) (simp add: Let_def mid_def)
      show ?thesis using ih unfolding step Let_def le by (auto simp: mid_def)
    qed
  qed
qed

lemma upper_bound_boundary:
  "upper_bound p xs \<le> length xs"
  "upper_bound p xs = 0 \<or> \<not> p (xs ! (upper_bound p xs - 1))"
  "upper_bound p xs = length xs \<or> p (xs ! upper_bound p xs)"
  using upper_bound_loop_boundary [of 0 "length xs" xs p]
  by (simp_all add: upper_bound_def Let_def)

section \<open>Sorted lists\<close>

definition partitioned :: "('a \<Rightarrow> bool) \<Rightarrow> 'a list \<Rightarrow> bool" where
  "partitioned p xs = (\<forall>i j. i \<le> j \<longrightarrow> j < length xs \<longrightarrow> p (xs ! i) \<longrightarrow> p (xs ! j))"

lemma upper_bound_partitioned:
  assumes "partitioned p xs"
  shows "upper_bound p xs = length (takeWhile (\<lambda>x. \<not> p x) xs)"
proof -
  let ?i = "upper_bound p xs"
  have lower: "\<not> p (xs ! j)" if "j < ?i" for j
  proof
    assume "p (xs ! j)"
    moreover have "j \<le> ?i - 1" "?i - 1 < length xs"
      using that upper_bound_boundary(1) [of p xs] by linarith+
    ultimately have "p (xs ! (?i - 1))" using assms by (auto simp: partitioned_def)
    with that upper_bound_boundary(2) [of p xs] show False by simp
  qed
  have "takeWhile (\<lambda>x. \<not> p x) xs = take ?i xs"
  proof (rule takeWhile_eq_take_P_nth)
    show "\<not> p (xs ! j)" if "j < ?i" for j using that by (rule lower)
    show "\<not> \<not> p (xs ! ?i)" if "?i < length xs"
      using that upper_bound_boundary(3) [of p xs] by simp
  qed
  then show ?thesis using upper_bound_boundary(1) [of p xs] by simp
qed

lemma partitioned_sorted_key:
  fixes key :: "'a \<Rightarrow> 'b::linorder"
  assumes "sorted (map key xs)"
  shows "partitioned (\<lambda>x. v < key x) xs"
  unfolding partitioned_def
proof (intro allI impI)
  fix i j assume "i \<le> j" "j < length xs" "v < key (xs ! i)"
  then have "key (xs ! i) \<le> key (xs ! j)"
    using sorted_nth_mono [OF assms, of i j] by simp
  with \<open>v < key (xs ! i)\<close> show "v < key (xs ! j)" by simp
qed

end
