(* ===== verification/Fell_Offset_Index.thy ===== *)
theory Fell_Offset_Index
  imports Fell_Segment_Reader Fell_Search
begin

text \<open>
  \<^verbatim>\<open>storage/offset_index.cpp\<close>: loading a sparse index file and looking up the file position at
  which to start reading. The central fact is that a lookup through any list of correct entries,
  complete or not, sorted or not, gives a position from which the reader returns the same records
  as from the start of the file; so a stale cached index never changes the result of a fetch.
\<close>

section \<open>Definitions\<close>

fun entries_of :: "nat \<Rightarrow> bytes \<Rightarrow> index_entry list" where
  "entries_of 0 bs = []"
| "entries_of (Suc n) bs = decode_index_entry (take INDEX_ENTRY_SIZE bs)
     # entries_of n (drop INDEX_ENTRY_SIZE bs)"

text \<open>The constructor reads \<^verbatim>\<open>fsize\<close> bytes into a vector of \<^verbatim>\<open>fsize / 16\<close> entries; a file whose size
  is not a multiple of 16 makes the read run past the end of the vector.\<close>

definition OffsetIndex :: "dir \<Rightarrow> fname \<Rightarrow> fault + index_entry list" where
  "OffsetIndex d idx_path =
     (case open_file_read d idx_path of
        None \<Rightarrow> Inr []
      | Some fd \<Rightarrow>
          let fsize = file_size d idx_path;
              num_entries = fsize div INDEX_ENTRY_SIZE
          in case pread_file d (Some fd) fsize 0 of
               None \<Rightarrow> Inr []
             | Some bs \<Rightarrow>
                 if num_entries * INDEX_ENTRY_SIZE < length bs then Inl OutOfBounds
                 else if length bs = fsize then Inr (entries_of num_entries bs)
                 else Inr [])"

definition lookup :: "index_entry list \<Rightarrow> u64 \<Rightarrow> u64" where
  "lookup entries target =
     (if entries = [] then 0
      else let it = upper_bound (\<lambda>e. target < ie_offset e) entries
        in if it = 0 then 0 else ie_file_position (entries ! (it - 1)))"

definition encode_index :: "index_entry list \<Rightarrow> bytes" where
  "encode_index es = concat (map encode_index_entry es)"

text \<open>An entry is correct for the records of a segment if its position is a record boundary and
  every record before it has a smaller offset than the entry's.\<close>

definition entry_ok :: "log_record list \<Rightarrow> index_entry \<Rightarrow> bool" where
  "entry_ok rs e = (\<exists>n \<le> length rs. ie_file_position e = of_nat (length (encode_records (take n rs)))
     \<and> (\<forall>x \<in> set (take n rs). rec_offset x < ie_offset e))"

section \<open>Loading\<close>

lemma entries_of_encode: "entries_of (length es) (encode_index es @ r) = es"
  by (induction es)
    (simp_all add: encode_index_def INDEX_ENTRY_SIZE_def decode_encode_index_entry idx.dec_enc_exact)

lemma length_encode_index [simp]: "length (encode_index es) = 16 * length es"
  by (induction es) (auto simp: encode_index_def)

lemma encode_index_simps [simp]:
  "encode_index [] = []" "encode_index (as @ bs) = encode_index as @ encode_index bs"
  by (simp_all add: encode_index_def)

lemma OffsetIndex_encoded:
  assumes "map_of d f = Some (encode_index es)"
  shows "OffsetIndex d f = Inr es"
  using assms entries_of_encode [of es "[]"]
  by (simp add: OffsetIndex_def open_file_read_def file_size_def file_contents_def
      pread_file_def INDEX_ENTRY_SIZE_def Let_def)

lemma OffsetIndex_torn:
  assumes "map_of d f = Some c" "length c mod 16 \<noteq> 0"
  shows "OffsetIndex d f = Inl OutOfBounds"
proof -
  have "length c div 16 * 16 < length c"
    using assms(2) div_mult_mod_eq [of "length c" 16] by linarith
  then show ?thesis using assms(1)
    by (simp add: OffsetIndex_def open_file_read_def file_size_def file_contents_def
        pread_file_def INDEX_ENTRY_SIZE_def Let_def)
qed

section \<open>Looking up\<close>

lemma lookup_cases:
  obtains (zero) "lookup es target = 0"
  | (entry) e where "e \<in> set es" "ie_offset e \<le> target" "lookup es target = ie_file_position e"
proof (cases "es = [] \<or> upper_bound (\<lambda>e. target < ie_offset e) es = 0")
  case True
  then have "lookup es target = 0" by (auto simp: lookup_def)
  then show ?thesis by (rule zero)
next
  case False
  let ?i = "upper_bound (\<lambda>e. target < ie_offset e) es"
  have i: "?i - 1 < length es"
    using upper_bound_boundary(1) [of "\<lambda>e. target < ie_offset e" es] False by linarith
  show ?thesis
  proof (rule entry)
    show "es ! (?i - 1) \<in> set es" using i by simp
    show "ie_offset (es ! (?i - 1)) \<le> target"
      using upper_bound_boundary(2) [of "\<lambda>e. target < ie_offset e" es] False by simp
    show "lookup es target = ie_file_position (es ! (?i - 1))"
      using False by (simp add: lookup_def Let_def)
  qed
qed

lemma lookup_sorted:
  assumes "sorted (map ie_offset es)"
  shows "lookup es target =
     (let le = takeWhile (\<lambda>e. ie_offset e \<le> target) es
      in if le = [] then 0 else ie_file_position (last le))"
proof -
  let ?le = "takeWhile (\<lambda>e. ie_offset e \<le> target) es"
  have ub: "upper_bound (\<lambda>e. target < ie_offset e) es = length ?le"
    using upper_bound_partitioned [OF partitioned_sorted_key [OF assms, of target]]
    by (simp add: not_less)
  have "es ! (length ?le - 1) = last ?le" if "?le \<noteq> []"
    using that takeWhile_nth [of "length ?le - 1" "\<lambda>e. ie_offset e \<le> target" es]
    by (simp add: last_conv_nth)
  then show ?thesis using ub by (auto simp: lookup_def Let_def)
qed

section \<open>Reading through an index\<close>

lemma filter_take_below:
  assumes "\<forall>x \<in> set (take n rs). rec_offset x < o'" "o' \<le> start"
  shows "filter (\<lambda>r. start \<le> rec_offset r) rs = filter (\<lambda>r. start \<le> rec_offset r) (drop n rs)"
proof -
  have "filter (\<lambda>r. start \<le> rec_offset r) (take n rs) = []"
    using assms by (fastforce simp: filter_empty_conv)
  then show ?thesis by (metis append_take_drop_id filter_append append_Nil)
qed

lemma entry_ok_at_pos:
  assumes "file_contents d f = encode_records rs @ t" "length (encode_records rs @ t) < 2 ^ 62"
    and "n \<le> length rs" "pos = of_nat (length (encode_records (take n rs)))"
  shows "at_pos d f pos (encode_records (take n rs)) (encode_records (drop n rs) @ t)"
proof -
  have "encode_records rs = encode_records (take n rs) @ encode_records (drop n rs)"
    by (metis append_take_drop_id encode_records_simps(3))
  then show ?thesis using assms by (simp add: at_pos_def)
qed

lemma read_through_index:
  assumes "file_contents d f = encode_records rs @ t" "length (encode_records rs @ t) < 2 ^ 62"
    and "\<forall>r \<in> set rs. wf_record r" "incomplete t"
    and ok: "\<forall>e \<in> set es. entry_ok rs e"
  shows "segment_read d (Some f) (lookup es start) start max_count =
     Inr (take (unat max_count) (filter (\<lambda>r. start \<le> rec_offset r) rs))"
proof (cases rule: lookup_cases [of es start])
  case zero
  have "at_pos d f 0 [] (encode_records rs @ t)"
    using assms(1,2) by (simp add: at_pos_def)
  then show ?thesis
    unfolding zero using assms(3,4) by (rule segment_read_records)
next
  case (entry e)
  from ok entry(1) obtain n where n: "n \<le> length rs"
    "ie_file_position e = of_nat (length (encode_records (take n rs)))"
    "\<forall>x \<in> set (take n rs). rec_offset x < ie_offset e"
    unfolding entry_ok_def by blast
  have "at_pos d f (lookup es start) (encode_records (take n rs)) (encode_records (drop n rs) @ t)"
    using assms(1,2) n(1,2) entry(3) by (intro entry_ok_at_pos) simp_all
  from segment_read_records [OF this _ assms(4)] assms(3) show ?thesis
    using filter_take_below [OF n(3) entry(2)] by (simp add: in_set_dropD)
qed

text \<open>An entry stays correct when records are appended.\<close>

lemma entry_ok_append:
  assumes "entry_ok rs e"
  shows "entry_ok (rs @ rs') e"
proof -
  from assms obtain n where n: "n \<le> length rs"
    "ie_file_position e = of_nat (length (encode_records (take n rs)))"
    "\<forall>x \<in> set (take n rs). rec_offset x < ie_offset e"
    unfolding entry_ok_def by blast
  then have "take n (rs @ rs') = take n rs" by simp
  with n show ?thesis unfolding entry_ok_def by (intro exI [of _ n]) simp
qed

end
