(* ===== verification/Fell_Log_Recovery.thy ===== *)
theory Fell_Log_Recovery
  imports Fell_Offset_Index
begin

text \<open>
  \<^verbatim>\<open>storage/log_recovery.cpp\<close>: the scan of the last segment at start-up, which cuts off what a crash
  left behind of an unfinished write. The lemmas state what the recovered segment contains, that
  recovery is idempotent, and what recovery cannot tell from a record.
\<close>

section \<open>Definitions\<close>

record recovery_result =
  rr_next_offset :: u64
  rr_log_end_position :: u64
  rr_records_recovered :: u32
  rr_truncated :: bool

definition recover_partition :: "dir \<Rightarrow> fault + recovery_result \<times> dir" where
  "recover_partition d =
     (let paths = log_paths d
      in if paths = [] then
           Inr (\<lparr>rr_next_offset = 0, rr_log_end_position = 0, rr_records_recovered = 0,
                 rr_truncated = False\<rparr>, d)
         else let last_path = last paths
           in case stoull (stem last_path) of
                Inl e \<Rightarrow> Inl e
              | Inr seg \<Rightarrow>
                  (case scan_valid d (SegmentReader d last_path) 0 [] of
                     (end_pos, records) \<Rightarrow>
                       let rr = \<lparr>rr_next_offset = (if records = [] then seg
                                                  else rec_offset (last records) + 1),
                                 rr_log_end_position = end_pos,
                                 rr_records_recovered = of_nat (length records),
                                 rr_truncated = False\<rparr>
                       in if unat end_pos < file_size d last_path
                          then Inr (rr\<lparr>rr_truncated := True\<rparr>,
                                    resize_file d last_path (unat end_pos))
                          else Inr (rr, d)))"

text \<open>The offset the recovered log continues at.\<close>

definition next_after :: "u64 \<Rightarrow> log_record list \<Rightarrow> u64" where
  "next_after base rs = (if rs = [] then base else rec_offset (last rs) + 1)"

section \<open>What recovery keeps\<close>

lemma log_paths_mem: "f \<in> set (log_paths d) \<longleftrightarrow> f \<in> fst ` set d \<and> extension f = ''.log''"
  by (auto simp: log_paths_def)

lemma log_paths_file_put:
  "f \<in> fst ` set d \<Longrightarrow> log_paths (file_put d f c) = log_paths d"
  by (simp add: log_paths_def map_fst_file_put_mem)

lemma recover_partition_records:
  assumes "log_paths d \<noteq> []" "last (log_paths d) = p" "stoull (stem p) = Inr base"
    and c: "file_contents d p = encode_records rs @ t"
    and len: "length (encode_records rs @ t) < 2 ^ 62"
    and wf: "\<forall>r \<in> set rs. wf_record r" and inc: "incomplete t"
  shows "recover_partition d =
     Inr (\<lparr>rr_next_offset = next_after base rs,
           rr_log_end_position = of_nat (length (encode_records rs)),
           rr_records_recovered = of_nat (length rs), rr_truncated = (t \<noteq> [])\<rparr>,
          if t = [] then d else file_put d p (encode_records rs))"
proof -
  have "p \<in> set (log_paths d)" using assms(1,2) by (metis last_in_set)
  then have "map_of d p \<noteq> None"
    by (simp add: log_paths_mem map_of_eq_None_iff)
  then have "SegmentReader d p = Some p"
    by (auto simp: SegmentReader_def open_file_read_def)
  moreover have "at_pos d p 0 [] (encode_records rs @ t)"
    using c len by (simp add: at_pos_def)
  ultimately have "scan_valid d (SegmentReader d p) 0 [] =
      (of_nat (length (encode_records rs)), rs)"
    using scan_valid_records [OF _ wf inc] by force
  moreover have "unat (of_nat (length (encode_records rs)) :: u64) = length (encode_records rs)"
    using len by simp
  ultimately show ?thesis
    using assms(1-3) c
    by (simp add: recover_partition_def next_after_def file_size_def resize_file_def Let_def)
qed

lemma recover_partition_no_segments: "log_paths d = [] \<Longrightarrow> recover_partition d =
    Inr (\<lparr>rr_next_offset = 0, rr_log_end_position = 0, rr_records_recovered = 0,
          rr_truncated = False\<rparr>, d)"
  by (simp add: recover_partition_def)

lemma log_paths_singleton:
  "log_paths [(log_name base, c)] = [log_name base]"
  "log_paths [(log_name base, c), (idx_name base, c')] = [log_name base]"
  by (simp_all add: log_paths_def)

text \<open>A run of zero bytes, as a file system may leave at the end of a file after power loss, has
  the form of records with offset 0 and an empty payload.\<close>

definition zero_record :: log_record where
  "zero_record = \<lparr>rec_offset = 0, rec_timestamp_ms = 0, rec_payload = []\<rparr>"

lemma encode_zero_record: "encode_record zero_record = replicate 20 0"
  by (simp add: encode_record_def zero_record_def record_header_def encode_header_def
      write_be64_def write_be32_def numeral_eq_Suc)

lemma encode_zero_records: "encode_records (replicate k zero_record) = replicate (20 * k) 0"
  by (induction k) (simp_all add: encode_zero_record replicate_add [symmetric])

lemma wf_zero_record: "wf_record zero_record"
  by (simp add: wf_record_def zero_record_def)

section \<open>Properties\<close>

text \<open>C22. Crash recovery of the active segment. Whatever a crash left behind in the last segment
  file, complete records followed by an incomplete tail, recovery truncates the file to exactly
  the complete records, reports the end position and count of those, resumes at the offset after
  the last one (or at the segment's base offset when there is none), flags the truncation if and
  only if a tail was cut, and leaves every other file alone.\<close>

theorem recovery_truncates_torn_tail:
  assumes "log_paths d \<noteq> []" "last (log_paths d) = log_name base"
    and "file_contents d (log_name base) = encode_records rs @ t"
    and "length (encode_records rs @ t) < 2 ^ 62"
    and "\<forall>r \<in> set rs. wf_record r" and "incomplete t"
  shows "\<exists>rr d'. recover_partition d = Inr (rr, d')
     \<and> file_contents d' (log_name base) = encode_records rs
     \<and> (\<forall>f. f \<noteq> log_name base \<longrightarrow> file_contents d' f = file_contents d f)
     \<and> rr_next_offset rr = (if rs = [] then base else rec_offset (last rs) + 1)
     \<and> unat (rr_log_end_position rr) = length (encode_records rs)
     \<and> rr_records_recovered rr = of_nat (length rs)
     \<and> (rr_truncated rr \<longleftrightarrow> t \<noteq> [])"
  using assms recover_partition_records [OF assms(1,2) _ assms(3-6), of base]
  by (simp add: stoull_segment_stem next_after_def)

lemma recovery_truncates_torn_tail_witness:
  "\<exists>rr d'. recover_partition [(log_name 7, encode_records [\<lparr>rec_offset = 7, rec_timestamp_ms = 1,
       rec_payload = [1, 2]\<rparr>] @ [0, 0, 0])] = Inr (rr, d')
     \<and> file_contents d' (log_name 7) = encode_records [\<lparr>rec_offset = 7, rec_timestamp_ms = 1,
       rec_payload = [1, 2]\<rparr>]
     \<and> rr_next_offset rr = 8 \<and> rr_truncated rr"
  using recovery_truncates_torn_tail
    [of "[(log_name 7, encode_records [\<lparr>rec_offset = 7, rec_timestamp_ms = 1,
        rec_payload = [1, 2]\<rparr>] @ [0, 0, 0])]" 7
      "[\<lparr>rec_offset = 7, rec_timestamp_ms = 1, rec_payload = [1, 2]\<rparr>]" "[0, 0, 0]"]
  by (auto simp: log_paths_singleton file_contents_def wf_record_def incomplete_def)

text \<open>C23. Recovery is idempotent: recovering the directory a recovery produced changes no file and
  reports the same state, with nothing truncated. This holds for every directory, also when a
  second crash follows at once.\<close>

theorem recovery_idempotent:
  assumes "recover_partition d = Inr (rr, d')"
    and "\<forall>f. length (file_contents d f) < 2 ^ 62"
  shows "recover_partition d' = Inr (rr\<lparr>rr_truncated := False\<rparr>, d')"
proof (cases "log_paths d = []")
  case True
  then show ?thesis using assms(1) recover_partition_no_segments [OF True] by auto
next
  case False
  define p where "p = last (log_paths d)"
  obtain base where base: "stoull (stem p) = Inr base"
    using assms(1) False by (cases "stoull (stem p)") (auto simp: recover_partition_def p_def)
  obtain rs t where split: "file_contents d p = encode_records rs @ t"
    "\<forall>r \<in> set rs. wf_record r" "incomplete t"
    using split_records [of "file_contents d p"] by blast
  have "length (encode_records rs @ t) < 2 ^ 62" using assms(2) split(1) by metis
  note rec = recover_partition_records [OF False p_def [symmetric] base split(1) this split(2,3)]
  then have d': "d' = (if t = [] then d else file_put d p (encode_records rs))"
    using assms(1) by simp
  have "p \<in> fst ` set d" using False p_def last_in_set log_paths_mem by metis
  then have paths: "log_paths d' = log_paths d" using d' by (simp add: log_paths_file_put)
  have c': "file_contents d' p = encode_records rs @ []" using d' split(1) by simp
  have "length (encode_records rs @ []) < 2 ^ 62"
    using \<open>length (encode_records rs @ t) < 2 ^ 62\<close> by simp
  from recover_partition_records [OF _ _ base c' this split(2) incomplete_Nil] rec paths False
  show ?thesis using assms(1) by (simp add: p_def)
qed

lemma recovery_idempotent_witness:
  "\<exists>rr d'. recover_partition [(log_name 0, [1, 2, 3])] = Inr (rr, d')
     \<and> recover_partition d' = Inr (rr\<lparr>rr_truncated := False\<rparr>, d')"
proof -
  have "recover_partition [(log_name 0, [1, 2, 3])] =
      Inr (\<lparr>rr_next_offset = next_after 0 [], rr_log_end_position = of_nat (length (encode_records [])),
            rr_records_recovered = of_nat (length ([] :: log_record list)), rr_truncated = True\<rparr>,
           file_put [(log_name 0, [1, 2, 3])] (log_name 0) (encode_records []))"
    using recover_partition_records [of "[(log_name 0, [1, 2, 3])]" "log_name 0" 0 "[]" "[1, 2, 3]"]
    by (simp add: log_paths_singleton stoull_segment_stem file_contents_def incomplete_def)
  from recovery_idempotent [OF this] this show ?thesis
    by (auto simp: file_contents_def)
qed

text \<open>Recovery validates no checksum. A tail of zero bytes that is a multiple of the header size
  is taken for records, and the log resumes at offset 1, below offsets that were already
  assigned.\<close>

theorem recovery_accepts_zero_tail:
  assumes "log_paths d \<noteq> []" "last (log_paths d) = log_name base"
    and "file_contents d (log_name base) = encode_records rs @ replicate (20 * Suc k) 0"
    and "length (encode_records rs) + 20 * Suc k < 2 ^ 62" "\<forall>r \<in> set rs. wf_record r"
  shows "\<exists>rr. recover_partition d = Inr (rr, d) \<and> rr_next_offset rr = 1
     \<and> rr_records_recovered rr = of_nat (length rs + Suc k) \<and> \<not> rr_truncated rr"
proof -
  let ?rs = "rs @ replicate (Suc k) zero_record"
  have c: "file_contents d (log_name base) = encode_records ?rs @ []"
    using assms(3) by (simp only: encode_records_simps(3) encode_zero_records append_Nil2)
  have len: "length (encode_records ?rs @ []) < 2 ^ 62"
    using assms(4) by (simp only: encode_records_simps(3) encode_zero_records append_Nil2
        length_append length_replicate)
  have wf: "\<forall>r \<in> set ?rs. wf_record r" using assms(5) by (auto simp: wf_zero_record)
  have st: "stoull (stem (log_name base)) = Inr base" by (simp add: stoull_segment_stem)
  have "last ?rs = zero_record" by simp
  then show ?thesis
    using recover_partition_records [OF assms(1,2) st c len wf incomplete_Nil]
    by (simp add: next_after_def zero_record_def del: replicate_Suc)
qed

lemma recovery_accepts_zero_tail_witness:
  "\<exists>rr. recover_partition [(log_name 0, encode_records [\<lparr>rec_offset = 41, rec_timestamp_ms = 9,
       rec_payload = [5]\<rparr>] @ replicate 20 0)] = Inr (rr, [(log_name 0, encode_records
       [\<lparr>rec_offset = 41, rec_timestamp_ms = 9, rec_payload = [5]\<rparr>] @ replicate 20 0)])
     \<and> rr_next_offset rr = 1"
  using recovery_accepts_zero_tail
    [of "[(log_name 0, encode_records [\<lparr>rec_offset = 41, rec_timestamp_ms = 9,
       rec_payload = [5]\<rparr>] @ replicate 20 0)]" 0
      "[\<lparr>rec_offset = 41, rec_timestamp_ms = 9, rec_payload = [5]\<rparr>]" 0]
  by (auto simp: log_paths_singleton file_contents_def wf_record_def)

end
