(* ===== verification/Fell_Partition_Store.thy ===== *)
theory Fell_Partition_Store
  imports Fell_Log_Recovery
begin

text \<open>
  \<^verbatim>\<open>storage/segment_writer.cpp\<close> and \<^verbatim>\<open>storage/partition_store.cpp\<close>: the state of a partition and its
  operations, one definition each. Producers call \<open>store_append\<close>, consumers call \<open>store_fetch\<close>; the one I/O
  thread runs \<open>take_batch\<close>, \<open>write_batch\<close> (its index writes, its log write and its
  publication are three definitions, because readers can run between them), \<open>fire_once_callbacks\<close>, the commit callback,
  and the rotation and flush policy of \<open>io_loop\<close>. The system clock, the expiry of the batch
  deadline, the producers that run while the I/O thread waits, and the results of \<^verbatim>\<open>writev\<close> are
  arguments. Callbacks are values of a type parameter \<open>'cb\<close>; calling one is an event.
\<close>

section \<open>Definitions\<close>

subsection \<open>storage\_options.hpp\<close>

record storage_options =
  max_pending_bytes :: nat
  queue_capacity :: nat
  max_batch_bytes :: nat
  max_batch_records :: nat
  batch_wait_us :: u32
  flush_every_records :: u32
  flush_every_ms :: u32

definition default_options :: storage_options where
  "default_options = \<lparr>max_pending_bytes = 64 * 1024 * 1024, queue_capacity = 65536,
     max_batch_bytes = 1024 * 1024, max_batch_records = 4096, batch_wait_us = 1000,
     flush_every_records = 8192, flush_every_ms = 25\<rparr>"

subsection \<open>SegmentWriter\<close>

record segment_writer =
  sw_base_offset :: u64
  sw_next_offset :: u64
  sw_bytes_written :: u64

definition open_files :: "dir \<Rightarrow> u64 \<Rightarrow> dir" where
  "open_files d base = open_file_append (open_file_append d (log_name base)) (idx_name base)"

definition SegmentWriter :: "dir \<Rightarrow> u64 \<Rightarrow> segment_writer \<times> dir" where
  "SegmentWriter d base_offset =
     (\<lparr>sw_base_offset = base_offset, sw_next_offset = base_offset, sw_bytes_written = 0\<rparr>,
      open_files d base_offset)"

definition add_bytes_written :: "u64 \<Rightarrow> segment_writer \<Rightarrow> segment_writer" where
  "add_bytes_written bytes w = w\<lparr>sw_bytes_written := sw_bytes_written w + bytes\<rparr>"

definition advance_next_offset :: "u64 \<Rightarrow> segment_writer \<Rightarrow> segment_writer" where
  "advance_next_offset n w = w\<lparr>sw_next_offset := sw_next_offset w + n\<rparr>"

definition set_next_offset :: "u64 \<Rightarrow> segment_writer \<Rightarrow> segment_writer" where
  "set_next_offset offset w = w\<lparr>sw_next_offset := offset\<rparr>"

definition set_bytes_written :: "u64 \<Rightarrow> segment_writer \<Rightarrow> segment_writer" where
  "set_bytes_written bytes w = w\<lparr>sw_bytes_written := bytes\<rparr>"

subsection \<open>PartitionStore: state\<close>

datatype append_error = Busy | Closed

record append_result =
  ar_accepted :: bool
  ar_offset :: u64
  ar_error :: append_error

definition append_ok :: "u64 \<Rightarrow> append_result" where
  "append_ok value = \<lparr>ar_accepted = True, ar_offset = value, ar_error = Busy\<rparr>"

definition append_busy :: append_result where
  "append_busy = \<lparr>ar_accepted = False, ar_offset = 0, ar_error = Busy\<rparr>"

definition append_closed :: append_result where
  "append_closed = \<lparr>ar_accepted = False, ar_offset = 0, ar_error = Closed\<rparr>"

text \<open>Members of the class, with the partition directory in place of \<^verbatim>\<open>dir_\<close>. \<^verbatim>\<open>segment_cache_\<close>
  maps a segment's path to its loaded index and its reader; \<^verbatim>\<open>once_callbacks_\<close> lists its entries
  in the map's iteration order.\<close>

record 'cb store =
  st_dir :: dir
  writer :: segment_writer
  sealed_segments :: "(u64 \<times> fname) list"
  segment_cache :: "fname \<rightharpoonup> index_entry list \<times> segment_reader"
  last_timestamp_ms :: u64
  ts_counter :: u32
  options :: storage_options
  queue :: "append_command list"
  pending_bytes :: nat
  shutdown :: bool
  st_next_offset :: u64
  st_committed_offset :: u64
  busy_count :: u64
  records_since_flush :: u32
  last_flush_time :: u64
  has_commit_cb :: bool
  once_callbacks :: "(u64 \<times> 'cb list) list"

datatype 'cb store_event =
    CallOnce 'cb
  | CallCommit u64 "committed_record list"
  | FlushFiles u64

subsection \<open>Construction\<close>

fun stems_of :: "fname list \<Rightarrow> fault + (u64 \<times> fname) list" where
  "stems_of [] = Inr []"
| "stems_of (p # ps) =
     (case stoull (stem p) of
        Inl e \<Rightarrow> Inl e
      | Inr base \<Rightarrow> (case stems_of ps of Inl e \<Rightarrow> Inl e | Inr r \<Rightarrow> Inr ((base, p) # r)))"

definition PartitionStore :: "dir \<Rightarrow> storage_options \<Rightarrow> u64 \<Rightarrow> fault + 'cb store" where
  "PartitionStore d opts now =
     (case recover_partition d of
        Inl e \<Rightarrow> Inl e
      | Inr (rr, d1) \<Rightarrow>
          let paths = log_paths d1
          in case stems_of (butlast paths) of
               Inl e \<Rightarrow> Inl e
             | Inr sealed \<Rightarrow>
                 (case (if paths = [] then Inr 0 else stoull (stem (last paths))) of
                    Inl e \<Rightarrow> Inl e
                  | Inr active_base \<Rightarrow>
                      (case SegmentWriter d1 active_base of
                         (w0, d2) \<Rightarrow>
                           let w = (if paths = [] then w0
                                    else set_bytes_written (rr_log_end_position rr)
                                           (set_next_offset (rr_next_offset rr) w0))
                           in Inr \<lparr>st_dir = d2, writer = w, sealed_segments = sealed,
                                   segment_cache = Map.empty, last_timestamp_ms = 0, ts_counter = 0,
                                   options = opts, queue = [], pending_bytes = 0, shutdown = False,
                                   st_next_offset = sw_next_offset w,
                                   st_committed_offset = sw_next_offset w, busy_count = 0,
                                   records_since_flush = 0, last_flush_time = now,
                                   has_commit_cb = False, once_callbacks = []\<rparr>)))"

subsection \<open>Callbacks\<close>

definition set_commit_callback :: "'cb store \<Rightarrow> 'cb store" where
  "set_commit_callback st = st\<lparr>has_commit_cb := True\<rparr>"

fun once_insert :: "(u64 \<times> 'cb list) list \<Rightarrow> u64 \<Rightarrow> 'cb \<Rightarrow> (u64 \<times> 'cb list) list" where
  "once_insert [] off cb = [(off, [cb])]"
| "once_insert ((k, cbs) # m) off cb =
     (if k = off then (k, cbs @ [cb]) # m else (k, cbs) # once_insert m off cb)"

definition set_once_commit_callback ::
  "u64 \<Rightarrow> 'cb \<Rightarrow> 'cb store \<Rightarrow> 'cb store \<times> 'cb store_event list" where
  "set_once_commit_callback offset cb st =
     (if offset < st_committed_offset st then (st, [CallOnce cb])
      else (st\<lparr>once_callbacks := once_insert (once_callbacks st) offset cb\<rparr>, []))"

definition fire_once_callbacks ::
  "u64 \<Rightarrow> 'cb store \<Rightarrow> 'cb store \<times> 'cb store_event list" where
  "fire_once_callbacks committed_offset st =
     (let due = filter (\<lambda>(off, cbs). off < committed_offset) (once_callbacks st)
      in (st\<lparr>once_callbacks := filter (\<lambda>(off, cbs). \<not> off < committed_offset) (once_callbacks st)\<rparr>,
          map CallOnce (concat (map snd due))))"

subsection \<open>Append\<close>

definition kTimestampRefreshEvery :: u32 where
  "kTimestampRefreshEvery = 16"

definition get_cached_timestamp_locked :: "u64 \<Rightarrow> 'cb store \<Rightarrow> u64 \<times> 'cb store" where
  "get_cached_timestamp_locked now st =
     (let ts = (if ts_counter st = 0 then now else last_timestamp_ms st);
          c = ts_counter st + 1
      in (ts, st\<lparr>last_timestamp_ms := ts,
                 ts_counter := (if c \<ge> kTimestampRefreshEvery then 0 else c)\<rparr>))"

definition store_append :: "u64 \<Rightarrow> bytes \<Rightarrow> 'cb store \<Rightarrow> append_result \<times> 'cb store" where
  "store_append now payload st =
     (if shutdown st then (append_closed, st)
      else if length (queue st) \<ge> queue_capacity (options st)
              \<or> pending_bytes st + length payload > max_pending_bytes (options st)
      then (append_busy, st\<lparr>busy_count := busy_count st + 1\<rparr>)
      else case get_cached_timestamp_locked now st of
             (ts, st1) \<Rightarrow>
               (append_ok (st_next_offset st1),
                st1\<lparr>st_next_offset := st_next_offset st1 + 1,
                    pending_bytes := pending_bytes st1 + length payload,
                    queue := queue st1 @ [\<lparr>rec_offset = st_next_offset st1, rec_timestamp_ms = ts,
                                           rec_payload = payload\<rparr>]\<rparr>))"

text \<open>The destructor's request to the I/O thread.\<close>

definition request_shutdown :: "'cb store \<Rightarrow> 'cb store" where
  "request_shutdown st = st\<lparr>shutdown := True\<rparr>"

subsection \<open>Fetch\<close>

definition find_segment_for :: "'cb store \<Rightarrow> u64 \<Rightarrow> fname option" where
  "find_segment_for st offset =
     (let it = upper_bound (\<lambda>m. offset < fst m) (sealed_segments st)
      in if it \<noteq> 0 then Some (snd (sealed_segments st ! (it - 1)))
         else if offset \<ge> sw_base_offset (writer st) then Some (log_name (sw_base_offset (writer st)))
         else None)"

definition cached_segment ::
  "'cb store \<Rightarrow> fname \<Rightarrow> fault + (index_entry list \<times> segment_reader) \<times> 'cb store" where
  "cached_segment st seg_path =
     (case segment_cache st seg_path of
        Some c \<Rightarrow> Inr (c, st)
      | None \<Rightarrow>
          (case OffsetIndex (st_dir st) (replace_ext seg_path ''.idx'') of
             Inl e \<Rightarrow> Inl e
           | Inr es \<Rightarrow>
               let c = (es, SegmentReader (st_dir st) seg_path)
               in Inr (c, st\<lparr>segment_cache := (segment_cache st)(seg_path \<mapsto> c)\<rparr>)))"

definition store_fetch :: "u64 \<Rightarrow> u16 \<Rightarrow> 'cb store \<Rightarrow> fault + stored_message list \<times> 'cb store" where
  "store_fetch offset max_count st =
     (case find_segment_for st offset of
        None \<Rightarrow> Inr ([], st)
      | Some seg_path \<Rightarrow>
          (case cached_segment st seg_path of
             Inl e \<Rightarrow> Inl e
           | Inr ((es, rdr), st') \<Rightarrow>
               (case segment_read (st_dir st') rdr (lookup es offset) offset max_count of
                  Inl e \<Rightarrow> Inl e
                | Inr rs \<Rightarrow> Inr (rs, st'))))"

definition next_offset :: "'cb store \<Rightarrow> u64" where
  "next_offset st = sw_next_offset (writer st)"

definition committed_offset :: "'cb store \<Rightarrow> u64" where
  "committed_offset st = st_committed_offset st"

subsection \<open>The I/O thread: taking a batch\<close>

text \<open>What other threads do to the queue while the I/O thread waits with the lock released.\<close>

datatype env_action = EnvAppend u64 bytes | EnvShutdown

fun env_step :: "env_action \<Rightarrow> 'cb store \<Rightarrow> 'cb store" where
  "env_step (EnvAppend now payload) st = snd (store_append now payload st)"
| "env_step EnvShutdown st = request_shutdown st"

definition env_run :: "env_action list \<Rightarrow> 'cb store \<Rightarrow> 'cb store" where
  "env_run acts st = fold env_step acts st"

definition pop_front :: "'cb store \<Rightarrow> append_command \<times> 'cb store" where
  "pop_front st = (hd (queue st),
     st\<lparr>queue := tl (queue st),
        pending_bytes := size_sub (pending_bytes st) (length (rec_payload (hd (queue st))))\<rparr>)"

text \<open>The gathering loop. Its first argument holds, for each round, whether the deadline is over
  when the round checks it, and what happens during the wait if the round empties the queue; a
  wait that ends with an empty queue ends the loop. An exhausted argument is an expired deadline.\<close>

fun take_loop ::
  "(bool \<times> env_action list) list \<Rightarrow> 'cb store \<Rightarrow> append_command list \<Rightarrow> nat
     \<Rightarrow> append_command list \<times> 'cb store" where
  "take_loop [] st batch batch_bytes =
     (if queue st = [] then (batch, st)
      else case pop_front st of (cmd, st1) \<Rightarrow> (batch @ [cmd], st1))"
| "take_loop ((expired, acts) # os) st batch batch_bytes =
     (if queue st = [] then (batch, st)
      else case pop_front st of
             (cmd, st1) \<Rightarrow>
               let batch' = batch @ [cmd];
                   bytes' = batch_bytes + (LOG_RECORD_HEADER_SIZE + length (rec_payload cmd))
               in if length batch' \<ge> max_batch_records (options st1)
                     \<or> bytes' \<ge> max_batch_bytes (options st1) then (batch', st1)
                  else if expired then (batch', st1)
                  else if queue st1 = [] then take_loop os (env_run acts st1) batch' bytes'
                  else take_loop os st1 batch' bytes')"

text \<open>The wait at the start ends when there is a command or the store is shutting down;
  \<open>None\<close>: the thread is still waiting.\<close>

definition take_batch ::
  "(bool \<times> env_action list) list \<Rightarrow> 'cb store \<Rightarrow> (append_command list \<times> 'cb store) option" where
  "take_batch os st =
     (if \<not> (shutdown st \<or> queue st \<noteq> []) then None
      else if shutdown st \<and> queue st = [] then Some ([], st)
      else Some (take_loop os st [] 0))"

subsection \<open>The I/O thread: writing a batch\<close>

text \<open>\<open>wv f b\<close> is the result of the \<^verbatim>\<open>writev\<close> call that appends \<open>b\<close> to file \<open>f\<close>.\<close>

type_synonym writev = "fname \<Rightarrow> bytes \<Rightarrow> int"

definition index_due :: "segment_writer \<Rightarrow> append_command \<Rightarrow> bool" where
  "index_due w cmd = ((rec_offset cmd - sw_base_offset w) mod INDEX_INTERVAL = 0)"

definition index_bytes :: "append_command \<Rightarrow> u64 \<Rightarrow> bytes" where
  "index_bytes cmd current_file_pos =
     encode_index_entry \<lparr>ie_offset = rec_offset cmd, ie_file_position = current_file_pos\<rparr>"

definition write_index_entry ::
  "writev \<Rightarrow> segment_writer \<Rightarrow> append_command \<Rightarrow> u64 \<Rightarrow> dir \<Rightarrow> bool \<times> dir" where
  "write_index_entry wv w cmd current_file_pos d =
     (let f = idx_name (sw_base_offset w); entry = index_bytes cmd current_file_pos
      in if index_due w cmd then write_file_vec (wv f entry) d f [entry] else (True, d))"

definition next_file_pos :: "u64 \<Rightarrow> append_command \<Rightarrow> u64" where
  "next_file_pos current_file_pos cmd =
     current_file_pos + of_nat (LOG_RECORD_HEADER_SIZE + length (rec_payload cmd))"

fun write_index_entries ::
  "writev \<Rightarrow> segment_writer \<Rightarrow> append_command list \<Rightarrow> u64 \<Rightarrow> bytes \<Rightarrow> dir \<Rightarrow> (fault option \<times> bytes) \<times> dir"
  where
  "write_index_entries wv w [] current_file_pos buffer d = ((None, buffer), d)"
| "write_index_entries wv w (cmd # batch) current_file_pos buffer d =
     (case write_index_entry wv w cmd current_file_pos d of
        (good, d') \<Rightarrow>
          if good then write_index_entries wv w batch (next_file_pos current_file_pos cmd)
                         (buffer @ encode_record cmd) d'
          else ((Some IoError, buffer), d'))"

text \<open>The index writes of \<open>write_batch\<close>, which also fill its buffer.\<close>

definition write_batch_index ::
  "writev \<Rightarrow> append_command list \<Rightarrow> 'cb store \<Rightarrow> (fault option \<times> bytes) \<times> 'cb store" where
  "write_batch_index wv batch st =
     (case write_index_entries wv (writer st) batch (sw_bytes_written (writer st)) [] (st_dir st) of
        (res, d) \<Rightarrow> (res, st\<lparr>st_dir := d\<rparr>))"

text \<open>The log write of \<open>write_batch\<close> and the writer's counters.\<close>

definition write_batch_log ::
  "writev \<Rightarrow> append_command list \<Rightarrow> bytes \<Rightarrow> 'cb store \<Rightarrow> fault option \<times> 'cb store" where
  "write_batch_log wv batch buffer st =
     (let f = log_name (sw_base_offset (writer st))
      in case write_file_vec (wv f buffer) (st_dir st) f [buffer] of
           (good, d) \<Rightarrow>
             if good
             then (None, st\<lparr>st_dir := d,
                    writer := advance_next_offset (of_nat (length batch))
                                (add_bytes_written (of_nat (length buffer)) (writer st))\<rparr>)
             else (Some IoError, st\<lparr>st_dir := d\<rparr>))"

text \<open>The publication at the end of \<open>write_batch\<close>.\<close>

definition publish_batch :: "append_command list \<Rightarrow> 'cb store \<Rightarrow> 'cb store" where
  "publish_batch batch st = st\<lparr>st_committed_offset := rec_offset (last batch) + 1\<rparr>"

definition write_batch ::
  "writev \<Rightarrow> append_command list \<Rightarrow> 'cb store \<Rightarrow> (fault option \<times> committed_record list) \<times> 'cb store" where
  "write_batch wv batch st =
     (if batch = [] then ((None, []), st)
      else case write_batch_index wv batch st of
             ((Some e, _), st1) \<Rightarrow> ((Some e, []), st1)
           | ((None, buffer), st1) \<Rightarrow>
               (case write_batch_log wv batch buffer st1 of
                  (Some e, st2) \<Rightarrow> ((Some e, []), st2)
                | (None, st2) \<Rightarrow> ((None, batch), publish_batch batch st2)))"

subsection \<open>The I/O thread: rotation, flushing, one round of io\_loop\<close>

text \<open>Rotation: the old segment is published under \<^verbatim>\<open>mu_\<close>; the writer is replaced after the lock is released.\<close>

definition seal_segment :: "'cb store \<Rightarrow> 'cb store \<times> 'cb store_event list" where
  "seal_segment st =
     (let old_base = sw_base_offset (writer st);
          old_log_path = log_name old_base
      in (st\<lparr>sealed_segments := sealed_segments st @ [(old_base, old_log_path)],
             segment_cache := (segment_cache st)(old_log_path := None)\<rparr>,
          [FlushFiles old_base]))"

definition open_segment :: "u64 \<Rightarrow> 'cb store \<Rightarrow> 'cb store" where
  "open_segment now st =
     (let new_base = sw_next_offset (writer st)
      in case SegmentWriter (st_dir st) new_base of
           (w, d) \<Rightarrow> st\<lparr>writer := w, st_dir := d, records_since_flush := 0, last_flush_time := now\<rparr>)"

definition rotate :: "u64 \<Rightarrow> 'cb store \<Rightarrow> 'cb store \<times> 'cb store_event list" where
  "rotate now st = (case seal_segment st of (st1, evs) \<Rightarrow> (open_segment now st1, evs))"

definition flush_policy :: "u64 \<Rightarrow> nat \<Rightarrow> 'cb store \<Rightarrow> 'cb store \<times> 'cb store_event list" where
  "flush_policy now n st =
     (let since = records_since_flush st + of_nat n;
          elapsed_ms = now - last_flush_time st
      in if since \<ge> flush_every_records (options st) \<or> elapsed_ms \<ge> ucast (flush_every_ms (options st))
         then (st\<lparr>records_since_flush := 0, last_flush_time := now\<rparr>,
               [FlushFiles (sw_base_offset (writer st))])
         else (st\<lparr>records_since_flush := since\<rparr>, []))"

definition rotation_due :: "'cb store \<Rightarrow> bool" where
  "rotation_due st = (unat (sw_bytes_written (writer st)) \<ge> LOG_SEGMENT_MAX_BYTES)"

definition rotate_or_flush :: "u64 \<Rightarrow> nat \<Rightarrow> 'cb store \<Rightarrow> 'cb store \<times> 'cb store_event list" where
  "rotate_or_flush now n st =
     (if rotation_due st then rotate now st
      else flush_policy now n st)"

definition commit_callback :: "append_command list \<Rightarrow> 'cb store \<Rightarrow> 'cb store_event list" where
  "commit_callback batch st =
     (if has_commit_cb st then [CallCommit (rec_offset (hd batch)) batch] else [])"

text \<open>One round of \<open>io_loop\<close> with no other thread running in between: \<open>None\<close> while it waits,
  a fault when \<open>write_batch\<close> throws, otherwise the new state, the events, and whether the loop
  goes on.\<close>

definition io_round ::
  "(bool \<times> env_action list) list \<Rightarrow> writev \<Rightarrow> u64 \<Rightarrow> 'cb store
     \<Rightarrow> (fault + bool \<times> 'cb store_event list \<times> 'cb store) option" where
  "io_round os wv now st =
     (case take_batch os st of
        None \<Rightarrow> None
      | Some (batch, st1) \<Rightarrow>
          Some (if batch = []
                then (if shutdown st1 then Inr (False, [FlushFiles (sw_base_offset (writer st1))], st1)
                      else Inr (True, [], st1))
                else case write_batch wv batch st1 of
                       ((Some e, _), st2) \<Rightarrow> Inl e
                     | ((None, committed), st2) \<Rightarrow>
                         (case fire_once_callbacks (st_committed_offset st2) st2 of
                            (st3, evs1) \<Rightarrow>
                              (case rotate_or_flush now (length batch) st3 of
                                 (st4, evs2) \<Rightarrow>
                                   Inr (True, evs1 @ commit_callback batch st3 @ evs2, st4)))))"

end
