(* ===== verification/Fell_Store_Log.thy ===== *)
theory Fell_Store_Log
  imports Fell_Partition_Store
begin

text \<open>
  What the files of a partition mean: the invariant that ties segment files, index files, cached
  indices and the writer's counters to the sequence of records, and what \<open>store_fetch\<close> returns
  under it. The ghost argument \<open>segs\<close> lists the segments, the active one last, as pairs of base
  offset and records; \<open>fut\<close> are records whose index entries are on disk before they are.
\<close>

section \<open>Definitions\<close>

fun offsets_from :: "u64 \<Rightarrow> log_record list \<Rightarrow> bool" where
  "offsets_from a [] = True"
| "offsets_from a (r # rs) = (rec_offset r = a \<and> offsets_from (a + 1) rs)"

text \<open>Segments follow each other without gaps, sealed ones are not empty, and no offset wraps.\<close>

fun seg_chain :: "nat \<Rightarrow> (u64 \<times> log_record list) list \<Rightarrow> bool" where
  "seg_chain n [] = True"
| "seg_chain n ((b, rs) # segs) =
     (b = of_nat n \<and> n + length rs < 2 ^ 64 \<and> offsets_from b rs \<and> (segs \<noteq> [] \<longrightarrow> rs \<noteq> [])
      \<and> seg_chain (n + length rs) segs)"

definition seg_files_ok :: "dir \<Rightarrow> log_record list \<Rightarrow> u64 \<times> log_record list \<Rightarrow> bool" where
  "seg_files_ok d fut seg =
     (case seg of (b, rs) \<Rightarrow>
        map_of d (log_name b) = Some (encode_records rs)
        \<and> length (encode_records (rs @ fut)) < 2 ^ 62
        \<and> (\<forall>r \<in> set rs. wf_record r)
        \<and> (\<exists>es. map_of d (idx_name b) = Some (encode_index es) \<and> (\<forall>e \<in> set es. entry_ok (rs @ fut) e)))"

text \<open>Only the active segment can have records to come.\<close>

definition fut_of ::
  "(u64 \<times> log_record list) list \<Rightarrow> log_record list \<Rightarrow> u64 \<Rightarrow> log_record list" where
  "fut_of segs fut b = (if b = fst (last segs) then fut else [])"

definition cache_ok ::
  "(u64 \<times> log_record list) list \<Rightarrow> log_record list \<Rightarrow> 'cb store \<Rightarrow> bool" where
  "cache_ok segs fut st =
     (\<forall>f es rd. segment_cache st f = Some (es, rd) \<longrightarrow>
        (\<exists>(b, rs) \<in> set segs. f = log_name b \<and> rd = Some f
           \<and> (\<forall>e \<in> set es. entry_ok (rs @ fut_of segs fut b) e)))"

definition writer_ok :: "u64 \<times> log_record list \<Rightarrow> segment_writer \<Rightarrow> bool" where
  "writer_ok seg w =
     (sw_base_offset w = fst seg \<and> sw_next_offset w = fst seg + of_nat (length (snd seg))
      \<and> sw_bytes_written w = of_nat (length (encode_records (snd seg))))"

text \<open>The directory holds the files of these segments and nothing else, so that a new segment
  starts empty and a restart finds the same segments.\<close>

definition dir_ok :: "(u64 \<times> log_record list) list \<Rightarrow> dir \<Rightarrow> bool" where
  "dir_ok segs d =
     (distinct (map fst d)
      \<and> (\<forall>f. map_of d f \<noteq> None \<longrightarrow> (\<exists>b \<in> fst ` set segs. f = log_name b \<or> f = idx_name b)))"

text \<open>The sealed segments are all but the last one. While a rotation replaces the writer, the last one is
  sealed as well.\<close>

definition sealed_ok :: "(u64 \<times> log_record list) list \<Rightarrow> 'cb store \<Rightarrow> bool" where
  "sealed_ok segs st =
     (\<exists>k \<le> length segs. length segs \<le> Suc k \<and> sealed_segments st = map (\<lambda>(b, rs). (b, log_name b)) (take k segs))"

definition log_ok :: "(u64 \<times> log_record list) list \<Rightarrow> log_record list \<Rightarrow> 'cb store \<Rightarrow> bool" where
  "log_ok segs fut st =
     (segs \<noteq> [] \<and> seg_chain (unat (fst (hd segs))) segs
      \<and> sealed_ok segs st
      \<and> writer_ok (last segs) (writer st)
      \<and> (\<forall>seg \<in> set segs. seg_files_ok (st_dir st) (fut_of segs fut (fst seg)) seg)
      \<and> cache_ok segs fut st \<and> dir_ok segs (st_dir st))"

section \<open>Contiguous offsets\<close>

lemma offsets_from_append [simp]:
  "offsets_from a (xs @ ys) \<longleftrightarrow> offsets_from a xs \<and> offsets_from (a + of_nat (length xs)) ys"
  by (induction xs arbitrary: a) (auto simp: ac_simps)

lemma offsets_from_nth: "offsets_from a rs \<Longrightarrow> i < length rs \<Longrightarrow> rec_offset (rs ! i) = a + of_nat i"
proof (induction rs arbitrary: a i)
  case (Cons r rs)
  then show ?case by (cases i) (auto simp: ac_simps)
qed simp

lemma offsets_from_mem:
  assumes "offsets_from (of_nat n) rs" "n + length rs < 2 ^ 64" "r \<in> set rs"
  shows "n \<le> unat (rec_offset r)" "unat (rec_offset r) < n + length rs"
proof -
  from assms(3) obtain i where i: "i < length rs" "r = rs ! i" by (metis in_set_conv_nth)
  then have "rec_offset r = of_nat (n + i)" using offsets_from_nth [OF assms(1) i(1)] by simp
  then have "unat (rec_offset r) = n + i" using assms(2) i(1) by (simp only: unat_of_nat_u64)
  then show "n \<le> unat (rec_offset r)" "unat (rec_offset r) < n + length rs" using i(1) by simp_all
qed

lemma filter_offsets_from:
  assumes "offsets_from (of_nat n) rs" "n + length rs < 2 ^ 64"
  shows "filter (\<lambda>r. off \<le> rec_offset r) rs = drop (unat off - n) rs"
  using assms
proof (induction rs arbitrary: n)
  case Nil
  then show ?case by simp
next
  case (Cons r rs)
  have n: "n < 2 ^ 64" using Cons.prems(2) by simp
  have "offsets_from (of_nat (Suc n)) rs" "Suc n + length rs < 2 ^ 64"
    using Cons.prems by (simp_all add: ac_simps)
  note ih = Cons.IH [OF this]
  have r: "off \<le> rec_offset r \<longleftrightarrow> unat off \<le> n"
    using Cons.prems(1) n by (simp add: word_le_nat_alt)
  show ?case
  proof (cases "unat off \<le> n")
    case True
    then show ?thesis using ih r by simp
  next
    case False
    then have "unat off - n = Suc (unat off - Suc n)" by simp
    then show ?thesis using ih r False by simp
  qed
qed

section \<open>The chain of segments\<close>

lemma seg_chain_bases:
  "seg_chain n segs \<Longrightarrow> (b, rs) \<in> set segs \<Longrightarrow>
     n \<le> unat b \<and> b = of_nat (unat b) \<and> unat b + length rs < 2 ^ 64 \<and> offsets_from b rs"
  by (induction n segs rule: seg_chain.induct) auto

lemma seg_chain_sorted: "seg_chain n segs \<Longrightarrow> sorted (map fst segs)"
proof (induction n segs rule: seg_chain.induct)
  case (2 n b rs segs)
  have "b \<le> fst seg" if "seg \<in> set segs" for seg
  proof -
    obtain b' rs' where seg: "seg = (b', rs')" by (cases seg)
    with that seg_chain_bases [of "n + length rs" segs b' rs'] "2.prems"
    show ?thesis by (simp add: word_le_nat_alt)
  qed
  with "2" show ?case by auto
qed simp

lemma seg_chain_append:
  "seg_chain n (as @ bs) \<longleftrightarrow> seg_chain n as \<and> seg_chain (n + length (concat (map snd as))) bs
     \<and> (bs \<noteq> [] \<longrightarrow> (\<forall>(b, rs) \<in> set as. rs \<noteq> []))"
  by (induction n as rule: seg_chain.induct) (auto simp: ac_simps)

lemma seg_chain_distinct:
  assumes "seg_chain n segs"
  shows "distinct (map fst segs)"
  using assms
proof (induction n segs rule: seg_chain.induct)
  case (2 n b rs segs)
  have "b \<noteq> fst seg" if "seg \<in> set segs" for seg
  proof -
    obtain b' rs' where seg: "seg = (b', rs')" by (cases seg)
    have "0 < length rs" using that "2.prems" by (cases segs) auto
    moreover have "unat b = n" using "2.prems" by simp
    moreover have "n + length rs \<le> unat b'"
      using that seg seg_chain_bases [of "n + length rs" segs b' rs'] "2.prems" by simp
    ultimately show ?thesis using seg by auto
  qed
  with "2" show ?case by auto
qed simp

section \<open>Reading a segment\<close>

lemma segment_read_past_end:
  assumes "length (file_contents d f) \<le> unat pos" "unat pos < 2 ^ 63"
  shows "segment_read d (Some f) pos start max_count = Inr []"
proof -
  have "pread_file d (Some f) LOG_RECORD_HEADER_SIZE pos = Some []"
    using assms by (simp add: pread_file_def bytes_at_def)
  then show ?thesis
    unfolding segment_read_def
    by (subst read_loop.simps) (simp add: LOG_RECORD_HEADER_SIZE_def)
qed

lemma length_encode_records_take: "length (encode_records (take n rs)) \<le> length (encode_records rs)"
  by (metis append_take_drop_id encode_records_simps(3) le_add1 length_append)

lemma lookup_entry_ok:
  assumes "\<forall>e \<in> set es. entry_ok rs e"
  obtains n where "n \<le> length rs" "lookup es start = of_nat (length (encode_records (take n rs)))"
    "\<forall>x \<in> set (take n rs). rec_offset x < start"
proof (cases rule: lookup_cases [of es start])
  case zero
  show ?thesis by (rule that [of 0]) (simp_all add: zero)
next
  case (entry e)
  with assms obtain n where n: "n \<le> length rs"
    "ie_file_position e = of_nat (length (encode_records (take n rs)))"
    "\<forall>x \<in> set (take n rs). rec_offset x < ie_offset e"
    unfolding entry_ok_def by blast
  then have "\<forall>x \<in> set (take n rs). rec_offset x < start" using entry(2) by (meson less_le_trans)
  with n entry(3) show ?thesis by (intro that [of n]) simp_all
qed

text \<open>Reading is also right through an index that already lists records which the log file does
  not hold yet.\<close>

lemma read_through_ahead_index:
  assumes c: "file_contents d f = encode_records rs"
    and len: "length (encode_records (rs @ fut)) < 2 ^ 62"
    and wf: "\<forall>r \<in> set rs. wf_record r"
    and ok: "\<forall>e \<in> set es. entry_ok (rs @ fut) e"
  shows "segment_read d (Some f) (lookup es start) start max_count =
     Inr (take (unat max_count) (filter (\<lambda>r. start \<le> rec_offset r) rs))"
proof -
  from ok obtain n where n: "n \<le> length (rs @ fut)"
    "lookup es start = of_nat (length (encode_records (take n (rs @ fut))))"
    "\<forall>x \<in> set (take n (rs @ fut)). rec_offset x < start"
    by (rule lookup_entry_ok)
  show ?thesis
  proof (cases "n \<le> length rs")
    case True
    then have "at_pos d f (lookup es start) (encode_records (take n rs)) (encode_records (drop n rs) @ [])"
      using c len n by (intro entry_ok_at_pos) simp_all
    from segment_read_records [OF this _ incomplete_Nil] wf show ?thesis
      using filter_take_below [of n rs start start] n True by (simp add: in_set_dropD)
  next
    case False
    then have sub: "take n (rs @ fut) = rs @ take (n - length rs) fut" by simp
    have "\<forall>x \<in> set rs. rec_offset x < start" using n(3) unfolding sub by simp
    then have empty: "filter (\<lambda>r. start \<le> rec_offset r) rs = []"
      by (simp add: filter_empty_conv not_le)
    have lt: "length (encode_records (take n (rs @ fut))) < 2 ^ 62"
      using length_encode_records_take [of n "rs @ fut"] len by linarith
    then have "unat (lookup es start) = length (encode_records (take n (rs @ fut)))"
      unfolding n(2) by (intro unat_of_nat_u64) (rule less_le_trans, assumption, simp)
    then show ?thesis
      using lt empty c unfolding sub by (simp add: segment_read_past_end)
  qed
qed

section \<open>Which segment is read\<close>

text \<open>\<open>k\<close> is the number of sealed segments.\<close>

definition segment_for :: "nat \<Rightarrow> (u64 \<times> log_record list) list \<Rightarrow> u64 \<Rightarrow> (u64 \<times> log_record list) option" where
  "segment_for k segs off =
     (let below = takeWhile (\<lambda>seg. fst seg \<le> off) (take k segs)
      in if below \<noteq> [] then Some (last below)
         else if fst (last segs) \<le> off then Some (last segs) else None)"

lemma segment_for_mem: "segment_for k segs off = Some seg \<Longrightarrow> segs \<noteq> [] \<Longrightarrow> seg \<in> set segs \<and> fst seg \<le> off"
  unfolding segment_for_def Let_def
  by (auto split: if_splits dest: in_set_takeD dest!: last_in_set set_takeWhileD)

lemma sealed_okE:
  assumes "sealed_ok segs st"
  obtains k where "k = length (sealed_segments st)" "k \<le> length segs" "length segs \<le> Suc k"
    "sealed_segments st = map (\<lambda>(b, rs). (b, log_name b)) (take k segs)"
proof -
  from assms obtain k where k: "k \<le> length segs" "length segs \<le> Suc k"
    "sealed_segments st = map (\<lambda>(b, rs). (b, log_name b)) (take k segs)" unfolding sealed_ok_def by blast
  moreover have "k = length (sealed_segments st)" unfolding k(3) using k(1) by simp
  ultimately show ?thesis by (intro that)
qed

lemma sealed_ok_update [simp]:
  "sealed_ok segs (st\<lparr>segment_cache := c\<rparr>) = sealed_ok segs st" "sealed_ok segs (st\<lparr>st_dir := d\<rparr>) = sealed_ok segs st"
  "sealed_ok segs (st\<lparr>writer := w\<rparr>) = sealed_ok segs st" "sealed_ok segs (st\<lparr>st_committed_offset := n\<rparr>) = sealed_ok segs st"
  "sealed_ok segs (st\<lparr>once_callbacks := m\<rparr>) = sealed_ok segs st" "sealed_ok segs (st\<lparr>has_commit_cb := h\<rparr>) = sealed_ok segs st"
  "sealed_ok segs (st\<lparr>shutdown := h\<rparr>) = sealed_ok segs st" "sealed_ok segs (st\<lparr>last_flush_time := t\<rparr>) = sealed_ok segs st"
  "sealed_ok segs (st\<lparr>records_since_flush := r\<rparr>) = sealed_ok segs st"
  by (simp_all add: sealed_ok_def)

lemma sealed_okI:
  "sealed_segments st = map (\<lambda>(b, rs). (b, log_name b)) (take k segs) \<Longrightarrow> k \<le> length segs \<Longrightarrow> length segs \<le> Suc k
     \<Longrightarrow> sealed_ok segs st"
  unfolding sealed_ok_def by blast

lemma log_ok_sorted: "log_ok segs fut st \<Longrightarrow> sorted (map fst (take k segs))"
  unfolding log_ok_def using seg_chain_sorted [of _ segs] sorted_wrt_take [of "(\<le>)" "map fst segs" k]
  by (auto simp: take_map)

lemma find_segment_for_eq:
  assumes "log_ok segs fut st"
  shows "find_segment_for st off =
     map_option (\<lambda>seg. log_name (fst seg)) (segment_for (length (sealed_segments st)) segs off)"
proof -
  from assms have "sealed_ok segs st" by (simp add: log_ok_def)
  then obtain k where k: "k = length (sealed_segments st)" "k \<le> length segs"
    "sealed_segments st = map (\<lambda>(b, rs). (b, log_name b)) (take k segs)" by (rule sealed_okE)
  let ?sealed = "map (\<lambda>(b, rs). (b, log_name b)) (take k segs)"
  have w: "sw_base_offset (writer st) = fst (last segs)"
    using assms by (simp add: log_ok_def writer_ok_def)
  have "map fst ?sealed = map fst (take k segs)" by (simp add: case_prod_beta comp_def)
  then have "partitioned (\<lambda>m. off < fst m) ?sealed"
    using log_ok_sorted [OF assms, of k] by (intro partitioned_sorted_key) (simp only:)
  from upper_bound_partitioned [OF this]
  have ub: "upper_bound (\<lambda>m. off < fst m) ?sealed =
      length (takeWhile (\<lambda>seg. fst seg \<le> off) (take k segs))"
    by (simp add: takeWhile_map comp_def case_prod_beta not_less)
  show ?thesis
  proof (cases "takeWhile (\<lambda>seg. fst seg \<le> off) (take k segs) = []")
    case True
    then show ?thesis
      using ub k(2) by (simp add: find_segment_for_def segment_for_def k(3) w Let_def min_absorb2)
  next
    case False
    let ?b = "takeWhile (\<lambda>seg. fst seg \<le> off) (take k segs)"
    have "length ?b - 1 < length ?b" using False by simp
    moreover from this have "length ?b - 1 < length (take k segs)"
      using length_takeWhile_le [of "\<lambda>seg. fst seg \<le> off" "take k segs"] by linarith
    moreover have "take k segs ! (length ?b - 1) = last ?b"
      using takeWhile_nth [of "length ?b - 1" "\<lambda>seg. fst seg \<le> off" "take k segs"] False
      by (simp add: last_conv_nth)
    ultimately show ?thesis
      using False ub k(2)
      by (simp add: find_segment_for_def segment_for_def k(3) Let_def case_prod_beta min_absorb2)
  qed
qed

section \<open>What fetch returns\<close>

lemma seg_files_okD:
  assumes "seg_files_ok d fut (b, rs)"
  shows "file_contents d (log_name b) = encode_records rs" "open_file_read d (log_name b) = Some (log_name b)"
    "length (encode_records (rs @ fut)) < 2 ^ 62" "\<forall>r \<in> set rs. wf_record r"
  using assms by (auto simp: seg_files_ok_def file_contents_def open_file_read_def)

lemma cached_segment_ok:
  assumes "log_ok segs fut st" "(b, rs) \<in> set segs"
  obtains es c where "cached_segment st (log_name b) = Inr ((es, Some (log_name b)), st\<lparr>segment_cache := c\<rparr>)"
    "\<forall>e \<in> set es. entry_ok (rs @ fut_of segs fut b) e" "log_ok segs fut (st\<lparr>segment_cache := c\<rparr>)"
proof (cases "segment_cache st (log_name b)")
  case None
  have files: "seg_files_ok (st_dir st) (fut_of segs fut b) (b, rs)" using assms by (fastforce simp: log_ok_def)
  then obtain es where es: "map_of (st_dir st) (idx_name b) = Some (encode_index es)"
    "\<forall>e \<in> set es. entry_ok (rs @ fut_of segs fut b) e"
    by (auto simp: seg_files_ok_def)
  let ?c = "(segment_cache st)(log_name b \<mapsto> (es, Some (log_name b)))"
  show ?thesis
  proof (rule that [of es ?c])
    show "cached_segment st (log_name b) = Inr ((es, Some (log_name b)), st\<lparr>segment_cache := ?c\<rparr>)"
      using None seg_files_okD(2) [OF files]
      by (simp add: cached_segment_def OffsetIndex_encoded [OF es(1)] SegmentReader_def Let_def)
    show "log_ok segs fut (st\<lparr>segment_cache := ?c\<rparr>)"
      using assms es(2) by (auto simp: log_ok_def cache_ok_def)
  qed (fact es(2))
next
  case (Some c)
  obtain es rd where c: "c = (es, rd)" by (cases c)
  then obtain b' rs' where s: "(b', rs') \<in> set segs" "log_name b = log_name b'" "rd = Some (log_name b)"
    "\<forall>e \<in> set es. entry_ok (rs' @ fut_of segs fut b') e"
    using Some assms(1) unfolding log_ok_def cache_ok_def by blast
  have "distinct (map fst segs)" using assms(1) seg_chain_distinct by (auto simp: log_ok_def)
  then have "rs' = rs" using s(1,2) assms(2) by (auto simp: eq_key_imp_eq_value)
  then show ?thesis
    using Some c s assms(1) by (intro that [of es "segment_cache st"]) (simp_all add: cached_segment_def)
qed

text \<open>The result of a fetch, whatever the state of the segment's index: the records of the
  selected segment from the asked offset on, at most \<open>max_count\<close> of them.\<close>

definition fetch_result :: "nat \<Rightarrow> (u64 \<times> log_record list) list \<Rightarrow> u64 \<Rightarrow> u16 \<Rightarrow> log_record list" where
  "fetch_result k segs off max_count =
     (case segment_for k segs off of
        None \<Rightarrow> []
      | Some (b, rs) \<Rightarrow> take (unat max_count) (drop (unat off - unat b) rs))"

lemma store_fetch_ok:
  assumes "log_ok segs fut st"
  obtains c where "store_fetch off max_count st =
      Inr (fetch_result (length (sealed_segments st)) segs off max_count, st\<lparr>segment_cache := c\<rparr>)"
    "log_ok segs fut (st\<lparr>segment_cache := c\<rparr>)"
proof (cases "segment_for (length (sealed_segments st)) segs off")
  case None
  then show ?thesis
    using that [of "segment_cache st"] assms find_segment_for_eq [OF assms]
    by (simp add: store_fetch_def fetch_result_def)
next
  case (Some seg)
  obtain b rs where seg: "seg = (b, rs)" by (cases seg)
  have mem: "(b, rs) \<in> set segs" using segment_for_mem [OF Some] seg assms by (simp add: log_ok_def)
  from assms mem obtain es c where c:
    "cached_segment st (log_name b) = Inr ((es, Some (log_name b)), st\<lparr>segment_cache := c\<rparr>)"
    "\<forall>e \<in> set es. entry_ok (rs @ fut_of segs fut b) e" "log_ok segs fut (st\<lparr>segment_cache := c\<rparr>)"
    by (rule cached_segment_ok)
  have files: "seg_files_ok (st_dir st) (fut_of segs fut b) (b, rs)" using assms mem by (fastforce simp: log_ok_def)
  have "b = of_nat (unat b)" "unat b + length rs < 2 ^ 64" "offsets_from b rs"
    using seg_chain_bases [of _ segs b rs] mem assms by (auto simp: log_ok_def)
  then have "filter (\<lambda>r. off \<le> rec_offset r) rs = drop (unat off - unat b) rs"
    by (intro filter_offsets_from) simp_all
  then have "segment_read (st_dir st) (Some (log_name b)) (lookup es off) off max_count =
      Inr (take (unat max_count) (drop (unat off - unat b) rs))"
    using read_through_ahead_index [OF seg_files_okD(1,3,4) [OF files] c(2)] by simp
  then show ?thesis
    using that [of c] c(1,3) find_segment_for_eq [OF assms]
    by (simp add: store_fetch_def fetch_result_def Some seg)
qed

section \<open>Fetch against the whole log\<close>

definition all_records :: "(u64 \<times> log_record list) list \<Rightarrow> log_record list" where
  "all_records segs = concat (map snd segs)"

lemma all_records_simps [simp]:
  "all_records [] = []" "all_records (seg # segs) = snd seg @ all_records segs"
  "all_records (as @ bs) = all_records as @ all_records bs"
  by (simp_all add: all_records_def)

lemma seg_chain_split:
  assumes "seg_chain n (pre @ (b, rs) # post)"
  shows "unat b = n + length (all_records pre)" "unat b + length rs < 2 ^ 64"
    "post \<noteq> [] \<Longrightarrow> unat (fst (hd post)) = unat b + length rs"
proof -
  define m where "m = n + length (all_records pre)"
  have 1: "seg_chain m ((b, rs) # post)"
    using assms unfolding m_def by (simp only: seg_chain_append all_records_def)
  then have b: "unat b = m" by simp
  then show "unat b = n + length (all_records pre)" by (simp add: m_def)
  show "unat b + length rs < 2 ^ 64" using 1 b by simp
  show "unat (fst (hd post)) = unat b + length rs" if ne: "post \<noteq> []"
  proof -
    obtain b' rs' post' where "post = (b', rs') # post'" using ne by (cases post) auto
    with 1 have "fst (hd post) = of_nat (m + length rs)" "m + length rs < 2 ^ 64" by simp_all
    then show ?thesis unfolding b by (simp only: unat_of_nat_u64)
  qed
qed

lemma fetch_result_slice:
  assumes "segs \<noteq> []" "seg_chain n segs"
  obtains k where "k \<le> unat max_count"
    "fetch_result m segs off max_count = take k (drop (unat off - n) (all_records segs))"
proof (cases "segment_for m segs off")
  case None
  then show ?thesis by (intro that [of 0]) (simp_all add: fetch_result_def)
next
  case (Some seg)
  obtain b rs where seg: "seg = (b, rs)" by (cases seg)
  from segment_for_mem [OF Some assms(1)] seg have "(b, rs) \<in> set segs" "b \<le> off" by simp_all
  then obtain pre post where segs: "segs = pre @ (b, rs) # post" by (meson split_list)
  have b: "unat b = n + length (all_records pre)" using assms(2) unfolding segs by (rule seg_chain_split)
  let ?k = "min (unat max_count) (length rs - (unat off - unat b))"
  have "unat off - n = length (all_records pre) + (unat off - unat b)"
    using b \<open>b \<le> off\<close> by (simp add: word_le_nat_alt)
  then have "take ?k (drop (unat off - n) (all_records segs)) =
      take (unat max_count) (drop (unat off - unat b) rs)"
    unfolding segs by (auto simp: min_def)
  then show ?thesis by (intro that [of ?k]) (simp_all add: fetch_result_def Some seg)
qed

text \<open>An offset of a sealed segment is found, and an offset of the active one while nothing is sealed or the active one is
  just being sealed.\<close>

lemma takeWhile_last_split:
  assumes "segs = pre @ seg # post" "length pre < k" "sorted (map fst segs)"
    "fst seg \<le> off" "post \<noteq> [] \<Longrightarrow> off < fst (hd post)"
  shows "takeWhile (\<lambda>s. fst s \<le> off) (take k segs) = pre @ [seg]"
proof -
  obtain m where m: "k - length pre = Suc m" using assms(2) by (cases "k - length pre") simp_all
  have tk: "take k segs = pre @ seg # take m post" using assms(1,2) m by simp
  have "fst s \<le> off" if "s \<in> set pre" for s
    using assms(1,3,4) that by (fastforce simp: sorted_append)
  moreover have "takeWhile (\<lambda>s. fst s \<le> off) (take m post) = []"
    using assms(5) by (cases post; cases m) auto
  ultimately show ?thesis unfolding tk using assms(4) by simp
qed

lemma segment_for_sealed:
  assumes "seg_chain n segs" "segs = pre @ (b, rs) # post" "length pre < k"
    "b \<le> off" "unat off < unat b + length rs"
  shows "segment_for k segs off = Some (b, rs)"
proof -
  have "sorted (map fst segs)" by (rule seg_chain_sorted [OF assms(1)])
  moreover have "off < fst (hd post)" if "post \<noteq> []"
    using seg_chain_split(3) [of n pre b rs post] assms that by (simp add: word_less_nat_alt)
  ultimately have "takeWhile (\<lambda>s. fst s \<le> off) (take k segs) = pre @ [(b, rs)]"
    using assms(2,3,4) by (intro takeWhile_last_split) simp_all
  then show ?thesis by (simp add: segment_for_def)
qed

lemma segment_for_single: "segment_for 0 [(b, rs)] off = (if b \<le> off then Some (b, rs) else None)"
  by (simp add: segment_for_def)

text \<open>An offset of the active segment is looked for in the newest sealed one.\<close>

lemma segment_for_active:
  assumes "seg_chain n (pre @ [(b, rs), act])" "fst act \<le> off"
  shows "segment_for (Suc (length pre)) (pre @ [(b, rs), act]) off = Some (b, rs)" "unat b + length rs \<le> unat off"
proof -
  have act: "unat (fst act) = unat b + length rs"
    using seg_chain_split(3) [of n pre b rs "[act]"] assms(1) by simp
  then show "unat b + length rs \<le> unat off" using assms(2) by (simp add: word_le_nat_alt)
  have "sorted (map fst (pre @ [(b, rs), act]))" using seg_chain_sorted [OF assms(1)] .
  then have "fst s \<le> off" if "s \<in> set (pre @ [(b, rs)])" for s
    using that assms(2) by (force simp: sorted_append)
  then have "takeWhile (\<lambda>s. fst s \<le> off) (pre @ [(b, rs)]) = pre @ [(b, rs)]"
    unfolding takeWhile_eq_all_conv by blast
  then show "segment_for (Suc (length pre)) (pre @ [(b, rs), act]) off = Some (b, rs)"
    by (simp add: segment_for_def)
qed

lemma covering_segment:
  assumes "seg_chain n segs" "n \<le> unat off" "unat off < n + length (all_records segs)"
  shows "\<exists>pre b rs post. segs = pre @ (b, rs) # post \<and> b \<le> off \<and> unat off < unat b + length rs"
  using assms
proof (induction n segs rule: seg_chain.induct)
  case (2 n b rs segs)
  have b: "unat b = n" using "2.prems"(1) by simp
  show ?case
  proof (cases "unat off < n + length rs")
    case True
    then show ?thesis using "2.prems"(2) b
      by (intro exI [of _ "[]"] exI [of _ b] exI [of _ rs] exI [of _ segs]) (simp add: word_le_nat_alt)
  next
    case False
    then obtain pre b' rs' post where "segs = pre @ (b', rs') # post" "b' \<le> off" "unat off < unat b' + length rs'"
      using "2.IH" "2.prems" by auto
    then show ?thesis by (intro exI [of _ "(b, rs) # pre"]) auto
  qed
qed simp

lemma fetch_result_nonempty:
  assumes ok: "log_ok segs fut st" and "0 < n" "unat (fst (hd segs)) \<le> unat off"
    and "unat off < unat (fst (hd segs)) + length (all_records segs)"
    and "sealed_segments st = [] \<or> off < sw_base_offset (writer st)"
  shows "fetch_result (length (sealed_segments st)) segs off n \<noteq> []"
proof -
  let ?k = "length (sealed_segments st)"
  have chain: "seg_chain (unat (fst (hd segs))) segs" and "sealed_ok segs st" using ok by (simp_all add: log_ok_def)
  from this(2) have k: "?k \<le> length segs" "length segs \<le> Suc ?k" by (auto elim: sealed_okE)
  from covering_segment [OF chain assms(3,4)] obtain pre b rs post where
    s: "segs = pre @ (b, rs) # post" "b \<le> off" "unat off < unat b + length rs" by blast
  have "segment_for ?k segs off = Some (b, rs)"
  proof (cases "length pre < ?k")
    case True
    with chain s show ?thesis by (intro segment_for_sealed) simp_all
  next
    case False
    then have post: "post = []" using k s(1) by (cases post) simp_all
    then have "sealed_segments st = []"
      using assms(5) ok s by (auto simp: log_ok_def writer_ok_def)
    moreover from this have "pre = []" using k(2) s(1) post by simp
    ultimately show ?thesis using s post by (simp add: segment_for_single)
  qed
  moreover have "0 < unat n" using assms(2) by (simp add: word_less_nat_alt)
  ultimately show ?thesis using s(2,3) by (simp add: fetch_result_def word_le_nat_alt)
qed

end
