(* ===== verification/Fell_Store_Write.thy ===== *)
theory Fell_Store_Write
  imports Fell_Store_Log
begin

text \<open>
  Writing: the steps of the I/O thread keep the invariant of the files. The index entries of a
  batch are on disk before its records, rotation starts an empty segment, and the counters of the
  writer stay in step with the file. A \<^verbatim>\<open>writev\<close> that fails or writes everything is enough for
  these; what a short write does is in the root theory.
\<close>

section \<open>Definitions\<close>

definition whole_writes :: "writev \<Rightarrow> bool" where
  "whole_writes wv = (\<forall>f b. wv f b < 0 \<or> wv f b = int (length b))"

section \<open>Index entries\<close>

text \<open>The entry of a record that follows \<open>pre\<close> in its segment points to the end of \<open>pre\<close>.\<close>

lemma entry_ok_at:
  assumes "offsets_from (of_nat n) (pre @ cmd # post)" "n + length (pre @ cmd # post) < 2 ^ 64"
  shows "entry_ok (pre @ cmd # post) \<lparr>ie_offset = rec_offset cmd, ie_file_position = of_nat (length (encode_records pre))\<rparr>"
proof -
  have "offsets_from (of_nat n) pre" "n + length pre < 2 ^ 64" using assms by simp_all
  note below = offsets_from_mem(2) [OF this]
  have "rec_offset cmd = of_nat (n + length pre)" using assms(1) by simp
  moreover have "n + length pre < 2 ^ 64" using assms(2) by simp
  ultimately have "unat (rec_offset cmd) = n + length pre" by (simp only: unat_of_nat_u64)
  then have "\<forall>x \<in> set pre. rec_offset x < rec_offset cmd"
    using below by (simp add: word_less_nat_alt)
  then show ?thesis unfolding entry_ok_def by (intro exI [of _ "length pre"]) simp
qed

lemma write_index_entry_cases:
  assumes "whole_writes wv" "write_index_entry wv w cmd pos d = (good, d')"
  obtains (same) "d' = d"
  | (entry) "good" "d' = file_put d (idx_name (sw_base_offset w)) (file_contents d (idx_name (sw_base_offset w)) @ index_bytes cmd pos)"
proof -
  let ?f = "idx_name (sw_base_offset w)" and ?b = "index_bytes cmd pos"
  consider "\<not> index_due w cmd" | "index_due w cmd" "wv ?f ?b < 0" | "index_due w cmd" "wv ?f ?b = int (length ?b)"
    using assms(1) unfolding whole_writes_def by blast
  then show ?thesis
  proof cases
    case 1
    then show ?thesis using assms(2) by (intro same) (simp add: write_index_entry_def Let_def)
  next
    case 2
    then show ?thesis using assms(2)
      by (intro same) (simp add: write_index_entry_def write_file_vec_def iov_max_def Let_def)
  next
    case 3
    then show ?thesis using assms(2) by (intro entry) (simp_all add: write_index_entry_def write_file_vec_one Let_def)
  qed
qed

section \<open>The writer's view of the invariant\<close>

definition append_last ::
  "(u64 \<times> log_record list) list \<Rightarrow> log_record list \<Rightarrow> (u64 \<times> log_record list) list" where
  "append_last segs batch = butlast segs @ [(fst (last segs), snd (last segs) @ batch)]"

lemma append_last_snoc [simp]: "append_last (pre @ [(b, rs)]) batch = pre @ [(b, rs @ batch)]"
  by (simp add: append_last_def)

lemma all_records_append_last: "segs \<noteq> [] \<Longrightarrow> all_records (append_last segs batch) = all_records segs @ batch"
  by (cases segs rule: rev_cases) (auto simp: append_last_def)

lemma log_ok_lastE:
  assumes "log_ok segs fut st"
  obtains pre b rs where "segs = pre @ [(b, rs)]" "sw_base_offset (writer st) = b"
    "sw_next_offset (writer st) = b + of_nat (length rs)"
    "sw_bytes_written (writer st) = of_nat (length (encode_records rs))"
    "unat b + length rs < 2 ^ 64" "offsets_from b rs" "b \<notin> fst ` set pre"
proof -
  have ne: "segs \<noteq> []" using assms by (simp add: log_ok_def)
  then obtain pre seg where "segs = pre @ [seg]" by (cases segs rule: rev_cases) auto
  moreover obtain b rs where "seg = (b, rs)" by (cases seg)
  ultimately have segs: "segs = pre @ [(b, rs)]" by simp
  have chain: "seg_chain (unat (fst (hd segs))) segs" using assms by (simp add: log_ok_def)
  have "writer_ok (b, rs) (writer st)" using assms segs by (simp add: log_ok_def)
  moreover have "unat b + length rs < 2 ^ 64 \<and> offsets_from b rs"
    using seg_chain_bases [OF chain, of b rs] segs by simp
  moreover have "b \<notin> fst ` set pre" using seg_chain_distinct [OF chain] segs by auto
  ultimately show ?thesis using segs by (intro that [of pre b rs]) (simp_all add: writer_ok_def)
qed

lemma sw_next_offset_unat:
  assumes "sw_next_offset w = b + of_nat (length rs)" "unat b + length rs < 2 ^ 64"
  shows "unat (sw_next_offset w) = unat b + length rs"
proof -
  have "sw_next_offset w = of_nat (unat b + length rs)" using assms(1) by simp
  then show ?thesis using assms(2) by (simp only: unat_of_nat_u64)
qed

lemma fut_of_Nil [simp]: "fut_of segs [] b = []"
  by (simp add: fut_of_def)

lemma fut_of_snoc [simp]: "fut_of (pre @ [(b, rs)]) fut c = (if c = b then fut else [])"
  by (simp add: fut_of_def)

lemma seg_files_okI:
  assumes "map_of d (log_name b) = Some (encode_records rs)" "length (encode_records (rs @ fut)) < 2 ^ 62"
    "\<forall>r \<in> set rs. wf_record r" "map_of d (idx_name b) = Some (encode_index es)"
    "\<forall>e \<in> set es. entry_ok (rs @ fut) e"
  shows "seg_files_ok d fut (b, rs)"
  unfolding seg_files_ok_def prod.case using assms by blast

text \<open>More future records, more file contents at the end of the active segment.\<close>

lemma seg_files_ok_more:
  assumes "seg_files_ok d [] seg" "length (encode_records (snd seg @ fut)) < 2 ^ 62"
    "map_of d' (log_name (fst seg)) = map_of d (log_name (fst seg))"
    "map_of d' (idx_name (fst seg)) = Some (file_contents d (idx_name (fst seg)) @ encode_index es)"
    "\<forall>e \<in> set es. entry_ok (snd seg @ fut) e"
  shows "seg_files_ok d' fut seg"
proof -
  obtain b rs where seg: "seg = (b, rs)" by (cases seg)
  from assms(1) seg obtain es0 where es0: "map_of d (idx_name b) = Some (encode_index es0)"
    "\<forall>e \<in> set es0. entry_ok rs e" by (auto simp: seg_files_ok_def)
  have "map_of d' (idx_name b) = Some (encode_index (es0 @ es))"
    using assms(4) es0(1) by (simp add: seg file_contents_def)
  moreover have "\<forall>e \<in> set (es0 @ es). entry_ok (rs @ fut) e"
    using es0(2) assms(5) seg by (auto intro: entry_ok_append)
  ultimately show ?thesis
    using assms(1-3) unfolding seg
    by (intro seg_files_okI [where es = "es0 @ es"]) (simp_all add: seg_files_ok_def)
qed

lemma seg_files_ok_length: "seg_files_ok d fut seg \<Longrightarrow> length (encode_records (snd seg @ fut)) < 2 ^ 62"
  by (cases seg) (simp add: seg_files_ok_def)

lemma seg_files_ok_other:
  assumes "seg_files_ok d [] seg" "length (encode_records (snd seg @ fut)) < 2 ^ 62"
    "map_of d' (log_name (fst seg)) = map_of d (log_name (fst seg))"
    "map_of d' (idx_name (fst seg)) = map_of d (idx_name (fst seg))"
  shows "seg_files_ok d' fut seg"
proof -
  have "map_of d (idx_name (fst seg)) = Some (file_contents d (idx_name (fst seg)))"
    using assms(1) by (auto simp: seg_files_ok_def file_contents_def split: prod.splits)
  then have "map_of d' (idx_name (fst seg)) = Some (file_contents d (idx_name (fst seg)) @ encode_index [])"
    unfolding assms(4) by simp
  then show ?thesis by (rule seg_files_ok_more [OF assms(1-3)]) simp
qed

lemma dir_ok_none:
  "dir_ok segs d \<Longrightarrow> b \<notin> fst ` set segs \<Longrightarrow> map_of d (log_name b) = None \<and> map_of d (idx_name b) = None"
  unfolding dir_ok_def by (metis log_name_inject log_name_neq_idx_name)

lemma dir_ok_upd:
  "dir_ok segs d \<Longrightarrow> distinct (map fst d') \<Longrightarrow> map_of d' = (map_of d)(f \<mapsto> c) \<Longrightarrow>
     b \<in> fst ` set segs \<Longrightarrow> f = log_name b \<or> f = idx_name b \<Longrightarrow> dir_ok segs d'"
  unfolding dir_ok_def by auto

lemma cache_ok_more: "cache_ok segs [] st \<Longrightarrow> segment_cache st' = segment_cache st \<Longrightarrow> cache_ok segs fut st'"
  unfolding cache_ok_def by (fastforce intro: entry_ok_append)

lemma seg_files_ok_index:
  assumes "seg_files_ok d fut seg" "map_of d' (log_name (fst seg)) = map_of d (log_name (fst seg))"
    "map_of d' (idx_name (fst seg)) = Some (file_contents d (idx_name (fst seg)) @ encode_index [e])"
    "entry_ok (snd seg @ fut) e"
  shows "seg_files_ok d' fut seg"
proof -
  obtain b rs where seg: "seg = (b, rs)" by (cases seg)
  from assms(1) seg obtain es where es: "map_of d (idx_name b) = Some (encode_index es)"
    "\<forall>e \<in> set es. entry_ok (rs @ fut) e" by (auto simp: seg_files_ok_def)
  have "map_of d' (idx_name b) = Some (encode_index (es @ [e]))"
    using assms(3) es(1) by (simp add: seg file_contents_def)
  moreover have "\<forall>e \<in> set (es @ [e]). entry_ok (rs @ fut) e" using es(2) assms(4) seg by auto
  ultimately show ?thesis
    using assms(1,2) unfolding seg
    by (intro seg_files_okI [where es = "es @ [e]"]) (simp_all add: seg_files_ok_def)
qed

lemma seg_files_ok_same:
  "seg_files_ok d fut seg \<Longrightarrow> map_of d' (log_name (fst seg)) = map_of d (log_name (fst seg)) \<Longrightarrow>
     map_of d' (idx_name (fst seg)) = map_of d (idx_name (fst seg)) \<Longrightarrow> seg_files_ok d' fut seg"
  by (cases seg) (simp add: seg_files_ok_def)

text \<open>A batch is taken: its index entries may be on disk before its records.\<close>

lemma log_ok_ahead:
  assumes ok: "log_ok segs [] st" and size: "length (encode_records (snd (last segs) @ batch)) < 2 ^ 62"
  shows "log_ok segs batch st"
proof -
  from ok obtain pre b rs where w: "segs = pre @ [(b, rs)]" "b \<notin> fst ` set pre" by (rule log_ok_lastE)
  have files: "seg_files_ok (st_dir st) [] seg" if "seg \<in> set segs" for seg using ok that by (simp add: log_ok_def)
  have "seg_files_ok (st_dir st) (fut_of segs batch (fst seg)) seg" if "seg \<in> set segs" for seg
  proof (cases "fst seg = b")
    case True
    then have "seg = (b, rs)" using that w by auto
    then show ?thesis using seg_files_ok_other [OF files [OF that], of batch] size w(1) by simp
  next
    case False
    then show ?thesis using files [OF that] w(1) by simp
  qed
  then show ?thesis using ok cache_ok_more [of segs st st batch] by (simp add: log_ok_def)
qed

lemma write_index_entry_ok:
  assumes ok: "log_ok segs batch st" and wv: "whole_writes wv"
    and batch: "offsets_from (sw_next_offset (writer st)) batch" "unat (sw_next_offset (writer st)) + length batch < 2 ^ 64"
      "batch = bs @ cmd # rest"
    and pos: "pos = sw_bytes_written (writer st) + of_nat (length (encode_records bs))"
    and run: "write_index_entry wv (writer st) cmd pos (st_dir st) = (good, d)"
  shows "log_ok segs batch (st\<lparr>st_dir := d\<rparr>)"
  using wv run
proof (cases rule: write_index_entry_cases)
  case same
  then show ?thesis using ok by (simp add: log_ok_def cache_ok_def)
next
  case entry
  from ok obtain pre b rs where w: "segs = pre @ [(b, rs)]" "sw_base_offset (writer st) = b"
    "sw_next_offset (writer st) = b + of_nat (length rs)"
    "sw_bytes_written (writer st) = of_nat (length (encode_records rs))"
    "unat b + length rs < 2 ^ 64" "offsets_from b rs" "b \<notin> fst ` set pre" by (rule log_ok_lastE)
  let ?e = "\<lparr>ie_offset = rec_offset cmd, ie_file_position = pos\<rparr>"
  have d: "map_of d = (map_of (st_dir st))(idx_name b \<mapsto> file_contents (st_dir st) (idx_name b) @ encode_index [?e])"
    using entry(2) w(2) by (auto simp: map_of_file_put index_bytes_def encode_index_def)
  have "offsets_from (of_nat (unat b)) ((rs @ bs) @ cmd # rest)" "unat b + length ((rs @ bs) @ cmd # rest) < 2 ^ 64"
    using w(3,6) batch sw_next_offset_unat [OF w(3,5)] by simp_all
  from entry_ok_at [OF this] have e: "entry_ok (rs @ batch) ?e" using pos w(4) batch(3) by simp
  have files: "seg_files_ok (st_dir st) (fut_of segs batch (fst seg)) seg" if "seg \<in> set segs" for seg
    using ok that by (simp add: log_ok_def)
  have "seg_files_ok d (fut_of segs batch (fst seg)) seg" if "seg \<in> set segs" for seg
  proof (cases "fst seg = b")
    case True
    then have seg: "seg = (b, rs)" using that w(1,7) by auto
    then have "seg_files_ok (st_dir st) batch (b, rs)" using files [OF that] w(1) by simp
    then have "seg_files_ok d batch (b, rs)" by (rule seg_files_ok_index [where e = ?e]) (use e in \<open>simp_all add: d\<close>)
    then show ?thesis using w(1) seg by simp
  next
    case False
    then show ?thesis by (intro seg_files_ok_same [OF files [OF that]]) (simp_all add: d)
  qed
  moreover have "dir_ok segs d"
  proof (rule dir_ok_upd [OF _ _ d, of segs b])
    show "distinct (map fst d)" using ok entry(2) by (simp add: log_ok_def dir_ok_def distinct_file_put)
  qed (use ok w(1) in \<open>simp_all add: log_ok_def\<close>)
  ultimately show ?thesis using ok by (simp add: log_ok_def cache_ok_def)
qed

section \<open>The log write\<close>

lemma seg_chain_append_last:
  assumes "seg_chain n (pre @ [(b, rs)])" "offsets_from (b + of_nat (length rs)) batch"
    "unat b + length rs + length batch < 2 ^ 64"
  shows "seg_chain n (pre @ [(b, rs @ batch)])"
proof -
  define m where "m = n + length (concat (map snd pre))"
  have m: "unat b = m" "seg_chain m [(b, rs)]"
    using assms(1) unfolding m_def [symmetric] seg_chain_append by auto
  then have "seg_chain m [(b, rs @ batch)]" using assms(2,3) m(1) by auto
  then show ?thesis using assms(1) unfolding seg_chain_append m_def [symmetric] by blast
qed

lemma seg_files_ok_append:
  assumes "seg_files_ok d batch (b, rs)" "map_of d' (log_name b) = Some (encode_records rs @ encode_records batch)"
    "map_of d' (idx_name b) = map_of d (idx_name b)" "\<forall>r \<in> set batch. wf_record r"
  shows "seg_files_ok d' [] (b, rs @ batch)"
proof -
  from assms(1) obtain es where es: "map_of d (idx_name b) = Some (encode_index es)"
    "\<forall>e \<in> set es. entry_ok (rs @ batch) e" "\<forall>r \<in> set rs. wf_record r"
    "length (encode_records (rs @ batch)) < 2 ^ 62"
    unfolding seg_files_ok_def prod.case by blast
  then show ?thesis using assms(2-4)
    by (intro seg_files_okI [where es = es]) auto
qed

lemma cache_okE:
  assumes "cache_ok segs fut st" "segment_cache st f = Some (es, rd)"
  obtains b rs where "(b, rs) \<in> set segs" "f = log_name b" "rd = Some f"
    "\<forall>e \<in> set es. entry_ok (rs @ fut_of segs fut b) e"
  using assms unfolding cache_ok_def by blast

lemma cache_ok_append:
  assumes "cache_ok (pre @ [(b, rs)]) batch st" "b \<notin> fst ` set pre" "segment_cache st' = segment_cache st"
  shows "cache_ok (pre @ [(b, rs @ batch)]) [] st'"
  unfolding cache_ok_def
proof (intro allI impI)
  fix f es rd
  assume "segment_cache st' f = Some (es, rd)"
  with assms(1,3) obtain b' rs' where c: "(b', rs') \<in> set (pre @ [(b, rs)])" "f = log_name b'" "rd = Some f"
    "\<forall>e \<in> set es. entry_ok (rs' @ fut_of (pre @ [(b, rs)]) batch b') e"
    by (auto elim: cache_okE)
  then have "(b', rs' @ fut_of (pre @ [(b, rs)]) batch b') \<in> set (pre @ [(b, rs @ batch)])"
    using assms(2) by force
  with c(2-4) show "\<exists>(b', rs') \<in> set (pre @ [(b, rs @ batch)]). f = log_name b' \<and> rd = Some f
      \<and> (\<forall>e \<in> set es. entry_ok (rs' @ fut_of (pre @ [(b, rs @ batch)]) [] b') e)"
    by fastforce
qed

lemma sealed_ok_last:
  assumes "sealed_ok (pre @ [(b, rs)]) st"
  shows "sealed_ok (pre @ [(b, rs')]) st"
proof -
  from assms obtain k where k: "k \<le> length (pre @ [(b, rs)])" "length (pre @ [(b, rs)]) \<le> Suc k"
    "sealed_segments st = map (\<lambda>(b, rs). (b, log_name b)) (take k (pre @ [(b, rs)]))" by (rule sealed_okE)
  then have "k = length pre \<or> k = Suc (length pre)" by auto
  then show ?thesis using k by (intro sealed_okI [where k = k]) auto
qed

lemma write_batch_log_ok:
  assumes ok: "log_ok segs batch st" and wv: "whole_writes wv"
    and batch: "offsets_from (sw_next_offset (writer st)) batch"
      "unat (sw_next_offset (writer st)) + length batch < 2 ^ 64" "\<forall>r \<in> set batch. wf_record r"
    and run: "write_batch_log wv batch (encode_records batch) st = (res, st')"
  shows "res = None \<Longrightarrow> log_ok (append_last segs batch) [] st'
           \<and> (\<exists>d w. st' = st\<lparr>st_dir := d, writer := w\<rparr>
                 \<and> sw_next_offset w = sw_next_offset (writer st) + of_nat (length batch))"
    and "res \<noteq> None \<Longrightarrow> st' = st"
proof -
  from ok obtain pre b rs where w: "segs = pre @ [(b, rs)]" "sw_base_offset (writer st) = b"
    "sw_next_offset (writer st) = b + of_nat (length rs)"
    "sw_bytes_written (writer st) = of_nat (length (encode_records rs))"
    "unat b + length rs < 2 ^ 64" "offsets_from b rs" "b \<notin> fst ` set pre" by (rule log_ok_lastE)
  let ?f = "log_name b" and ?buf = "encode_records batch"
  have nxt: "unat (sw_next_offset (writer st)) = unat b + length rs" using w(3,5) by (rule sw_next_offset_unat)
  have act: "seg_files_ok (st_dir st) batch (b, rs)" using ok w(1) by (auto simp: log_ok_def)
  consider (fail) "wv ?f ?buf < 0" | (full) "wv ?f ?buf = int (length ?buf)"
    using wv unfolding whole_writes_def by blast
  then have "(res = None \<longrightarrow> log_ok (append_last segs batch) [] st'
           \<and> (\<exists>d w. st' = st\<lparr>st_dir := d, writer := w\<rparr>
                 \<and> sw_next_offset w = sw_next_offset (writer st) + of_nat (length batch)))
      \<and> (res \<noteq> None \<longrightarrow> st' = st)"
  proof cases
    case fail
    then show ?thesis using run w(2) by (auto simp: write_batch_log_def write_file_vec_def iov_max_def Let_def)
  next
    case full
    let ?d = "file_put (st_dir st) ?f (encode_records rs @ ?buf)"
    let ?w = "advance_next_offset (of_nat (length batch)) (add_bytes_written (of_nat (length ?buf)) (writer st))"
    have "write_file_vec (wv ?f ?buf) (st_dir st) ?f [?buf] = (True, ?d)"
      using full seg_files_okD(1) [OF act] by (simp add: write_file_vec_one)
    then have st': "res = None" "st' = st\<lparr>st_dir := ?d, writer := ?w\<rparr>"
      using run w(2) by (simp_all add: write_batch_log_def Let_def)
    have chain: "seg_chain (unat (fst (hd (pre @ [(b, rs)])))) (pre @ [(b, rs @ batch)])"
      using ok w batch nxt by (intro seg_chain_append_last) (simp_all add: log_ok_def)
    have "seg_files_ok ?d [] seg" if "seg \<in> set pre" for seg
    proof -
      have ne: "fst seg \<noteq> b" using w(7) that by auto
      with that ok w(1) have a: "seg_files_ok (st_dir st) [] seg"
        by (auto simp: log_ok_def dest!: bspec [of _ _ seg])
      show ?thesis
        using seg_files_ok_other [OF a seg_files_ok_length [OF a], of ?d] ne by (simp add: map_of_file_put)
    qed
    moreover have "seg_files_ok ?d [] (b, rs @ batch)"
      using batch(3) by (intro seg_files_ok_append [OF act]) (simp_all add: map_of_file_put)
    moreover have "cache_ok (pre @ [(b, rs @ batch)]) [] st'"
      using ok w(1,7) by (intro cache_ok_append [of pre b rs batch st]) (simp_all add: log_ok_def st')
    moreover have "dir_ok (pre @ [(b, rs @ batch)]) ?d"
      using ok w(1) dir_ok_upd [of "pre @ [(b, rs @ batch)]" "st_dir st" ?d ?f _ b]
      by (simp add: log_ok_def dir_ok_def distinct_file_put)
    moreover have "writer_ok (b, rs @ batch) ?w"
      using w(2-4) by (simp add: writer_ok_def advance_next_offset_def add_bytes_written_def)
    moreover have "sealed_ok (pre @ [(b, rs @ batch)]) st"
      using ok w(1) sealed_ok_last [of pre b rs st "rs @ batch"] by (simp add: log_ok_def)
    moreover have "hd (pre @ [(b, rs @ batch)]) = (if pre = [] then (b, rs @ batch) else hd pre)" by simp
    ultimately have "log_ok (append_last segs batch) [] st'"
      using ok chain w(1) st'(2) by (auto simp: log_ok_def split: if_splits)
    moreover have "sw_next_offset ?w = sw_next_offset (writer st) + of_nat (length batch)"
      by (simp add: advance_next_offset_def add_bytes_written_def)
    ultimately show ?thesis using st' by blast
  qed
  then show "res = None \<Longrightarrow> log_ok (append_last segs batch) [] st'
           \<and> (\<exists>d w. st' = st\<lparr>st_dir := d, writer := w\<rparr>
                 \<and> sw_next_offset w = sw_next_offset (writer st) + of_nat (length batch))"
    and "res \<noteq> None \<Longrightarrow> st' = st" by blast+
qed

section \<open>Rotation\<close>

lemma map_of_open_files:
  "map_of (open_files d b) = (map_of d)
     (log_name b \<mapsto> file_contents d (log_name b), idx_name b \<mapsto> file_contents d (idx_name b))"
  by (rule ext)
    (auto simp: open_files_def open_file_append_def file_contents_def map_of_file_put split: option.splits)

lemma seg_chain_end:
  assumes "seg_chain n (pre @ [(b, rs)])"
  shows "n + length (all_records (pre @ [(b, rs)])) = unat b + length rs"
  using seg_chain_split(1) [OF assms] by simp

lemma seg_chain_snoc:
  assumes "seg_chain n (pre @ [(b, rs)])" "rs \<noteq> []" "unat m = unat b + length rs"
  shows "seg_chain n (pre @ [(b, rs), (m, [])])"
proof -
  have "n + length (concat (map snd (pre @ [(b, rs)]))) = unat m"
    using seg_chain_end [OF assms(1)] assms(3) by (simp only: all_records_def)
  moreover have "seg_chain (unat m) [(m, [])]" using unat_lt_u64 [of m] by simp
  ultimately have "seg_chain (n + length (concat (map snd (pre @ [(b, rs)])))) [(m, [])]" by simp
  moreover have "\<forall>(c, cs) \<in> set (pre @ [(b, rs)]). cs \<noteq> []"
    using assms(1,2) by (auto simp: seg_chain_append)
  ultimately have "seg_chain n ((pre @ [(b, rs)]) @ [(m, [])])"
    using assms(1) unfolding seg_chain_append [of n "pre @ [(b, rs)]"] by blast
  then show ?thesis by simp
qed

lemma distinct_open_files: "distinct (map fst d) \<Longrightarrow> distinct (map fst (open_files d b))"
  by (simp add: open_files_def open_file_append_def distinct_file_put split: option.splits)

lemma seal_segment_ok:
  assumes ok: "log_ok segs [] st" and len: "length segs = Suc (length (sealed_segments st))"
  shows "log_ok segs [] (fst (seal_segment st))" "length (sealed_segments (fst (seal_segment st))) = length segs"
proof -
  have sealed: "sealed_ok segs st" and w: "sw_base_offset (writer st) = fst (last segs)" and ne: "segs \<noteq> []"
    using ok by (simp_all add: log_ok_def writer_ok_def)
  from sealed obtain k where k: "k = length (sealed_segments st)"
    "sealed_segments st = map (\<lambda>(b, rs). (b, log_name b)) (take k segs)" by (rule sealed_okE)
  have "k = length segs - 1" using k(1) len by simp
  then have "sealed_segments st = map (\<lambda>(b, rs). (b, log_name b)) (butlast segs)"
    using k(2) by (simp add: butlast_conv_take)
  then have "sealed_segments st @ [(fst (last segs), log_name (fst (last segs)))] =
      map (\<lambda>(b, rs). (b, log_name b)) (butlast segs @ [last segs])" by (simp add: case_prod_beta)
  then have all: "sealed_segments (fst (seal_segment st)) = map (\<lambda>(b, rs). (b, log_name b)) (take (length segs) segs)"
    using ne by (simp add: seal_segment_def w Let_def)
  then show "length (sealed_segments (fst (seal_segment st))) = length segs" by simp
  have "sealed_ok segs (fst (seal_segment st))" by (rule sealed_okI [OF all]) simp_all
  moreover have "cache_ok segs [] (fst (seal_segment st))"
    using ok by (auto simp: log_ok_def cache_ok_def seal_segment_def Let_def split: if_splits)
  ultimately show "log_ok segs [] (fst (seal_segment st))"
    using ok by (simp add: log_ok_def seal_segment_def Let_def)
qed

lemma open_segment_ok:
  assumes ok: "log_ok segs [] st" and ne: "snd (last segs) \<noteq> []" and len: "length (sealed_segments st) = length segs"
  shows "log_ok (segs @ [(sw_next_offset (writer st), [])]) [] (open_segment now st)"
proof -
  from ok obtain pre b rs where w: "segs = pre @ [(b, rs)]" "sw_base_offset (writer st) = b"
    "sw_next_offset (writer st) = b + of_nat (length rs)"
    "sw_bytes_written (writer st) = of_nat (length (encode_records rs))"
    "unat b + length rs < 2 ^ 64" "offsets_from b rs" "b \<notin> fst ` set pre" by (rule log_ok_lastE)
  let ?n = "sw_next_offset (writer st)" and ?d = "open_files (st_dir st) (sw_next_offset (writer st))"
  let ?segs = "segs @ [(?n, [])]"
  have chain: "seg_chain (unat (fst (hd segs))) segs" using ok by (simp add: log_ok_def)
  have nxt: "unat ?n = unat b + length rs" using w(3,5) by (rule sw_next_offset_unat)
  have "hd ?segs = hd segs" "rs \<noteq> []" "?segs = pre @ [(b, rs), (?n, [])]"
    using w(1) ne by (simp_all add: hd_append)
  then have chain': "seg_chain (unat (fst (hd ?segs))) ?segs"
    using seg_chain_snoc [OF chain [unfolded w(1)], of ?n] nxt w(1) by (simp only: refl simp_thms)
  then have fresh: "?n \<notin> fst ` set segs" using seg_chain_distinct [OF chain'] by auto
  then have none: "map_of (st_dir st) (log_name ?n) = None" "map_of (st_dir st) (idx_name ?n) = None"
    using ok dir_ok_none by (auto simp: log_ok_def)
  have "seg_files_ok ?d [] seg" if "seg \<in> set segs" for seg
  proof -
    have "fst seg \<noteq> ?n" using fresh that by (metis image_eqI)
    moreover have "seg_files_ok (st_dir st) [] seg" using ok that by (simp add: log_ok_def)
    ultimately show ?thesis using seg_files_ok_same [of "st_dir st" "[]" seg ?d] by (simp add: map_of_open_files)
  qed
  moreover have "seg_files_ok ?d [] (?n, [])"
    using none by (intro seg_files_okI [where es = "[]"]) (simp_all add: map_of_open_files file_contents_def)
  moreover have "cache_ok ?segs [] st" using ok by (fastforce simp: log_ok_def cache_ok_def)
  moreover have "dir_ok ?segs ?d"
    using ok distinct_open_files [of "st_dir st" ?n] by (auto simp: log_ok_def dir_ok_def map_of_open_files)
  moreover have "sealed_ok ?segs st"
  proof -
    have "sealed_ok segs st" using ok by (simp add: log_ok_def)
    then show ?thesis
      by (rule sealed_okE) (rule sealed_okI [where k = "length segs"], use len in simp_all)
  qed
  ultimately show ?thesis
    using ok chain' unfolding open_segment_def SegmentWriter_def Let_def
    by (auto simp: log_ok_def writer_ok_def cache_ok_def)
qed

end
