(* ===== verification/Fell_Store_Queue.thy ===== *)
theory Fell_Store_Queue
  imports Fell_Store_Write "HOL-Library.Sublist"
begin

text \<open>
  The append queue: the commands that wait for the I/O thread carry consecutive offsets that
  continue the log, \<open>pending_bytes\<close> is the sum of their payload sizes, and both limits of
  \<^verbatim>\<open>storage_options\<close> hold. Appends and the gathering of a batch keep that.
\<close>

section \<open>Definitions\<close>

definition payload_bytes :: "log_record list \<Rightarrow> nat" where
  "payload_bytes rs = sum_list (map (\<lambda>r. length (rec_payload r)) rs)"

text \<open>\<open>base\<close> is the offset after the last record of the log, \<open>batch\<close> the commands the I/O thread
  has already taken from the queue.\<close>

definition queue_ok :: "u64 \<Rightarrow> append_command list \<Rightarrow> 'cb store \<Rightarrow> bool" where
  "queue_ok base batch st =
     (offsets_from base (batch @ queue st)
      \<and> unat base + length (batch @ queue st) < 2 ^ 64
      \<and> st_next_offset st = base + of_nat (length (batch @ queue st))
      \<and> (\<forall>r \<in> set (batch @ queue st). wf_record r)
      \<and> pending_bytes st = payload_bytes (queue st)
      \<and> length (queue st) \<le> queue_capacity (options st)
      \<and> pending_bytes st \<le> max_pending_bytes (options st))"

text \<open>The part of the state that appends and \<open>take_batch\<close> leave alone.\<close>

definition same_log :: "'cb store \<Rightarrow> 'cb store \<Rightarrow> bool" where
  "same_log st st' =
     (st_dir st' = st_dir st \<and> writer st' = writer st \<and> sealed_segments st' = sealed_segments st
      \<and> segment_cache st' = segment_cache st \<and> options st' = options st
      \<and> st_committed_offset st' = st_committed_offset st \<and> once_callbacks st' = once_callbacks st
      \<and> has_commit_cb st' = has_commit_cb st \<and> records_since_flush st' = records_since_flush st
      \<and> last_flush_time st' = last_flush_time st)"

fun env_ok :: "env_action \<Rightarrow> bool" where
  "env_ok (EnvAppend now payload) = (length payload < 2 ^ 32)"
| "env_ok EnvShutdown = True"

fun env_appends :: "env_action list \<Rightarrow> nat" where
  "env_appends [] = 0"
| "env_appends (EnvAppend now payload # acts) = Suc (env_appends acts)"
| "env_appends (EnvShutdown # acts) = env_appends acts"

definition oracle_ok :: "(bool \<times> env_action list) list \<Rightarrow> bool" where
  "oracle_ok os = (\<forall>(e, acts) \<in> set os. list_all env_ok acts)"

definition oracle_appends :: "(bool \<times> env_action list) list \<Rightarrow> nat" where
  "oracle_appends os = sum_list (map (env_appends \<circ> snd) os)"

section \<open>Frame\<close>

lemma same_log_refl [simp]: "same_log st st"
  by (simp add: same_log_def)

lemma same_log_trans: "same_log a b \<Longrightarrow> same_log b c \<Longrightarrow> same_log a c"
  by (simp add: same_log_def)

lemma log_ok_same_log: "same_log st st' \<Longrightarrow> log_ok segs fut st' = log_ok segs fut st"
  by (simp add: same_log_def log_ok_def cache_ok_def sealed_ok_def)

lemma payload_bytes_simps [simp]:
  "payload_bytes [] = 0" "payload_bytes (r # rs) = length (rec_payload r) + payload_bytes rs"
  "payload_bytes (as @ bs) = payload_bytes as + payload_bytes bs"
  by (simp_all add: payload_bytes_def)

section \<open>Append\<close>

text \<open>The three outcomes of an append.\<close>

lemma store_append_cases:
  obtains (closed) "shutdown st" "store_append now payload st = (append_closed, st)"
  | (busy) "\<not> shutdown st" "length (queue st) \<ge> queue_capacity (options st)
        \<or> pending_bytes st + length payload > max_pending_bytes (options st)"
      "store_append now payload st = (append_busy, st\<lparr>busy_count := busy_count st + 1\<rparr>)"
  | (accepted) ts c where "\<not> shutdown st" "length (queue st) < queue_capacity (options st)"
      "pending_bytes st + length payload \<le> max_pending_bytes (options st)"
      "ts = (if ts_counter st = 0 then now else last_timestamp_ms st)"
      "store_append now payload st = (append_ok (st_next_offset st),
         st\<lparr>last_timestamp_ms := ts, ts_counter := c, st_next_offset := st_next_offset st + 1,
            pending_bytes := pending_bytes st + length payload,
            queue := queue st @ [\<lparr>rec_offset = st_next_offset st, rec_timestamp_ms = ts, rec_payload = payload\<rparr>]\<rparr>)"
proof -
  consider "shutdown st"
    | "\<not> shutdown st" "length (queue st) \<ge> queue_capacity (options st)
        \<or> pending_bytes st + length payload > max_pending_bytes (options st)"
    | "\<not> shutdown st" "length (queue st) < queue_capacity (options st)"
      "pending_bytes st + length payload \<le> max_pending_bytes (options st)"
    by linarith
  then show ?thesis
  proof cases
    case 1
    then show ?thesis by (rule closed) (simp add: store_append_def 1)
  next
    case 2
    then show ?thesis by (rule busy) (simp add: store_append_def 2)
  next
    case 3
    from 3 show ?thesis
      by (rule accepted [OF _ _ _ refl]) (use 3 in \<open>simp add: store_append_def get_cached_timestamp_locked_def Let_def\<close>)
  qed
qed

lemma store_append_same_log: "same_log st (snd (store_append now payload st))"
  by (cases rule: store_append_cases [of st now payload]) (simp_all add: same_log_def)

lemma store_append_queue_ok:
  assumes ok: "queue_ok base batch st" and "length payload < 2 ^ 32"
    and "unat (st_next_offset st) + 1 < 2 ^ 64"
  shows "queue_ok base batch (snd (store_append now payload st))"
proof (cases rule: store_append_cases [of st now payload])
  case closed
  with ok show ?thesis by simp
next
  case busy
  with ok show ?thesis by (simp add: queue_ok_def)
next
  case (accepted ts c)
  have nxt: "st_next_offset st = of_nat (unat base + length (batch @ queue st))"
    and lt: "unat base + length (batch @ queue st) < 2 ^ 64"
    using ok by (simp_all add: queue_ok_def)
  have "unat (st_next_offset st) = unat base + length (batch @ queue st)"
    using lt unfolding nxt by (simp only: unat_of_nat_u64)
  then show ?thesis
    using ok accepted assms(2,3) by (auto simp: queue_ok_def wf_record_def ac_simps)
qed

section \<open>Gathering a batch\<close>

lemma queue_ok_next:
  assumes "queue_ok base batch st"
  shows "unat (st_next_offset st) = unat base + length (batch @ queue st)"
proof -
  have "st_next_offset st = of_nat (unat base + length (batch @ queue st))"
    "unat base + length (batch @ queue st) < 2 ^ 64"
    using assms by (simp_all add: queue_ok_def)
  then show ?thesis by (simp only: unat_of_nat_u64)
qed

lemma store_append_next_le:
  assumes "unat (st_next_offset st) + 1 < 2 ^ 64"
  shows "unat (st_next_offset (snd (store_append now payload st))) \<le> unat (st_next_offset st) + 1"
proof -
  have "unat (st_next_offset st + 1) = unat (st_next_offset st) + 1"
    using assms unat_add_u64' [of "st_next_offset st" 1] by simp
  then show ?thesis by (cases rule: store_append_cases [of st now payload]) simp_all
qed

lemma store_append_prefix: "prefix (queue st) (queue (snd (store_append now payload st)))"
  by (cases rule: store_append_cases [of st now payload]) simp_all

lemma env_run_ok:
  assumes "queue_ok base batch st" "list_all env_ok acts"
    "unat (st_next_offset st) + env_appends acts < 2 ^ 64"
  shows "queue_ok base batch (env_run acts st) \<and> same_log st (env_run acts st)
     \<and> unat (st_next_offset (env_run acts st)) \<le> unat (st_next_offset st) + env_appends acts
     \<and> prefix (queue st) (queue (env_run acts st))"
  using assms
proof (induction acts arbitrary: st)
  case Nil
  then show ?case by (simp add: env_run_def)
next
  case (Cons a acts)
  show ?case
  proof (cases a)
    case (EnvAppend now payload)
    let ?st = "snd (store_append now payload st)"
    have run: "env_run (a # acts) st = env_run acts ?st" by (simp add: env_run_def EnvAppend)
    have room: "unat (st_next_offset st) + 1 < 2 ^ 64" using Cons.prems(3) EnvAppend by simp
    have le: "unat (st_next_offset ?st) \<le> unat (st_next_offset st) + 1"
      using room by (rule store_append_next_le)
    have "queue_ok base batch ?st"
      using Cons.prems(1,2) EnvAppend room by (intro store_append_queue_ok) simp_all
    moreover have "list_all env_ok acts" "unat (st_next_offset ?st) + env_appends acts < 2 ^ 64"
      using Cons.prems(2,3) EnvAppend le by simp_all
    ultimately show ?thesis
      using Cons.IH [of ?st] le same_log_trans [OF store_append_same_log] EnvAppend
        prefix_order.trans [OF store_append_prefix] unfolding run by fastforce
  next
    case EnvShutdown
    have run: "env_run (a # acts) st = env_run acts (request_shutdown st)" by (simp add: env_run_def EnvShutdown)
    have "queue_ok base batch (request_shutdown st)" "same_log st (request_shutdown st)"
      "st_next_offset (request_shutdown st) = st_next_offset st" "queue (request_shutdown st) = queue st"
      using Cons.prems(1) by (simp_all add: queue_ok_def request_shutdown_def same_log_def)
    then show ?thesis
      using Cons.IH [of "request_shutdown st"] Cons.prems(2,3) same_log_trans EnvShutdown unfolding run by fastforce
  qed
qed

lemma pop_front_ok:
  assumes "queue_ok base batch st" "queue st \<noteq> []" "pop_front st = (cmd, st1)"
  shows "queue_ok base (batch @ [cmd]) st1" "same_log st st1" "wf_record cmd"
    "st_next_offset st1 = st_next_offset st" "shutdown st1 = shutdown st" "queue st = cmd # queue st1"
  using assms by (cases "queue st"; auto simp: queue_ok_def pop_front_def same_log_def)+

lemma oracle_simps [simp]:
  "oracle_ok [] " "oracle_ok ((e, acts) # os) \<longleftrightarrow> list_all env_ok acts \<and> oracle_ok os"
  "oracle_appends [] = 0" "oracle_appends ((e, acts) # os) = env_appends acts + oracle_appends os"
  by (simp_all add: oracle_ok_def oracle_appends_def)

text \<open>A batch ends with the command that reaches a limit.\<close>

definition batch_room :: "storage_options \<Rightarrow> append_command list \<Rightarrow> nat \<Rightarrow> bool" where
  "batch_room opts batch n =
     (n = length (encode_records batch) \<and> n \<le> max_batch_bytes opts \<and> length batch < max 1 (max_batch_records opts))"

definition batch_bounded :: "storage_options \<Rightarrow> append_command list \<Rightarrow> bool" where
  "batch_bounded opts batch =
     (length (encode_records batch) < max_batch_bytes opts + LOG_RECORD_HEADER_SIZE + 2 ^ 32
      \<and> length batch \<le> max 1 (max_batch_records opts))"

lemma batch_room_bounded: "batch_room opts batch n \<Longrightarrow> batch_bounded opts batch"
  by (auto simp: batch_room_def batch_bounded_def)

lemma batch_room_snoc:
  "batch_room opts batch n \<Longrightarrow> wf_record cmd \<Longrightarrow> batch_bounded opts (batch @ [cmd])"
  by (auto simp: batch_room_def batch_bounded_def wf_record_def LOG_RECORD_HEADER_SIZE_def)

definition take_post :: "u64 \<Rightarrow> 'cb store \<Rightarrow> append_command list \<Rightarrow> append_command list \<times> 'cb store \<Rightarrow> bool" where
  "take_post base st batch res =
     (case res of (batch', st') \<Rightarrow>
        queue_ok base batch' st' \<and> same_log st st' \<and> prefix batch batch'
        \<and> prefix (batch @ queue st) (batch' @ queue st') \<and> (queue st \<noteq> [] \<longrightarrow> batch' \<noteq> [])
        \<and> batch_bounded (options st) batch')"

lemma take_loop_ok:
  assumes "queue_ok base batch st" "oracle_ok os" "unat (st_next_offset st) + oracle_appends os < 2 ^ 64"
    "batch_room (options st) batch n"
  shows "take_post base st batch (take_loop os st batch n)"
  using assms
proof (induction os st batch n rule: take_loop.induct)
  case (1 st batch n)
  obtain cmd st1 where pop: "pop_front st = (cmd, st1)" by (cases "pop_front st")
  show ?case
  proof (cases "queue st = []")
    case True
    with 1 show ?thesis by (simp add: take_post_def batch_room_bounded)
  next
    case False
    note p = pop_front_ok [OF "1.prems"(1) False pop]
    with 1 False pop show ?thesis by (simp add: take_post_def batch_room_snoc)
  qed
next
  case (2 expired acts os st batch n)
  obtain cmd st1 where pop: "pop_front st = (cmd, st1)" by (cases "pop_front st")
  let ?batch = "batch @ [cmd]" and ?n = "n + (LOG_RECORD_HEADER_SIZE + length (rec_payload cmd))"
  show ?case
  proof (cases "queue st = []")
    case True
    with 2 show ?thesis by (simp add: take_post_def batch_room_bounded)
  next
    case False
    note p = pop_front_ok [OF "2.prems"(1) False pop]
    have opts: "options st1 = options st" using p(2) by (simp add: same_log_def)
    let ?stop = "length ?batch \<ge> max_batch_records (options st1) \<or> ?n \<ge> max_batch_bytes (options st1)"
    have done': "take_post base st batch (?batch, st1)"
      using p "2.prems"(4) by (simp add: take_post_def batch_room_snoc)
    have room: "batch_room (options st) ?batch ?n" if "\<not> ?stop"
      using that "2.prems"(4) opts by (auto simp: batch_room_def LOG_RECORD_HEADER_SIZE_def)
    have step: "take_post base st batch (take_loop os st2 ?batch ?n)"
      if ih: "take_post base st2 ?batch (take_loop os st2 ?batch ?n)" and "same_log st1 st2"
        and more: "prefix (queue st1) (queue st2)" for st2
    proof -
      obtain b' st' where res: "take_loop os st2 ?batch ?n = (b', st')" by (cases "take_loop os st2 ?batch ?n")
      have "same_log st st2" using p(2) \<open>same_log st1 st2\<close> by (rule same_log_trans)
      moreover from this have "options st2 = options st" by (simp add: same_log_def)
      moreover have "prefix (batch @ queue st) (b' @ queue st')" "prefix ?batch b'" "same_log st2 st'"
        "queue_ok base b' st'" "batch_bounded (options st2) b'"
        using ih more p(6) prefix_order.trans [of "batch @ queue st" "?batch @ queue st2"]
        unfolding take_post_def res by simp_all
      moreover from this(2) have "prefix batch b'" "b' \<noteq> []" by (auto dest: append_prefixD)
      ultimately show ?thesis unfolding take_post_def res by (auto intro: same_log_trans)
    qed
    consider (stop) "?stop \<or> expired" | (wait) "\<not> ?stop" "\<not> expired" "queue st1 = []"
      | (more) "\<not> ?stop" "\<not> expired" "queue st1 \<noteq> []" by blast
    then show ?thesis
    proof cases
      case stop
      then have "take_loop ((expired, acts) # os) st batch n = (?batch, st1)"
        using False pop by (auto simp: Let_def)
      with done' show ?thesis by simp
    next
      case wait
      have "list_all env_ok acts" "unat (st_next_offset st1) + env_appends acts < 2 ^ 64"
        using "2.prems"(2,3) p(4) by simp_all
      note env = env_run_ok [OF p(1) this]
      then have "options (env_run acts st1) = options st" using opts by (simp add: same_log_def)
      then have "take_post base (env_run acts st1) ?batch (take_loop os (env_run acts st1) ?batch ?n)"
        using "2.IH"(1) [OF False pop [symmetric] refl refl wait] env "2.prems"(2,3) p(4) room [OF wait(1)] by simp
      moreover have "take_loop ((expired, acts) # os) st batch n = take_loop os (env_run acts st1) ?batch ?n"
        using wait False pop by (auto simp: Let_def)
      ultimately show ?thesis using step env by simp
    next
      case more
      then have "take_loop ((expired, acts) # os) st batch n = take_loop os st1 ?batch ?n"
        using False pop by (auto simp: Let_def)
      moreover have "take_post base st1 ?batch (take_loop os st1 ?batch ?n)"
        using "2.IH"(2) [OF False pop [symmetric] refl refl more] "2.prems"(2,3) p(1,4) room [OF more(1)] opts by simp
      ultimately show ?thesis using step [of st1] by simp
    qed
  qed
qed

text \<open>The wait at the start of \<open>take_batch\<close>: it ends with a non-empty batch, or with an empty one
  when the store shuts down and nothing is left.\<close>

lemma take_batch_ok:
  assumes "queue_ok base [] st" "oracle_ok os" "unat (st_next_offset st) + oracle_appends os < 2 ^ 64"
    "take_batch os st = Some (batch, st')"
  shows "queue_ok base batch st'" "same_log st st'" "batch_bounded (options st) batch"
    "batch = [] \<longleftrightarrow> queue st = []" "batch = [] \<longrightarrow> shutdown st \<and> st' = st"
    "prefix (queue st) (batch @ queue st')"
proof -
  have "batch_room (options st) [] 0" by (simp add: batch_room_def)
  from take_loop_ok [OF assms(1-3) this] have post: "take_post base st [] (take_loop os st [] 0)" .
  from assms(4) consider "shutdown st" "queue st = []" "batch = []" "st' = st"
    | "queue st \<noteq> []" "take_loop os st [] 0 = (batch, st')"
    by (auto simp: take_batch_def split: if_splits)
  then have "queue_ok base batch st' \<and> same_log st st' \<and> batch_bounded (options st) batch
      \<and> (batch = [] \<longleftrightarrow> queue st = []) \<and> (batch = [] \<longrightarrow> shutdown st \<and> st' = st)
      \<and> prefix (queue st) (batch @ queue st')"
  proof cases
    case 1
    with assms(1) show ?thesis by (simp add: batch_room_bounded [OF \<open>batch_room (options st) [] 0\<close>])
  next
    case 2
    with post show ?thesis by (simp add: take_post_def)
  qed
  then show "queue_ok base batch st'" "same_log st st'" "batch_bounded (options st) batch"
    "batch = [] \<longleftrightarrow> queue st = []" "batch = [] \<longrightarrow> shutdown st \<and> st' = st"
    "prefix (queue st) (batch @ queue st')" by blast+
qed

end
