(* ===== verification/Fell_Store_Boot.thy ===== *)
theory Fell_Store_Boot
  imports Fell_Store_Queue
begin

text \<open>
  Starting a partition from its directory: the constructor of \<^verbatim>\<open>PartitionStore\<close> finds the segments,
  cuts a torn tail off the active one, and establishes the invariants of log and queue.
\<close>

section \<open>Definitions\<close>

text \<open>The directory of a stopped or crashed store: the files of \<open>segs\<close>, with an incomplete record
  \<open>t\<close> at the end of the active log file.\<close>

definition dir_holds :: "(u64 \<times> log_record list) list \<Rightarrow> bytes \<Rightarrow> dir \<Rightarrow> bool" where
  "dir_holds segs t d =
     (segs \<noteq> [] \<and> seg_chain (unat (fst (hd segs))) segs \<and> dir_ok segs d \<and> incomplete t
      \<and> map_of d (log_name (fst (last segs))) = Some (encode_records (snd (last segs)) @ t)
      \<and> length (encode_records (snd (last segs)) @ t) < 2 ^ 62
      \<and> (\<forall>seg \<in> set segs. seg_files_ok (file_put d (log_name (fst (last segs))) (encode_records (snd (last segs)))) [] seg))"

text \<open>The store of a new partition.\<close>

definition empty_store :: "storage_options \<Rightarrow> u64 \<Rightarrow> 'cb store" where
  "empty_store opts now =
     \<lparr>st_dir = open_files [] 0, writer = \<lparr>sw_base_offset = 0, sw_next_offset = 0, sw_bytes_written = 0\<rparr>,
      sealed_segments = [], segment_cache = Map.empty, last_timestamp_ms = 0, ts_counter = 0,
      options = opts, queue = [], pending_bytes = 0, shutdown = False, st_next_offset = 0,
      st_committed_offset = 0, busy_count = 0, records_since_flush = 0, last_flush_time = now,
      has_commit_cb = False, once_callbacks = []\<rparr>"

section \<open>Finding the segments\<close>

lemma log_paths_segs:
  assumes "dir_ok segs d" "\<forall>seg \<in> set segs. map_of d (log_name (fst seg)) \<noteq> None"
    "sorted (map fst segs)" "distinct (map fst segs)"
  shows "log_paths d = map log_name (map fst segs)"
proof (rule sorted_distinct_set_unique)
  show "sorted (log_paths d)" by (simp add: log_paths_def)
  show "distinct (log_paths d)" using assms(1) by (simp add: log_paths_def dir_ok_def)
  have mono: "sorted (map log_name bs)" if "sorted bs" for bs
    using that by (induction bs) (auto simp: log_name_le_iff)
  from mono [OF assms(3)] show "sorted (map log_name (map fst segs))" .
  have "distinct (map log_name bs)" if "distinct bs" for bs
    using that by (auto simp: distinct_map inj_on_def)
  from this [OF assms(4)] show "distinct (map log_name (map fst segs))" .
  have keys: "f \<in> fst ` set d \<longleftrightarrow> map_of d f \<noteq> None" for f by (simp add: map_of_eq_None_iff)
  show "set (log_paths d) = set (map log_name (map fst segs))"
  proof (intro set_eqI iffI)
    fix f assume "f \<in> set (log_paths d)"
    then have "map_of d f \<noteq> None" "extension f = ''.log''" using keys by (auto simp: log_paths_mem)
    moreover from this(1) assms(1) obtain b where "b \<in> fst ` set segs" "f = log_name b \<or> f = idx_name b"
      unfolding dir_ok_def by blast
    ultimately show "f \<in> set (map log_name (map fst segs))" by auto
  next
    fix f assume "f \<in> set (map log_name (map fst segs))"
    then obtain seg where "seg \<in> set segs" "f = log_name (fst seg)" by auto
    then show "f \<in> set (log_paths d)" using assms(2) keys by (auto simp: log_paths_mem)
  qed
qed

lemma stems_of_log_names: "stems_of (map log_name bs) = Inr (map (\<lambda>b. (b, log_name b)) bs)"
  by (induction bs) (simp_all add: stoull_segment_stem)

lemma dir_holds_paths:
  assumes "dir_holds segs t d"
  shows "log_paths d = map log_name (map fst segs)"
proof (rule log_paths_segs)
  show "dir_ok segs d" using assms by (simp add: dir_holds_def)
  show "sorted (map fst segs)" "distinct (map fst segs)"
    using assms seg_chain_sorted seg_chain_distinct by (auto simp: dir_holds_def)
  show "\<forall>seg \<in> set segs. map_of d (log_name (fst seg)) \<noteq> None"
  proof
    fix seg assume "seg \<in> set segs"
    then show "map_of d (log_name (fst seg)) \<noteq> None"
      using assms by (cases seg) (auto simp: dir_holds_def seg_files_ok_def split: if_splits dest!: bspec)
  qed
qed

lemma next_after_contiguous:
  assumes "offsets_from b rs"
  shows "next_after b rs = b + of_nat (length rs)"
proof (cases rs rule: rev_cases)
  case (snoc ys y)
  with assms show ?thesis by (simp add: next_after_def)
qed (simp add: next_after_def)

lemma open_files_exist:
  assumes "map_of d (log_name b) \<noteq> None" "map_of d (idx_name b) \<noteq> None"
  shows "open_files d b = d"
  using assms by (auto simp: open_files_def open_file_append_def)

lemma file_put_same: "map_of d f = Some c \<Longrightarrow> file_put d f c = d"
  by (induction d f c rule: file_put.induct) (auto split: if_splits)

section \<open>The constructed store\<close>

lemma dir_holds_recover:
  assumes "dir_holds (pre @ [(b, rs)]) t d"
  shows "recover_partition d =
     Inr (\<lparr>rr_next_offset = next_after b rs, rr_log_end_position = of_nat (length (encode_records rs)),
           rr_records_recovered = of_nat (length rs), rr_truncated = (t \<noteq> [])\<rparr>,
          file_put d (log_name b) (encode_records rs))"
proof -
  have paths: "log_paths d = map log_name (map fst pre) @ [log_name b]"
    using dir_holds_paths [OF assms] by simp
  have m: "map_of d (log_name b) = Some (encode_records rs @ t)" "incomplete t"
    "length (encode_records rs @ t) < 2 ^ 62"
    and f: "seg_files_ok (file_put d (log_name b) (encode_records rs)) [] (b, rs)"
    using assms by (simp_all add: dir_holds_def)
  have "\<forall>r \<in> set rs. wf_record r" using seg_files_okD(4) [OF f] .
  moreover have "file_contents d (log_name b) = encode_records rs @ t" using m(1) by (simp add: file_contents_def)
  ultimately show ?thesis
    using recover_partition_records [of d "log_name b" b rs t] m paths
    by (simp add: stoull_segment_stem file_put_same)
qed

lemma PartitionStore_ok:
  assumes "dir_holds segs t d"
  obtains st :: "'cb store" where "PartitionStore d opts now = Inr st" "log_ok segs [] st"
    "queue_ok (sw_next_offset (writer st)) [] st" "options st = opts" "queue st = []"
    "st_committed_offset st = sw_next_offset (writer st)" "once_callbacks st = []" "\<not> shutdown st"
    "st_dir st = file_put d (log_name (fst (last segs))) (encode_records (snd (last segs)))"
    "length segs = Suc (length (sealed_segments st))"
proof -
  have "segs \<noteq> []" using assms by (simp add: dir_holds_def)
  then obtain pre b rs where segs: "segs = pre @ [(b, rs)]" by (cases segs rule: rev_cases) auto
  let ?d = "file_put d (log_name b) (encode_records rs)"
  have files: "\<forall>seg \<in> set segs. seg_files_ok ?d [] seg" and chain: "seg_chain (unat (fst (hd segs))) segs"
    and dir: "dir_ok segs d"
    using assms segs by (simp_all add: dir_holds_def)
  have rs: "unat b + length rs < 2 ^ 64" "offsets_from b rs"
    using seg_chain_bases [OF chain, of b rs] segs by simp_all
  have "map_of d (log_name b) \<noteq> None" using assms segs by (simp add: dir_holds_def)
  then have "log_name b \<in> fst ` set d" by (simp add: map_of_eq_None_iff)
  then have paths: "log_paths ?d = map log_name (map fst pre) @ [log_name b]"
    using dir_holds_paths [OF assms] segs by (simp add: log_paths_file_put)
  have "map_of ?d (idx_name b) \<noteq> None"
    using files segs by (auto simp: seg_files_ok_def)
  then have opened: "open_files ?d b = ?d" by (intro open_files_exist) simp_all
  let ?w = "\<lparr>sw_base_offset = b, sw_next_offset = next_after b rs,
      sw_bytes_written = of_nat (length (encode_records rs))\<rparr>"
  let ?st = "\<lparr>st_dir = ?d, writer = ?w, sealed_segments = map (\<lambda>b. (b, log_name b)) (map fst pre),
     segment_cache = Map.empty, last_timestamp_ms = 0, ts_counter = 0, options = opts, queue = [],
     pending_bytes = 0, shutdown = False, st_next_offset = next_after b rs,
     st_committed_offset = next_after b rs, busy_count = 0, records_since_flush = 0,
     last_flush_time = now, has_commit_cb = False, once_callbacks = []\<rparr> :: 'cb store"
  show ?thesis
  proof (rule that [of ?st])
    show "PartitionStore d opts now = Inr ?st"
      using paths dir_holds_recover [OF assms [unfolded segs]] opened
      by (simp add: PartitionStore_def Let_def stems_of_log_names stoull_segment_stem SegmentWriter_def
          set_next_offset_def set_bytes_written_def del: map_map)
    have "dir_ok segs ?d"
      using dir segs by (intro dir_ok_upd [OF dir, of ?d _ _ b]) (auto simp: dir_ok_def distinct_file_put)
    moreover have "sealed_ok segs ?st"
      by (rule sealed_okI [where k = "length pre"]) (simp_all add: segs case_prod_beta)
    ultimately show "log_ok segs [] ?st"
      using files chain segs next_after_contiguous [OF rs(2)]
      by (simp add: log_ok_def writer_ok_def cache_ok_def)
    show "queue_ok (sw_next_offset (writer ?st)) [] ?st"
      using unat_lt_u64 [of "next_after b rs"] by (simp add: queue_ok_def)
  qed (simp_all add: segs)
qed

text \<open>An empty directory gives an empty store.\<close>

lemma PartitionStore_empty_eq: "PartitionStore [] opts now = Inr (empty_store opts now)"
  by (simp add: PartitionStore_def log_paths_def recover_partition_no_segments SegmentWriter_def empty_store_def)

lemma empty_store_ok:
  "log_ok [(0, [])] [] (empty_store opts now)" "queue_ok 0 [] (empty_store opts now)"
proof -
  let ?d = "open_files [] 0"
  have "seg_files_ok ?d [] (0, [])"
    by (rule seg_files_okI [where es = "[]"]) (simp_all add: map_of_open_files file_contents_def)
  moreover have "dir_ok [(0, [])] ?d"
    using distinct_open_files [of "[]" 0] by (auto simp: dir_ok_def map_of_open_files split: if_splits)
  moreover have "sealed_ok [(0, [])] (empty_store opts now)"
    by (rule sealed_okI [where k = 0]) (simp_all add: empty_store_def)
  ultimately show "log_ok [(0, [])] [] (empty_store opts now)"
    by (simp add: log_ok_def writer_ok_def cache_ok_def empty_store_def)
  show "queue_ok 0 [] (empty_store opts now)" by (simp add: queue_ok_def empty_store_def)
qed

text \<open>What is on disk of a running store can be started again.\<close>

lemma log_ok_dir_holds:
  assumes "log_ok segs [] st"
  shows "dir_holds segs [] (st_dir st)"
proof -
  from assms obtain pre b rs where w: "segs = pre @ [(b, rs)]" by (rule log_ok_lastE)
  have "seg_files_ok (st_dir st) [] (b, rs)" using assms w by (simp add: log_ok_def)
  then have m: "map_of (st_dir st) (log_name b) = Some (encode_records rs)"
    "length (encode_records rs) < 2 ^ 62" by (simp_all add: seg_files_ok_def)
  then show ?thesis using assms w by (simp add: dir_holds_def log_ok_def file_put_same)
qed

end
