(* ===== verification/Fell_Store_System.thy ===== *)
theory Fell_Store_System
  imports Fell_Store_Boot
begin

text \<open>
  A running partition as a transition system. The I/O thread of \<^verbatim>\<open>PartitionStore::io_loop\<close> is at one
  of the points of \<open>io_pc\<close> and takes the steps of \<open>io_step\<close>; producers, consumers and callback registrations
  take the steps of \<open>client_step\<close> at any point. Each step is one critical section or one system call of the code.
  The counters, the queue and the callbacks (\<open>counters_ok\<close>) are right in every reachable state, whatever the
  interleaving, the files the store was started on, and the results of its writes. The files hold the log
  (\<open>sys_inv\<close>) as long as every \<^verbatim>\<open>writev\<close> fails or writes everything.
\<close>

section \<open>Definitions\<close>

text \<open>The points of the I/O thread, with the batch in its hands. \<open>IoIndex\<close> also has the commands whose index
  entries are still to be written, the file position of the next record and the buffer filled so far. \<open>IoReopen\<close>
  is between sealing the old segment and opening the new one. The batch a failed I/O thread was writing is kept in
  its final point.\<close>

datatype io_pc =
    IoTake
  | IoIndex "append_command list" "append_command list" u64 bytes
  | IoLog "append_command list" bytes
  | IoPublish "append_command list"
  | IoFire "append_command list"
  | IoNotify "append_command list"
  | IoRotate "append_command list"
  | IoReopen
  | IoDone
  | IoCrashed fault "append_command list"

record 'cb system =
  sys_store :: "'cb store"
  sys_pc :: io_pc
  sys_events :: "'cb store_event list"
  sys_registered :: "'cb list"

definition sys_emit :: "'cb store \<Rightarrow> io_pc \<Rightarrow> 'cb store_event list \<Rightarrow> 'cb system \<Rightarrow> 'cb system" where
  "sys_emit st pc evs s = s\<lparr>sys_store := st, sys_pc := pc, sys_events := sys_events s @ evs\<rparr>"

definition boot :: "'cb store \<Rightarrow> 'cb system" where
  "boot st = \<lparr>sys_store = st, sys_pc = IoTake, sys_events = [], sys_registered = []\<rparr>"

text \<open>The steps of the other threads. Payload sizes fit the 32-bit size argument of \<open>append\<close>, and the offset
  counter does not run past \<open>2 ^ 64\<close>.\<close>

inductive client_step :: "'cb system \<Rightarrow> 'cb system \<Rightarrow> bool" where
  append: "store_append now payload (sys_store s) = (r, st) \<Longrightarrow> length payload < 2 ^ 32 \<Longrightarrow>
     unat (st_next_offset (sys_store s)) + 1 < 2 ^ 64 \<Longrightarrow> client_step s (sys_emit st (sys_pc s) [] s)"
| fetch: "store_fetch off n (sys_store s) = Inr (rs, st) \<Longrightarrow> client_step s (sys_emit st (sys_pc s) [] s)"
| register: "set_once_commit_callback off cb (sys_store s) = (st, evs) \<Longrightarrow>
     client_step s (sys_emit st (sys_pc s) evs (s\<lparr>sys_registered := sys_registered s @ [cb]\<rparr>))"
| set_callback: "client_step s (sys_emit (set_commit_callback (sys_store s)) (sys_pc s) [] s)"
| request_shutdown: "client_step s (sys_emit (request_shutdown (sys_store s)) (sys_pc s) [] s)"

text \<open>The steps of the I/O thread. \<open>W\<close> restricts what \<^verbatim>\<open>writev\<close> may return, \<open>Q\<close> what other threads do
  while the thread waits with the queue's lock released.\<close>

inductive io_step ::
  "(writev \<Rightarrow> bool) \<Rightarrow> ((bool \<times> env_action list) list \<Rightarrow> bool) \<Rightarrow> 'cb system \<Rightarrow> 'cb system \<Rightarrow> bool" for W Q where
  take_some: "sys_pc s = IoTake \<Longrightarrow> Q os \<Longrightarrow> oracle_ok os \<Longrightarrow>
     unat (st_next_offset (sys_store s)) + oracle_appends os < 2 ^ 64 \<Longrightarrow>
     take_batch os (sys_store s) = Some (batch, st) \<Longrightarrow> batch \<noteq> [] \<Longrightarrow>
     io_step W Q s (sys_emit st (IoIndex batch batch (sw_bytes_written (writer st)) []) [] s)"
| take_none: "sys_pc s = IoTake \<Longrightarrow> take_batch os (sys_store s) = Some ([], st) \<Longrightarrow> shutdown st \<Longrightarrow>
     io_step W Q s (sys_emit st IoDone [FlushFiles (sw_base_offset (writer st))] s)"
| index: "sys_pc s = IoIndex batch (cmd # rest) pos buffer \<Longrightarrow> W wv \<Longrightarrow>
     write_index_entry wv (writer (sys_store s)) cmd pos (st_dir (sys_store s)) = (True, d) \<Longrightarrow>
     io_step W Q s (sys_emit ((sys_store s)\<lparr>st_dir := d\<rparr>)
       (IoIndex batch rest (next_file_pos pos cmd) (buffer @ encode_record cmd)) [] s)"
| index_fails: "sys_pc s = IoIndex batch (cmd # rest) pos buffer \<Longrightarrow> W wv \<Longrightarrow>
     write_index_entry wv (writer (sys_store s)) cmd pos (st_dir (sys_store s)) = (False, d) \<Longrightarrow>
     io_step W Q s (sys_emit ((sys_store s)\<lparr>st_dir := d\<rparr>) (IoCrashed IoError batch) [] s)"
| index_done: "sys_pc s = IoIndex batch [] pos buffer \<Longrightarrow>
     io_step W Q s (sys_emit (sys_store s) (IoLog batch buffer) [] s)"
| log: "sys_pc s = IoLog batch buffer \<Longrightarrow> W wv \<Longrightarrow>
     write_batch_log wv batch buffer (sys_store s) = (None, st) \<Longrightarrow>
     io_step W Q s (sys_emit st (IoPublish batch) [] s)"
| log_fails: "sys_pc s = IoLog batch buffer \<Longrightarrow> W wv \<Longrightarrow>
     write_batch_log wv batch buffer (sys_store s) = (Some e, st) \<Longrightarrow>
     io_step W Q s (sys_emit st (IoCrashed e batch) [] s)"
| publish: "sys_pc s = IoPublish batch \<Longrightarrow>
     io_step W Q s (sys_emit (publish_batch batch (sys_store s)) (IoFire batch) [] s)"
| fire: "sys_pc s = IoFire batch \<Longrightarrow>
     fire_once_callbacks (st_committed_offset (sys_store s)) (sys_store s) = (st, evs) \<Longrightarrow>
     io_step W Q s (sys_emit st (IoNotify batch) evs s)"
| notify: "sys_pc s = IoNotify batch \<Longrightarrow>
     io_step W Q s (sys_emit (sys_store s) (IoRotate batch) (commit_callback batch (sys_store s)) s)"
| flush: "sys_pc s = IoRotate batch \<Longrightarrow> \<not> rotation_due (sys_store s) \<Longrightarrow>
     flush_policy now (length batch) (sys_store s) = (st, evs) \<Longrightarrow> io_step W Q s (sys_emit st IoTake evs s)"
| seal: "sys_pc s = IoRotate batch \<Longrightarrow> rotation_due (sys_store s) \<Longrightarrow> seal_segment (sys_store s) = (st, evs) \<Longrightarrow>
     io_step W Q s (sys_emit st IoReopen evs s)"
| reopen: "sys_pc s = IoReopen \<Longrightarrow> io_step W Q s (sys_emit (open_segment now (sys_store s)) IoTake [] s)"

definition any_writes :: "writev \<Rightarrow> bool" where
  "any_writes wv = True"

inductive sys_step :: "(writev \<Rightarrow> bool) \<Rightarrow> 'cb system \<Rightarrow> 'cb system \<Rightarrow> bool" for W where
  client: "client_step s s' \<Longrightarrow> sys_step W s s'"
| io: "io_step W (\<lambda>os. True) s s' \<Longrightarrow> sys_step W s s'"

text \<open>A system starts as the constructor leaves it, on any directory, and its writes may have any result.\<close>

inductive reachable :: "storage_options \<Rightarrow> 'cb system \<Rightarrow> bool" for opts where
  start: "PartitionStore d opts now = Inr st \<Longrightarrow> reachable opts (boot st)"
| step: "reachable opts s \<Longrightarrow> sys_step any_writes s s' \<Longrightarrow> reachable opts s'"

text \<open>The batch in the I/O thread's hands, by what has been done with it.\<close>

fun unwritten :: "io_pc \<Rightarrow> append_command list" where
  "unwritten (IoIndex batch rest pos buffer) = batch"
| "unwritten (IoLog batch buffer) = batch"
| "unwritten (IoCrashed e batch) = batch"
| "unwritten _ = []"

fun unpublished :: "io_pc \<Rightarrow> append_command list" where
  "unpublished (IoPublish batch) = batch"
| "unpublished _ = []"

fun written :: "io_pc \<Rightarrow> append_command list" where
  "written (IoPublish batch) = batch"
| "written (IoFire batch) = batch"
| "written (IoNotify batch) = batch"
| "written (IoRotate batch) = batch"
| "written _ = []"

fun batch_ok :: "u64 \<Rightarrow> io_pc \<Rightarrow> bool" where
  "batch_ok n (IoIndex batch rest pos buffer) = (batch \<noteq> [])"
| "batch_ok n (IoLog batch buffer) = (batch \<noteq> [])"
| "batch_ok n (IoPublish batch) = (rec_offset (last batch) + 1 = n)"
| "batch_ok n _ = True"

definition callbacks_due :: "'cb store \<Rightarrow> bool" where
  "callbacks_due st = (\<exists>off \<in> fst ` set (once_callbacks st). off < st_committed_offset st)"

definition counters_ok :: "'cb system \<Rightarrow> bool" where
  "counters_ok s =
     (let st = sys_store s; pc = sys_pc s; n = sw_next_offset (writer st)
      in queue_ok n (unwritten pc) st
         \<and> st_committed_offset st + of_nat (length (unpublished pc)) = n
         \<and> batch_ok n pc
         \<and> (callbacks_due st \<longrightarrow> (\<exists>batch. pc = IoFire batch)))"

fun pc_ok :: "(u64 \<times> log_record list) list \<Rightarrow> io_pc \<Rightarrow> bool" where
  "pc_ok segs (IoIndex batch rest pos buffer) =
     (\<exists>bs. batch = bs @ rest \<and> buffer = encode_records bs \<and> pos = of_nat (length (encode_records (snd (last segs) @ bs))))"
| "pc_ok segs (IoLog batch buffer) = (buffer = encode_records batch)"
| "pc_ok segs IoTake = (length (encode_records (snd (last segs))) < 2 ^ 61)"
| "pc_ok segs IoReopen = (snd (last segs) \<noteq> [])"
| "pc_ok segs IoDone = True"
| "pc_ok segs (IoCrashed e batch) = True"
| "pc_ok segs pc = (written pc \<noteq> [] \<and> suffix (written pc) (snd (last segs)))"

definition log_inv :: "storage_options \<Rightarrow> (u64 \<times> log_record list) list \<Rightarrow> 'cb system \<Rightarrow> bool" where
  "log_inv opts segs s =
     (let st = sys_store s; pc = sys_pc s
      in options st = opts
         \<and> log_ok segs (unwritten pc) st
         \<and> pc_ok segs pc
         \<and> length segs = length (sealed_segments st) + (if pc = IoReopen then 0 else 1))"

definition sys_inv :: "storage_options \<Rightarrow> (u64 \<times> log_record list) list \<Rightarrow> 'cb system \<Rightarrow> bool" where
  "sys_inv opts segs s = (counters_ok s \<and> log_inv opts segs s)"

subsection \<open>The specification of a partition\<close>

text \<open>A log that records are moved to from a queue, in order.\<close>

record spec_log =
  sl_base :: nat
  sl_log :: "log_record list"
  sl_pending :: "log_record list"

inductive spec_step :: "spec_log \<Rightarrow> spec_log \<Rightarrow> bool" where
  spec_append: "rec_offset r = of_nat (sl_base a + length (sl_log a) + length (sl_pending a)) \<Longrightarrow>
     spec_step a (a\<lparr>sl_pending := sl_pending a @ [r]\<rparr>)"
| spec_commit: "sl_pending a = batch @ rest \<Longrightarrow>
     spec_step a (a\<lparr>sl_log := sl_log a @ batch, sl_pending := rest\<rparr>)"

definition abs_of :: "(u64 \<times> log_record list) list \<Rightarrow> 'cb system \<Rightarrow> spec_log" where
  "abs_of segs s = \<lparr>sl_base = unat (fst (hd segs)), sl_log = all_records segs,
     sl_pending = unwritten (sys_pc s) @ queue (sys_store s)\<rparr>"

section \<open>The counters\<close>

lemma sys_emit_simps [simp]:
  "sys_store (sys_emit st pc evs s) = st" "sys_pc (sys_emit st pc evs s) = pc"
  "sys_events (sys_emit st pc evs s) = sys_events s @ evs"
  "sys_registered (sys_emit st pc evs s) = sys_registered s"
  by (simp_all add: sys_emit_def)

lemma queue_ok_update [simp]:
  "queue_ok base batch (st\<lparr>segment_cache := c\<rparr>) = queue_ok base batch st" "queue_ok base batch (st\<lparr>st_dir := d\<rparr>) = queue_ok base batch st"
  "queue_ok base batch (st\<lparr>writer := w\<rparr>) = queue_ok base batch st" "queue_ok base batch (st\<lparr>sealed_segments := sl\<rparr>) = queue_ok base batch st"
  "queue_ok base batch (st\<lparr>once_callbacks := m\<rparr>) = queue_ok base batch st" "queue_ok base batch (st\<lparr>has_commit_cb := h\<rparr>) = queue_ok base batch st"
  "queue_ok base batch (st\<lparr>shutdown := h\<rparr>) = queue_ok base batch st" "queue_ok base batch (st\<lparr>last_flush_time := t\<rparr>) = queue_ok base batch st"
  "queue_ok base batch (st\<lparr>records_since_flush := r\<rparr>) = queue_ok base batch st"
  "queue_ok base batch (st\<lparr>st_committed_offset := n\<rparr>) = queue_ok base batch st"
  by (simp_all add: queue_ok_def)

lemma callbacks_due_update [simp]:
  "callbacks_due (st\<lparr>segment_cache := c\<rparr>) = callbacks_due st" "callbacks_due (st\<lparr>st_dir := d\<rparr>) = callbacks_due st"
  "callbacks_due (st\<lparr>writer := w\<rparr>) = callbacks_due st" "callbacks_due (st\<lparr>sealed_segments := sl\<rparr>) = callbacks_due st"
  "callbacks_due (st\<lparr>has_commit_cb := h\<rparr>) = callbacks_due st" "callbacks_due (st\<lparr>shutdown := h\<rparr>) = callbacks_due st"
  "callbacks_due (st\<lparr>last_flush_time := t\<rparr>) = callbacks_due st" "callbacks_due (st\<lparr>records_since_flush := r\<rparr>) = callbacks_due st"
  by (simp_all add: callbacks_due_def)

lemma counters_okD:
  assumes "counters_ok s"
  shows "queue_ok (sw_next_offset (writer (sys_store s))) (unwritten (sys_pc s)) (sys_store s)"
    "st_committed_offset (sys_store s) + of_nat (length (unpublished (sys_pc s))) = sw_next_offset (writer (sys_store s))"
    "batch_ok (sw_next_offset (writer (sys_store s))) (sys_pc s)"
    "callbacks_due (sys_store s) \<Longrightarrow> \<exists>batch. sys_pc s = IoFire batch"
  using assms by (simp_all add: counters_ok_def Let_def)

text \<open>Steps that leave the log's counters and the callbacks alone.\<close>

lemma counters_queue:
  assumes ok: "counters_ok s" and same: "same_log (sys_store s) st"
    and q: "queue_ok (sw_next_offset (writer (sys_store s))) (unwritten pc) st"
    and pc: "unpublished pc = unpublished (sys_pc s)" "batch_ok (sw_next_offset (writer (sys_store s))) pc"
      "\<And>b. sys_pc s = IoFire b \<Longrightarrow> pc = IoFire b"
    and s': "sys_store s' = st" "sys_pc s' = pc"
  shows "counters_ok s'"
proof -
  have "writer st = writer (sys_store s)" "once_callbacks st = once_callbacks (sys_store s)"
    "st_committed_offset st = st_committed_offset (sys_store s)" using same by (simp_all add: same_log_def)
  then show ?thesis using ok q pc by (auto simp: counters_ok_def callbacks_due_def s' Let_def)
qed

lemma take_loop_nonempty:
  "batch \<noteq> [] \<or> queue st \<noteq> [] \<Longrightarrow> fst (take_loop os st batch n) \<noteq> []"
  by (induction os st batch n rule: take_loop.induct) (auto simp: Let_def split: prod.splits)

lemma take_none_same:
  "take_batch os st = Some ([], st') \<Longrightarrow> st' = st \<and> queue st = [] \<and> shutdown st"
  using take_loop_nonempty [of "[]" st os 0] by (auto simp: take_batch_def split: if_splits)

lemma store_fetch_cache:
  "store_fetch off n st = Inr (rs, st') \<Longrightarrow> \<exists>c. st' = st\<lparr>segment_cache := c\<rparr>"
  by (cases "find_segment_for st off")
    (auto simp: store_fetch_def cached_segment_def Let_def split: option.splits sum.splits prod.splits intro: exI [of _ "segment_cache st"])

lemma once_insert_keys: "fst ` set (once_insert m off cb) = insert off (fst ` set m)"
  by (induction m off cb rule: once_insert.induct) auto

lemma register_callbacks:
  assumes "set_once_commit_callback off cb st = (st', evs)"
  shows "(\<exists>m. st' = st\<lparr>once_callbacks := m\<rparr>) \<and> callbacks_due st' = callbacks_due st"
proof (cases "off < st_committed_offset st")
  case True
  then have "st' = st" using assms by (simp add: set_once_commit_callback_def)
  then show ?thesis by (intro conjI exI [of _ "once_callbacks st"]) simp_all
next
  case False
  let ?m = "once_insert (once_callbacks st) off cb"
  have "st' = st\<lparr>once_callbacks := ?m\<rparr>" using False assms by (simp add: set_once_commit_callback_def)
  moreover have "callbacks_due (st\<lparr>once_callbacks := ?m\<rparr>) = callbacks_due st"
    using once_insert_keys [of "once_callbacks st" off cb] False by (simp add: callbacks_due_def)
  ultimately show ?thesis by blast
qed

lemma client_counters:
  assumes "client_step s s'" "counters_ok s"
  shows "counters_ok s'"
  using assms(1)
proof cases
  case (append now payload r st)
  let ?st = "snd (store_append now payload (sys_store s))"
  have "queue_ok (sw_next_offset (writer (sys_store s))) (unwritten (sys_pc s)) ?st"
    using counters_okD(1) [OF assms(2)] append(3,4) by (rule store_append_queue_ok)
  then show ?thesis
    using append(1,2) counters_okD(3) [OF assms(2)]
    by (intro counters_queue [OF assms(2) store_append_same_log [of _ now payload]]) simp_all
next
  case (fetch off n rs st)
  from store_fetch_cache [OF this(2)] obtain c where "st = (sys_store s)\<lparr>segment_cache := c\<rparr>" ..
  then show ?thesis using fetch(1) assms(2) by (simp add: counters_ok_def Let_def)
next
  case (register off cb st evs)
  from register_callbacks [OF register(2)] obtain m where
    m: "st = (sys_store s)\<lparr>once_callbacks := m\<rparr>" "callbacks_due st = callbacks_due (sys_store s)" by blast
  have "counters_ok s' = (queue_ok (sw_next_offset (writer (sys_store s))) (unwritten (sys_pc s)) (sys_store s)
      \<and> st_committed_offset (sys_store s) + of_nat (length (unpublished (sys_pc s))) = sw_next_offset (writer (sys_store s))
      \<and> batch_ok (sw_next_offset (writer (sys_store s))) (sys_pc s)
      \<and> (callbacks_due st \<longrightarrow> (\<exists>batch. sys_pc s = IoFire batch)))"
    using register(1) m(1) by (simp add: counters_ok_def Let_def)
  then show ?thesis using assms(2) m(2) by (simp add: counters_ok_def Let_def)
qed (use assms(2) in \<open>simp_all add: counters_ok_def set_commit_callback_def
      request_shutdown_def Let_def\<close>)

lemma queue_ok_written:
  assumes "queue_ok base batch st" "queue st' = queue st" "pending_bytes st' = pending_bytes st"
    "options st' = options st" "st_next_offset st' = st_next_offset st"
  shows "queue_ok (base + of_nat (length batch)) [] st'"
proof -
  have "unat base + length batch < 2 ^ 64" using assms(1) by (simp add: queue_ok_def)
  then have "unat (base + of_nat (length batch)) = unat base + length batch" by (rule unat_add_u64)
  then show ?thesis using assms by (simp add: queue_ok_def ac_simps)
qed

lemma offsets_from_last:
  assumes "offsets_from n batch" "batch \<noteq> []"
  shows "rec_offset (last batch) + 1 = n + of_nat (length batch)"
  using next_after_contiguous [OF assms(1)] assms(2) by (simp add: next_after_def)

lemma write_batch_log_result:
  assumes "write_batch_log wv batch buffer st = (res, st')"
  obtains d w where "st' = st\<lparr>st_dir := d, writer := w\<rparr>"
    "sw_next_offset w = sw_next_offset (writer st) + (if res = None then of_nat (length batch) else 0)"
proof -
  let ?f = "log_name (sw_base_offset (writer st))"
  obtain good d where w: "write_file_vec (wv ?f buffer) (st_dir st) ?f [buffer] = (good, d)" by fastforce
  show ?thesis
  proof (cases good)
    case True
    then show ?thesis using assms w by (intro that)
        (auto simp: write_batch_log_def advance_next_offset_def add_bytes_written_def Let_def)
  next
    case False
    then show ?thesis using assms w by (intro that [of "writer st" d]) (auto simp: write_batch_log_def Let_def)
  qed
qed

lemma fire_clears: "fire_once_callbacks (st_committed_offset st) st = (st', evs) \<Longrightarrow>
    (\<exists>m. st' = st\<lparr>once_callbacks := m\<rparr>) \<and> \<not> callbacks_due st'"
  by (auto simp: fire_once_callbacks_def callbacks_due_def Let_def)

lemma seal_segment_frame:
  "seal_segment st = (st', evs) \<Longrightarrow> \<exists>sl c. st' = st\<lparr>sealed_segments := sl, segment_cache := c\<rparr>"
  by (auto simp: seal_segment_def Let_def)

lemma open_segment_frame:
  "\<exists>d w. open_segment now st = st\<lparr>writer := w, st_dir := d, records_since_flush := 0, last_flush_time := now\<rparr>
     \<and> sw_next_offset w = sw_next_offset (writer st)"
  by (intro exI [of _ "open_files (st_dir st) (sw_next_offset (writer st))"] exI [of _ "writer (open_segment now st)"])
    (simp add: open_segment_def SegmentWriter_def Let_def)

lemma flush_policy_frame:
  "flush_policy now n st = (st', evs) \<Longrightarrow> \<exists>r t. st' = st\<lparr>records_since_flush := r, last_flush_time := t\<rparr>"
proof -
  assume "flush_policy now n st = (st', evs)"
  then have "st' = st\<lparr>records_since_flush := records_since_flush st', last_flush_time := last_flush_time st'\<rparr>"
    by (auto simp: flush_policy_def Let_def split: if_splits)
  then show ?thesis by blast
qed

lemma io_counters:
  assumes "io_step W Q s s'" "counters_ok s"
  shows "counters_ok s'"
  using assms(1)
proof cases
  case (take_some os batch st)
  have "queue_ok (sw_next_offset (writer (sys_store s))) [] (sys_store s)"
    using counters_okD(1) [OF assms(2)] take_some(2) by simp
  note t = take_batch_ok [OF this take_some(4-6)]
  show ?thesis
    using take_some(1,2,7) t(1) by (intro counters_queue [OF assms(2) t(2)]) simp_all
next
  case (take_none os st)
  then show ?thesis using assms(2) take_none_same [of os "sys_store s" st]
    by (auto simp: counters_ok_def Let_def)
next
  case (log batch buffer wv st)
  let ?n = "sw_next_offset (writer (sys_store s))"
  have q: "queue_ok ?n batch (sys_store s)" "batch \<noteq> []"
    using counters_okD(1,3) [OF assms(2)] log(2) by simp_all
  then have last: "rec_offset (last batch) + 1 = ?n + of_nat (length batch)"
    by (intro offsets_from_last) (simp_all add: queue_ok_def)
  obtain d w where w: "st = (sys_store s)\<lparr>st_dir := d, writer := w\<rparr>" "sw_next_offset w = ?n + of_nat (length batch)"
    using log(4) by (rule write_batch_log_result) simp
  have "queue_ok (?n + of_nat (length batch)) [] st" using queue_ok_written [OF q(1), of st] w(1) by simp
  moreover have "callbacks_due st = callbacks_due (sys_store s)" using w(1) by (simp add: callbacks_due_def)
  ultimately show ?thesis using assms(2) log(1,2) w last by (simp add: counters_ok_def Let_def)
next
  case (log_fails batch buffer wv e st)
  obtain d w where w: "st = (sys_store s)\<lparr>st_dir := d, writer := w\<rparr>" "sw_next_offset w = sw_next_offset (writer (sys_store s))"
    using log_fails(4) by (rule write_batch_log_result) simp
  then show ?thesis using assms(2) log_fails(1,2) by (simp add: counters_ok_def Let_def)
next
  case (fire batch st evs)
  from fire_clears [OF fire(3)] obtain m where "st = (sys_store s)\<lparr>once_callbacks := m\<rparr>" "\<not> callbacks_due st" by blast
  then show ?thesis using assms(2) fire(1,2) by (simp add: counters_ok_def Let_def)
next
  case (flush batch now st evs)
  from flush_policy_frame [OF flush(4)] obtain r t where
    "st = (sys_store s)\<lparr>records_since_flush := r, last_flush_time := t\<rparr>" by blast
  then show ?thesis using assms(2) flush(1,2) by (simp add: counters_ok_def Let_def)
next
  case (seal batch st evs)
  from seal_segment_frame [OF seal(4)] obtain sl c where
    "st = (sys_store s)\<lparr>sealed_segments := sl, segment_cache := c\<rparr>" by blast
  then show ?thesis using assms(2) seal(1,2) by (simp add: counters_ok_def Let_def)
next
  case (reopen now)
  from open_segment_frame [of now "sys_store s"] obtain d w where
    "open_segment now (sys_store s) = (sys_store s)\<lparr>writer := w, st_dir := d, records_since_flush := 0, last_flush_time := now\<rparr>"
    "sw_next_offset w = sw_next_offset (writer (sys_store s))" by blast
  then show ?thesis using assms(2) reopen(1,2) by (simp add: counters_ok_def Let_def)
qed (use assms(2) in \<open>simp_all add: counters_ok_def publish_batch_def Let_def\<close>)

lemma sys_counters: "sys_step W s s' \<Longrightarrow> counters_ok s \<Longrightarrow> counters_ok s'"
  by (erule sys_step.cases) (simp_all add: client_counters io_counters)

lemma boot_counters:
  assumes "queue_ok (sw_next_offset (writer st)) [] st" "st_committed_offset st = sw_next_offset (writer st)"
    "once_callbacks st = []"
  shows "counters_ok (boot st)"
  using assms by (simp add: counters_ok_def boot_def callbacks_due_def Let_def)

lemma PartitionStore_fresh:
  assumes "PartitionStore d opts now = Inr st"
  shows "queue st = []" "pending_bytes st = 0" "st_next_offset st = sw_next_offset (writer st)"
    "st_committed_offset st = sw_next_offset (writer st)" "once_callbacks st = []" "options st = opts"
  using assms by (auto simp: PartitionStore_def Let_def split: sum.splits prod.splits if_splits)

lemma reachable_counters: "reachable opts s \<Longrightarrow> counters_ok s"
proof (induction rule: reachable.induct)
  case (start d now st)
  note f = PartitionStore_fresh [OF start]
  have "queue_ok (sw_next_offset (writer st)) [] st"
    using f unat_lt_u64 [of "sw_next_offset (writer st)"] by (simp add: queue_ok_def)
  then show ?case using f by (intro boot_counters)
qed (rule sys_counters)

section \<open>Refinement\<close>

lemma spec_appends:
  assumes "offsets_from (of_nat (sl_base a + length (sl_log a) + length (sl_pending a))) new"
  shows "spec_step\<^sup>*\<^sup>* a (a\<lparr>sl_pending := sl_pending a @ new\<rparr>)"
  using assms
proof (induction new arbitrary: a)
  case (Cons r new)
  let ?a = "a\<lparr>sl_pending := sl_pending a @ [r]\<rparr>"
  have "spec_step a ?a" using Cons.prems by (intro spec_append) simp
  moreover have "spec_step\<^sup>*\<^sup>* ?a (?a\<lparr>sl_pending := sl_pending ?a @ new\<rparr>)"
    using Cons.prems by (intro Cons.IH) (simp add: ac_simps)
  ultimately show ?case by simp
qed simp

lemma log_ok_next:
  assumes "log_ok segs fut st"
  shows "sw_next_offset (writer st) = of_nat (unat (fst (hd segs)) + length (all_records segs))"
proof -
  from assms obtain pre b rs where w: "segs = pre @ [(b, rs)]"
    "sw_next_offset (writer st) = b + of_nat (length rs)" by (rule log_ok_lastE)
  have chain: "seg_chain (unat (fst (hd segs))) segs" using assms by (simp add: log_ok_def)
  have "unat (fst (hd segs)) + length (all_records segs) = unat b + length rs"
    using seg_chain_end [OF chain [unfolded w(1)]] w(1) by simp
  then show ?thesis using w(2) by simp
qed

text \<open>Steps that change the queue only append to the pending records.\<close>

lemma queue_refines:
  assumes "log_ok segs fut (sys_store s')" "counters_ok s'"
    and "prefix (unwritten (sys_pc s) @ queue (sys_store s)) (unwritten (sys_pc s') @ queue (sys_store s'))"
  shows "spec_step\<^sup>*\<^sup>* (abs_of segs s) (abs_of segs s')"
proof -
  from assms(3) obtain new where new: "unwritten (sys_pc s') @ queue (sys_store s') =
      (unwritten (sys_pc s) @ queue (sys_store s)) @ new" by (auto simp: prefix_def)
  have "offsets_from (sw_next_offset (writer (sys_store s'))) (unwritten (sys_pc s') @ queue (sys_store s'))"
    using counters_okD(1) [OF assms(2)] by (simp add: queue_ok_def)
  then have "offsets_from (of_nat (sl_base (abs_of segs s) + length (sl_log (abs_of segs s))
      + length (sl_pending (abs_of segs s)))) new"
    unfolding new log_ok_next [OF assms(1)] by (simp add: abs_of_def ac_simps)
  from spec_appends [OF this] show ?thesis using new by (simp add: abs_of_def)
qed

section \<open>Every step keeps the log\<close>

definition step_ok :: "storage_options \<Rightarrow> (u64 \<times> log_record list) list \<Rightarrow> 'cb system \<Rightarrow> 'cb system \<Rightarrow> bool" where
  "step_ok opts segs s s' =
     (\<exists>segs'. log_inv opts segs' s' \<and> (counters_ok s' \<longrightarrow> spec_step\<^sup>*\<^sup>* (abs_of segs s) (abs_of segs' s')))"

lemma step_ok_stutter:
  "log_inv opts segs' s' \<Longrightarrow> abs_of segs' s' = abs_of segs s \<Longrightarrow> step_ok opts segs s s'"
  by (auto simp: step_ok_def)

lemma log_ok_update [simp]:
  "log_ok segs fut (st\<lparr>once_callbacks := m\<rparr>) = log_ok segs fut st" "log_ok segs fut (st\<lparr>has_commit_cb := h\<rparr>) = log_ok segs fut st"
  "log_ok segs fut (st\<lparr>shutdown := h\<rparr>) = log_ok segs fut st" "log_ok segs fut (st\<lparr>last_flush_time := t\<rparr>) = log_ok segs fut st"
  "log_ok segs fut (st\<lparr>records_since_flush := r\<rparr>) = log_ok segs fut st"
  "log_ok segs fut (st\<lparr>st_committed_offset := n\<rparr>) = log_ok segs fut st"
  by (simp_all add: log_ok_def cache_ok_def)

lemma sys_invD:
  assumes "sys_inv opts segs s"
  shows "options (sys_store s) = opts" "log_ok segs (unwritten (sys_pc s)) (sys_store s)"
    "queue_ok (sw_next_offset (writer (sys_store s))) (unwritten (sys_pc s)) (sys_store s)"
    "st_committed_offset (sys_store s) + of_nat (length (unpublished (sys_pc s))) = sw_next_offset (writer (sys_store s))"
    "pc_ok segs (sys_pc s)"
    "length segs = length (sealed_segments (sys_store s)) + (if sys_pc s = IoReopen then 0 else 1)"
    "callbacks_due (sys_store s) \<Longrightarrow> \<exists>batch. sys_pc s = IoFire batch"
    "counters_ok s"
  using assms by (auto simp: sys_inv_def log_inv_def counters_ok_def Let_def)

text \<open>Steps of the queue.\<close>

lemma step_ok_queue:
  assumes inv: "sys_inv opts segs s" and same: "same_log (sys_store s) (sys_store s')"
    and fut: "log_ok segs (unwritten (sys_pc s')) (sys_store s)" and pc: "pc_ok segs (sys_pc s')"
      "sys_pc s' \<noteq> IoReopen \<or> sys_pc s = IoReopen" "sys_pc s = IoReopen \<longrightarrow> sys_pc s' = IoReopen"
    and pfx: "prefix (unwritten (sys_pc s) @ queue (sys_store s)) (unwritten (sys_pc s') @ queue (sys_store s'))"
  shows "step_ok opts segs s s'"
proof -
  have "log_ok segs (unwritten (sys_pc s')) (sys_store s')" using fut same by (simp add: log_ok_same_log)
  moreover from this have "counters_ok s' \<longrightarrow> spec_step\<^sup>*\<^sup>* (abs_of segs s) (abs_of segs s')"
    using queue_refines pfx by blast
  moreover have "options (sys_store s') = opts" "sealed_segments (sys_store s') = sealed_segments (sys_store s)"
    using same sys_invD(1) [OF inv] by (simp_all add: same_log_def)
  ultimately show ?thesis using pc sys_invD(6) [OF inv] by (auto simp: step_ok_def log_inv_def Let_def)
qed

lemma fetch_inv:
  assumes inv: "sys_inv opts segs s"
  obtains c where "store_fetch off n (sys_store s) =
      Inr (fetch_result (length (sealed_segments (sys_store s))) segs off n, (sys_store s)\<lparr>segment_cache := c\<rparr>)"
    "\<And>s'. sys_store s' = (sys_store s)\<lparr>segment_cache := c\<rparr> \<Longrightarrow> sys_pc s' = sys_pc s \<Longrightarrow>
       sys_inv opts segs s' \<and> abs_of segs s' = abs_of segs s"
proof -
  from store_fetch_ok [OF sys_invD(2) [OF inv], of off n] obtain c where c:
    "store_fetch off n (sys_store s) =
      Inr (fetch_result (length (sealed_segments (sys_store s))) segs off n, (sys_store s)\<lparr>segment_cache := c\<rparr>)"
    "log_ok segs (unwritten (sys_pc s)) ((sys_store s)\<lparr>segment_cache := c\<rparr>)" .
  have "sys_inv opts segs s' \<and> abs_of segs s' = abs_of segs s"
    if "sys_store s' = (sys_store s)\<lparr>segment_cache := c\<rparr>" "sys_pc s' = sys_pc s" for s' :: "'a system"
    using inv c(2) that by (simp add: sys_inv_def log_inv_def counters_ok_def abs_of_def Let_def)
  with c(1) show thesis by (rule that)
qed

lemma client_step_ok:
  assumes step: "client_step s s'" and inv: "sys_inv opts segs s"
  shows "step_ok opts segs s s'"
  using step
proof cases
  case (append now payload r st)
  have st: "st = snd (store_append now payload (sys_store s))" using append(2) by simp
  have "prefix (queue (sys_store s)) (queue st)" unfolding st by (rule store_append_prefix)
  moreover have "same_log (sys_store s) st" unfolding st by (rule store_append_same_log)
  ultimately show ?thesis using sys_invD(2,5) [OF inv] append(1) by (intro step_ok_queue [OF inv]) simp_all
next
  case (fetch off n rs st)
  obtain c where c: "store_fetch off n (sys_store s) =
      Inr (fetch_result (length (sealed_segments (sys_store s))) segs off n, (sys_store s)\<lparr>segment_cache := c\<rparr>)"
    "\<And>s'. sys_store s' = (sys_store s)\<lparr>segment_cache := c\<rparr> \<Longrightarrow> sys_pc s' = sys_pc s \<Longrightarrow>
       sys_inv opts segs s' \<and> abs_of segs s' = abs_of segs s"
    by (rule fetch_inv [OF inv, of off n]) (rule that)
  show ?thesis using c(1) c(2) [of s'] fetch by (intro step_ok_stutter [of _ segs]) (simp_all add: sys_inv_def)
next
  case (register off cb st evs)
  from register_callbacks [OF register(2)] obtain m where "st = (sys_store s)\<lparr>once_callbacks := m\<rparr>" by blast
  then show ?thesis using inv register(1)
    by (intro step_ok_stutter [of _ segs]) (simp_all add: sys_inv_def log_inv_def abs_of_def Let_def)
qed (use inv in \<open>auto intro!: step_ok_stutter [of _ segs] simp: sys_inv_def log_inv_def abs_of_def Let_def
      set_commit_callback_def request_shutdown_def\<close>)

subsection \<open>The I/O thread's steps\<close>

lemma batch_fits:
  assumes "batch_bounded opts batch" "max_batch_bytes opts < 2 ^ 60" "length (encode_records rs) < 2 ^ 61"
  shows "length (encode_records (rs @ batch)) < 2 ^ 62"
  using assms by (simp add: batch_bounded_def LOG_RECORD_HEADER_SIZE_def)

lemma take_step_ok:
  assumes inv: "sys_inv opts segs s" and opts: "max_batch_bytes opts < 2 ^ 60"
    and pc: "sys_pc s = IoTake" and os: "oracle_ok os"
      "unat (st_next_offset (sys_store s)) + oracle_appends os < 2 ^ 64"
    and run: "take_batch os (sys_store s) = Some (batch, st)" "batch \<noteq> []"
    and s': "s' = sys_emit st (IoIndex batch batch (sw_bytes_written (writer st)) []) [] s"
  shows "step_ok opts segs s s'"
proof -
  have q: "queue_ok (sw_next_offset (writer (sys_store s))) [] (sys_store s)" using sys_invD(3) [OF inv] pc by simp
  note t = take_batch_ok [OF q os run(1)]
  have ok: "log_ok segs [] (sys_store s)" using sys_invD(2) [OF inv] pc by simp
  have "log_ok segs batch (sys_store s)"
    using t(3) sys_invD(1,5) [OF inv] pc opts by (intro log_ok_ahead [OF ok] batch_fits) simp_all
  moreover have "writer_ok (last segs) (writer st)" using ok t(2) by (simp add: log_ok_def same_log_def)
  ultimately show ?thesis
    using t(2,6) pc s' by (intro step_ok_queue [OF inv]) (auto simp: writer_ok_def)
qed

lemma index_step_ok:
  assumes inv: "sys_inv opts segs s" and pc: "sys_pc s = IoIndex batch (cmd # rest) pos buffer" and wv: "whole_writes wv"
    and run: "write_index_entry wv (writer (sys_store s)) cmd pos (st_dir (sys_store s)) = (good, d)"
    and s': "s' = sys_emit ((sys_store s)\<lparr>st_dir := d\<rparr>) (if good
        then IoIndex batch rest (next_file_pos pos cmd) (buffer @ encode_record cmd) else IoCrashed IoError batch) [] s"
  shows "step_ok opts segs s s'"
proof -
  let ?st = "sys_store s"
  have ok: "log_ok segs batch ?st" using sys_invD(2) [OF inv] pc by simp
  have q: "queue_ok (sw_next_offset (writer ?st)) batch ?st" using sys_invD(3) [OF inv] pc by simp
  from sys_invD(5) [OF inv] pc obtain bs where bs: "batch = bs @ cmd # rest" "buffer = encode_records bs"
    "pos = of_nat (length (encode_records (snd (last segs) @ bs)))" by auto
  have "writer_ok (last segs) (writer ?st)" using ok by (simp add: log_ok_def)
  then have "pos = sw_bytes_written (writer ?st) + of_nat (length (encode_records bs))"
    using bs(3) by (simp add: writer_ok_def)
  moreover have "offsets_from (sw_next_offset (writer ?st)) batch"
    "unat (sw_next_offset (writer ?st)) + length batch < 2 ^ 64" using q by (simp_all add: queue_ok_def)
  ultimately have "log_ok segs batch (?st\<lparr>st_dir := d\<rparr>)"
    using write_index_entry_ok [OF ok wv _ _ bs(1) _ run] by blast
  moreover have "pc_ok segs (sys_pc s')"
    using bs by (auto simp: s' next_file_pos_def LOG_RECORD_HEADER_SIZE_def intro!: exI [of _ "bs @ [cmd]"])
  ultimately have "log_inv opts segs s'" using inv pc by (auto simp: s' sys_inv_def log_inv_def Let_def)
  then show ?thesis using pc by (intro step_ok_stutter [of _ segs]) (simp_all add: s' abs_of_def)
qed

lemma append_last_facts:
  "fst (hd (append_last segs batch)) = fst (hd segs)" if "segs \<noteq> []"
  using that by (cases segs rule: rev_cases) (auto simp: append_last_def hd_append)

lemma length_append_last: "segs \<noteq> [] \<Longrightarrow> length (append_last segs batch) = length segs"
  by (simp add: append_last_def)

lemma suffix_append_last: "segs \<noteq> [] \<Longrightarrow> suffix batch (snd (last (append_last segs batch)))"
  by (simp add: append_last_def suffix_def)

lemma log_step_ok:
  assumes inv: "sys_inv opts segs s" and pc: "sys_pc s = IoLog batch buffer" and wv: "whole_writes wv"
    and run: "write_batch_log wv batch buffer (sys_store s) = (None, st)"
  shows "step_ok opts segs s (sys_emit st (IoPublish batch) [] s)"
proof -
  let ?n = "sw_next_offset (writer (sys_store s))"
  have ok: "log_ok segs batch (sys_store s)" using sys_invD(2) [OF inv] pc by simp
  then have ne: "segs \<noteq> []" by (simp add: log_ok_def)
  have q: "queue_ok ?n batch (sys_store s)" using sys_invD(3) [OF inv] pc by simp
  have buf: "batch \<noteq> []" "buffer = encode_records batch"
    using sys_invD(5) [OF inv] counters_okD(3) [OF sys_invD(8) [OF inv]] pc by simp_all
  have "offsets_from ?n batch" "unat ?n + length batch < 2 ^ 64" "\<forall>r \<in> set batch. wf_record r"
    using q by (simp_all add: queue_ok_def)
  from write_batch_log_ok(1) [OF ok wv this run [unfolded buf(2)] refl] obtain d w where
    w: "log_ok (append_last segs batch) [] st" "st = (sys_store s)\<lparr>st_dir := d, writer := w\<rparr>" by blast
  have "log_inv opts (append_last segs batch) (sys_emit st (IoPublish batch) [] s)"
    using inv w buf(1) pc suffix_append_last [OF ne, of batch] length_append_last [OF ne, of batch]
    by (simp add: sys_inv_def log_inv_def Let_def)
  moreover have "spec_step (abs_of segs s) (abs_of (append_last segs batch) (sys_emit st (IoPublish batch) [] s))"
    using spec_commit [of "abs_of segs s" batch "queue (sys_store s)"] pc w(2) ne
    by (simp add: abs_of_def append_last_facts all_records_append_last)
  ultimately show ?thesis by (auto simp: step_ok_def)
qed

lemma log_fails_step_ok:
  assumes inv: "sys_inv opts segs s" and pc: "sys_pc s = IoLog batch buffer" and wv: "whole_writes wv"
    and run: "write_batch_log wv batch buffer (sys_store s) = (Some e, st)"
  shows "step_ok opts segs s (sys_emit st (IoCrashed e batch) [] s)"
proof -
  have ok: "log_ok segs batch (sys_store s)" using sys_invD(2) [OF inv] pc by simp
  have q: "queue_ok (sw_next_offset (writer (sys_store s))) batch (sys_store s)" using sys_invD(3) [OF inv] pc by simp
  have buf: "buffer = encode_records batch" using sys_invD(5) [OF inv] pc by simp
  have "st = sys_store s"
    using write_batch_log_ok(2) [OF ok wv _ _ _ run [unfolded buf]] q by (simp add: queue_ok_def)
  then show ?thesis using inv pc
    by (intro step_ok_stutter [of _ segs]) (simp_all add: sys_inv_def log_inv_def Let_def abs_of_def)
qed

lemma flush_step_ok:
  assumes inv: "sys_inv opts segs s" and pc: "sys_pc s = IoRotate batch" and due: "\<not> rotation_due (sys_store s)"
    and run: "flush_policy now (length batch) (sys_store s) = (st, evs)"
  shows "step_ok opts segs s (sys_emit st IoTake evs s)"
proof -
  let ?st = "sys_store s"
  have ok: "log_ok segs [] ?st" using sys_invD(2) [OF inv] pc by simp
  then obtain pre b rs where w: "segs = pre @ [(b, rs)]"
    "sw_bytes_written (writer ?st) = of_nat (length (encode_records rs))" by (rule log_ok_lastE)
  have "length (encode_records rs) < 2 ^ 62"
    using ok w(1) seg_files_ok_length [of "st_dir ?st" "[]" "(b, rs)"] by (simp add: log_ok_def)
  then have "length (encode_records rs) < 2 ^ 61"
    using due w(2) by (simp add: rotation_due_def LOG_SEGMENT_MAX_BYTES_def)
  moreover from flush_policy_frame [OF run] obtain r t where
    "st = ?st\<lparr>records_since_flush := r, last_flush_time := t\<rparr>" by blast
  ultimately show ?thesis using inv pc w(1)
    by (intro step_ok_stutter [of _ segs]) (simp_all add: sys_inv_def log_inv_def Let_def abs_of_def)
qed

lemma seal_step_ok:
  assumes inv: "sys_inv opts segs s" and pc: "sys_pc s = IoRotate batch" and run: "seal_segment (sys_store s) = (st, evs)"
  shows "step_ok opts segs s (sys_emit st IoReopen evs s)"
proof -
  have st: "st = fst (seal_segment (sys_store s))" using run by simp
  have ok: "log_ok segs [] (sys_store s)" using sys_invD(2) [OF inv] pc by simp
  have ne: "snd (last segs) \<noteq> []" using sys_invD(5) [OF inv] pc by (auto simp: suffix_def)
  have len: "length segs = Suc (length (sealed_segments (sys_store s)))" using sys_invD(6) [OF inv] pc by simp
  have "options st = opts" "queue st = queue (sys_store s)"
    using seal_segment_frame [OF run] sys_invD(1) [OF inv] by auto
  then show ?thesis using seal_segment_ok [OF ok len] ne pc st
    by (intro step_ok_stutter [of _ segs]) (simp_all add: log_inv_def Let_def abs_of_def)
qed

lemma reopen_step_ok:
  assumes inv: "sys_inv opts segs s" and pc: "sys_pc s = IoReopen"
  shows "step_ok opts segs s (sys_emit (open_segment now (sys_store s)) IoTake [] s)"
proof -
  let ?st = "open_segment now (sys_store s)" and ?segs = "segs @ [(sw_next_offset (writer (sys_store s)), [])]"
  have ok: "log_ok segs [] (sys_store s)" using sys_invD(2) [OF inv] pc by simp
  have len: "length (sealed_segments (sys_store s)) = length segs" using sys_invD(6) [OF inv] pc by simp
  have ne: "snd (last segs) \<noteq> []" using sys_invD(5) [OF inv] pc by simp
  have "segs \<noteq> []" using ok by (simp add: log_ok_def)
  moreover have "options ?st = opts" "queue ?st = queue (sys_store s)"
    "sealed_segments ?st = sealed_segments (sys_store s)"
    using open_segment_frame [of now "sys_store s"] sys_invD(1) [OF inv] by auto
  ultimately show ?thesis using open_segment_ok [OF ok ne len, of now] len pc
    by (intro step_ok_stutter [of _ ?segs]) (simp_all add: log_inv_def Let_def abs_of_def hd_append)
qed

lemma io_step_ok:
  assumes step: "io_step whole_writes Q s s'" and inv: "sys_inv opts segs s" and opts: "max_batch_bytes opts < 2 ^ 60"
  shows "step_ok opts segs s s'"
  using step
proof cases
  case (take_some os batch st)
  then show ?thesis using take_step_ok [OF inv opts] by simp
next
  case (take_none os st)
  then show ?thesis using inv take_none_same [of os "sys_store s" st]
    by (intro step_ok_stutter [of _ segs]) (simp_all add: sys_inv_def log_inv_def Let_def abs_of_def)
next
  case (index batch cmd rest pos buffer wv d)
  then show ?thesis using index_step_ok [OF inv _ _ index(4)] by simp
next
  case (index_fails batch cmd rest pos buffer wv d)
  then show ?thesis using index_step_ok [OF inv _ _ index_fails(4)] by simp
next
  case (index_done batch pos buffer)
  then show ?thesis using inv
    by (intro step_ok_stutter [of _ segs]) (simp_all add: sys_inv_def log_inv_def Let_def abs_of_def)
next
  case (log batch buffer wv st)
  then show ?thesis using log_step_ok [OF inv] by simp
next
  case (log_fails batch buffer wv e st)
  then show ?thesis using log_fails_step_ok [OF inv] by simp
next
  case (publish batch)
  then show ?thesis using inv
    by (intro step_ok_stutter [of _ segs]) (simp_all add: sys_inv_def log_inv_def Let_def abs_of_def publish_batch_def)
next
  case (fire batch st evs)
  from fire_clears [OF fire(3)] obtain m where "st = (sys_store s)\<lparr>once_callbacks := m\<rparr>" by blast
  then show ?thesis using inv fire(1,2)
    by (intro step_ok_stutter [of _ segs]) (simp_all add: sys_inv_def log_inv_def Let_def abs_of_def)
next
  case (notify batch)
  then show ?thesis using inv
    by (intro step_ok_stutter [of _ segs]) (simp_all add: sys_inv_def log_inv_def Let_def abs_of_def)
next
  case (flush batch now st evs)
  then show ?thesis using flush_step_ok [OF inv] by simp
next
  case (seal batch st evs)
  then show ?thesis using seal_step_ok [OF inv] by simp
next
  case (reopen now)
  then show ?thesis using reopen_step_ok [OF inv] by simp
qed

lemma sys_step_ok:
  assumes step: "sys_step whole_writes s s'" and inv: "sys_inv opts segs s" and opts: "max_batch_bytes opts < 2 ^ 60"
  obtains segs' where "sys_inv opts segs' s'" "spec_step\<^sup>*\<^sup>* (abs_of segs s) (abs_of segs' s')"
proof -
  have "counters_ok s'" using step sys_invD(8) [OF inv] by (rule sys_counters)
  moreover have "step_ok opts segs s s'"
    using step by cases (use client_step_ok [OF _ inv] io_step_ok [OF _ inv opts] in blast)+
  ultimately show ?thesis using that by (auto simp: step_ok_def sys_inv_def)
qed

lemma boot_inv:
  assumes "log_ok segs [] st" "queue_ok (sw_next_offset (writer st)) [] st" "options st = opts"
    "st_committed_offset st = sw_next_offset (writer st)" "once_callbacks st = []"
    "length (encode_records (snd (last segs))) < 2 ^ 61" "length segs = Suc (length (sealed_segments st))"
  shows "sys_inv opts segs (boot st)"
  using assms boot_counters [of st] by (simp add: sys_inv_def log_inv_def boot_def Let_def)

lemma boot_empty_inv:
  assumes "PartitionStore [] opts now = Inr st"
  shows "sys_inv opts [(0, [])] (boot st)"
proof -
  have st: "st = empty_store opts now" using assms by (simp add: PartitionStore_empty_eq)
  have "sw_next_offset (writer st) = 0" "options st = opts" "st_committed_offset st = 0" "once_callbacks st = []"
    "sealed_segments st = []" by (simp_all add: st empty_store_def)
  then show ?thesis unfolding st by (intro boot_inv) (simp_all add: empty_store_ok)
qed

lemma boot_dir_inv:
  assumes "dir_holds segs t d" "length (encode_records (snd (last segs))) < 2 ^ 61"
    "PartitionStore d opts now = Inr st"
  shows "sys_inv opts segs (boot st)"
proof (rule PartitionStore_ok [OF assms(1), of opts now])
  fix st' :: "'a store"
  assume st': "PartitionStore d opts now = Inr st'" "log_ok segs [] st'"
    "queue_ok (sw_next_offset (writer st')) [] st'" "options st' = opts"
    "st_committed_offset st' = sw_next_offset (writer st')" "once_callbacks st' = []"
    "length segs = Suc (length (sealed_segments st'))"
  then have "st' = st" using assms(3) by simp
  with st' assms(2) show ?thesis by (intro boot_inv) simp_all
qed

section \<open>Callbacks and shutdown\<close>

fun called :: "'cb store_event list \<Rightarrow> 'cb list" where
  "called [] = []"
| "called (CallOnce cb # evs) = cb # called evs"
| "called (ev # evs) = called evs"

definition waiting :: "'cb store \<Rightarrow> 'cb list" where
  "waiting st = concat (map snd (once_callbacks st))"

lemma called_append [simp]: "called (xs @ ys) = called xs @ called ys"
  by (induction xs rule: called.induct) simp_all

lemma called_map_CallOnce [simp]: "called (map CallOnce cbs) = cbs"
  by (induction cbs) simp_all

lemma once_insert_waiting:
  "mset (concat (map snd (once_insert m off cb))) = add_mset cb (mset (concat (map snd m)))"
  by (induction m off cb rule: once_insert.induct) auto

lemma filter_waiting:
  "mset (concat (map snd (filter (\<lambda>(off, cbs). off < c) m)))
     + mset (concat (map snd (filter (\<lambda>(off, cbs). \<not> off < c) m))) = mset (concat (map snd m))"
  by (induction m) auto

lemma waiting_update [simp]:
  "waiting (st\<lparr>segment_cache := c\<rparr>) = waiting st" "waiting (st\<lparr>st_dir := d\<rparr>) = waiting st"
  "waiting (st\<lparr>writer := w\<rparr>) = waiting st" "waiting (st\<lparr>sealed_segments := sl\<rparr>) = waiting st"
  "waiting (st\<lparr>has_commit_cb := h\<rparr>) = waiting st" "waiting (st\<lparr>shutdown := h\<rparr>) = waiting st"
  "waiting (st\<lparr>last_flush_time := t\<rparr>) = waiting st" "waiting (st\<lparr>records_since_flush := r\<rparr>) = waiting st"
  "waiting (st\<lparr>st_committed_offset := n\<rparr>) = waiting st"
  by (simp_all add: waiting_def)

lemma waiting_same_log: "same_log st st' \<Longrightarrow> waiting st' = waiting st"
  by (simp add: waiting_def same_log_def)

definition callbacks_ok :: "'cb system \<Rightarrow> bool" where
  "callbacks_ok s = (mset (sys_registered s) = mset (called (sys_events s)) + mset (waiting (sys_store s)))"

lemma env_run_same_log: "same_log st (env_run acts st)"
proof (induction acts arbitrary: st)
  case (Cons a acts)
  have "same_log st (env_step a st)"
    by (cases a) (simp_all add: store_append_same_log, simp add: same_log_def request_shutdown_def)
  then show ?case using Cons [of "env_step a st"] by (simp add: env_run_def same_log_trans)
qed (simp add: env_run_def)

lemma pop_front_same_log: "pop_front st = (cmd, st1) \<Longrightarrow> same_log st st1"
  by (auto simp: pop_front_def same_log_def)

lemma take_loop_same_log: "same_log st (snd (take_loop os st batch n))"
proof (induction os st batch n rule: take_loop.induct)
  case (1 st batch n)
  then show ?case by (auto split: prod.splits dest: pop_front_same_log)
next
  case (2 expired acts os st batch n)
  obtain cmd st1 where pop: "pop_front st = (cmd, st1)" by (cases "pop_front st")
  note p = pop_front_same_log [OF pop]
  note env = same_log_trans [OF p env_run_same_log [of st1 acts]]
  show ?case
    using "2.IH"(1) [OF _ pop [symmetric] refl refl] "2.IH"(2) [OF _ pop [symmetric] refl refl]
      same_log_trans [OF p] same_log_trans [OF env] p
    by (simp add: Let_def pop)
qed

lemma take_batch_same_log: "take_batch os st = Some (batch, st') \<Longrightarrow> same_log st st'"
  using take_loop_same_log [of st os "[]" 0] by (auto simp: take_batch_def split: if_splits)

lemma client_callbacks:
  assumes "client_step s s'" "callbacks_ok s"
  shows "callbacks_ok s'"
  using assms(1)
proof cases
  case (append now payload r st)
  then show ?thesis
    using assms(2) waiting_same_log [OF store_append_same_log [of "sys_store s" now payload]] by (simp add: callbacks_ok_def)
next
  case (fetch off n rs st)
  from store_fetch_cache [OF this(2)] obtain c where "st = (sys_store s)\<lparr>segment_cache := c\<rparr>" ..
  then show ?thesis using fetch(1) assms(2) by (simp add: callbacks_ok_def)
next
  case (register off cb st evs)
  then show ?thesis using assms(2)
    by (auto simp: callbacks_ok_def set_once_commit_callback_def waiting_def once_insert_waiting split: if_splits)
qed (use assms(2) in \<open>simp_all add: callbacks_ok_def set_commit_callback_def request_shutdown_def\<close>)

lemma io_callbacks:
  assumes "io_step W Q s s'" "callbacks_ok s"
  shows "callbacks_ok s'"
  using assms(1)
proof cases
  case (take_some os batch st)
  then show ?thesis using assms(2) waiting_same_log [OF take_batch_same_log [of os "sys_store s"]] by (simp add: callbacks_ok_def)
next
  case (take_none os st)
  then show ?thesis using assms(2) waiting_same_log [OF take_batch_same_log [of os "sys_store s"]] by (simp add: callbacks_ok_def)
next
  case (log batch buffer wv st)
  from log(4) obtain d w where "st = (sys_store s)\<lparr>st_dir := d, writer := w\<rparr>" by (rule write_batch_log_result)
  then show ?thesis using assms(2) log(1) by (simp add: callbacks_ok_def)
next
  case (log_fails batch buffer wv e st)
  from log_fails(4) obtain d w where "st = (sys_store s)\<lparr>st_dir := d, writer := w\<rparr>" by (rule write_batch_log_result)
  then show ?thesis using assms(2) log_fails(1) by (simp add: callbacks_ok_def)
next
  case (fire batch st evs)
  then show ?thesis
    using assms(2) filter_waiting [of "st_committed_offset (sys_store s)" "once_callbacks (sys_store s)"]
    by (auto simp: callbacks_ok_def fire_once_callbacks_def waiting_def Let_def)
next
  case (flush batch now st evs)
  then show ?thesis using assms(2) by (auto simp: callbacks_ok_def flush_policy_def Let_def split: if_splits)
next
  case (seal batch st evs)
  then show ?thesis using assms(2) by (auto simp: callbacks_ok_def seal_segment_def Let_def)
next
  case (reopen now)
  from open_segment_frame [of now "sys_store s"] obtain d w where
    "open_segment now (sys_store s) = (sys_store s)\<lparr>writer := w, st_dir := d, records_since_flush := 0, last_flush_time := now\<rparr>"
    by blast
  then show ?thesis using assms(2) reopen(1) by (simp add: callbacks_ok_def)
qed (use assms(2) in \<open>simp_all add: callbacks_ok_def publish_batch_def commit_callback_def\<close>)

lemma callbacks_ok_step: "sys_step W s s' \<Longrightarrow> callbacks_ok s \<Longrightarrow> callbacks_ok s'"
  by (erule sys_step.cases) (simp_all add: client_callbacks io_callbacks)

lemma callbacks_ok_reachable: "reachable opts s \<Longrightarrow> callbacks_ok s"
proof (induction rule: reachable.induct)
  case (start d now st)
  then show ?case using PartitionStore_fresh(5) [OF start] by (simp add: callbacks_ok_def boot_def waiting_def)
qed (rule callbacks_ok_step)

definition done_ok :: "'cb system \<Rightarrow> bool" where
  "done_ok s = (sys_pc s = IoDone \<longrightarrow> queue (sys_store s) = [] \<and> shutdown (sys_store s))"

lemma client_done:
  assumes "client_step s s'" "done_ok s"
  shows "done_ok s'"
  using assms(1)
proof cases
  case (fetch off n rs st)
  from store_fetch_cache [OF this(2)] fetch(1) assms(2) show ?thesis by (auto simp: done_ok_def)
qed (use assms(2) in \<open>auto simp: done_ok_def store_append_def set_once_commit_callback_def
    set_commit_callback_def request_shutdown_def split: if_splits\<close>)

lemma io_done: "io_step W Q s s' \<Longrightarrow> done_ok s'"
  by (erule io_step.cases) (auto simp: done_ok_def dest: take_none_same)

lemma done_ok_reachable: "reachable opts s \<Longrightarrow> done_ok s"
proof (induction rule: reachable.induct)
  case (step s s')
  from step(2) show ?case by cases (use step(3) client_done io_done in blast)+
qed (simp add: done_ok_def boot_def)

end
