(* ===== verification/Fell_Store_Progress.thy ===== *)
theory Fell_Store_Progress
  imports Fell_Store_System
begin

text \<open>
  The I/O thread on its own. \<open>io_round\<close>, the loop body as one function, is a run of the
  transition system. Left alone with writes that succeed, the thread comes to rest after finitely many steps, and
  only when everything that was queued is in the log and committed.
\<close>

section \<open>Definitions\<close>

text \<open>The running system \<open>s\<close> stands for the abstract log \<open>a\<close>.\<close>

definition partition_rel :: "storage_options \<Rightarrow> 'cb system \<Rightarrow> spec_log \<Rightarrow> bool" where
  "partition_rel opts s a = (\<exists>segs. sys_inv opts segs s \<and> a = abs_of segs s)"

definition full_writes :: "writev \<Rightarrow> bool" where
  "full_writes wv = (\<forall>f b. wv f b = int (length b))"

definition good_writev :: writev where
  "good_writev f b = int (length b)"

text \<open>No other thread does anything while the I/O thread waits.\<close>

definition quiet :: "(bool \<times> env_action list) list \<Rightarrow> bool" where
  "quiet os = (\<forall>(expired, acts) \<in> set os. acts = [])"

text \<open>A step of the I/O thread while all other threads stand still and every write succeeds.\<close>

definition io_alone :: "'cb system \<Rightarrow> 'cb system \<Rightarrow> bool" where
  "io_alone s s' = io_step full_writes quiet s s'"

fun io_running :: "io_pc \<Rightarrow> bool" where
  "io_running IoDone = False"
| "io_running (IoCrashed e batch) = False"
| "io_running _ = True"

text \<open>An upper bound for the steps the thread can still take on its own.\<close>

fun io_rank :: "io_pc \<Rightarrow> nat" where
  "io_rank (IoIndex batch rest pos buffer) = 9 + length rest"
| "io_rank (IoLog batch buffer) = 8"
| "io_rank (IoPublish batch) = 7"
| "io_rank (IoFire batch) = 6"
| "io_rank (IoNotify batch) = 5"
| "io_rank (IoRotate batch) = 4"
| "io_rank IoReopen = 3"
| "io_rank IoTake = 2"
| "io_rank IoDone = 1"
| "io_rank (IoCrashed e batch) = 0"

definition io_work :: "'cb system \<Rightarrow> nat" where
  "io_work s = 9 * length (queue (sys_store s)) + io_rank (sys_pc s)"

text \<open>Rounds until the queue is empty, each with an expired deadline and successful writes.\<close>

fun io_rounds :: "nat \<Rightarrow> 'cb store \<Rightarrow> 'cb store_event list \<times> 'cb store" where
  "io_rounds 0 st = ([], st)"
| "io_rounds (Suc k) st =
     (if queue st = [] then ([], st)
      else case io_round [] good_writev 0 st of
             Some (Inr (_, evs, st1)) \<Rightarrow> (case io_rounds k st1 of (evs', st2) \<Rightarrow> (evs @ evs', st2))
           | _ \<Rightarrow> ([], st))"

definition io_drain :: "'cb store \<Rightarrow> 'cb store_event list \<times> 'cb store" where
  "io_drain st = io_rounds (length (queue st)) st"

section \<open>The abstract log of a running store\<close>

lemma committed_le_next:
  assumes inv: "sys_inv opts segs s" and j: "j \<le> length (unwritten (sys_pc s))"
  shows "st_committed_offset (sys_store s) \<le> sw_next_offset (writer (sys_store s)) + of_nat j"
proof -
  let ?n = "sw_next_offset (writer (sys_store s))" and ?m = "length (unpublished (sys_pc s))"
  from sys_invD(2) [OF inv] obtain pre b rs where w: "segs = pre @ [(b, rs)]" "?n = b + of_nat (length rs)"
    "unat b + length rs < 2 ^ 64" by (rule log_ok_lastE)
  have "?m \<le> length rs"
    using sys_invD(5) [OF inv] w(1) by (cases "sys_pc s") (auto simp: suffix_length_le)
  then have m: "?m \<le> unat ?n" using sw_next_offset_unat [OF w(2,3)] by simp
  have "unat ?n + j < 2 ^ 64" using sys_invD(3) [OF inv] j by (simp add: queue_ok_def)
  then have sum: "unat (?n + of_nat j) = unat ?n + j" by (rule unat_add_u64)
  have "of_nat (unat ?n - ?m) + of_nat ?m = ?n" using m by (simp flip: of_nat_add)
  then have "st_committed_offset (sys_store s) = of_nat (unat ?n - ?m)"
    using sys_invD(4) [OF inv] by (metis add_right_cancel)
  moreover have "unat ?n - ?m < 2 ^ 64" using unat_lt_u64 [of ?n] by linarith
  ultimately have "unat (st_committed_offset (sys_store s)) = unat ?n - ?m" by (simp only: unat_of_nat_u64)
  then show ?thesis using sum by (simp add: word_le_nat_alt)
qed

lemma partition_rel_empty:
  "partition_rel opts (boot (empty_store opts now)) \<lparr>sl_base = 0, sl_log = [], sl_pending = []\<rparr>"
proof -
  have "sys_inv opts [(0, [])] (boot (empty_store opts now))"
    by (rule boot_empty_inv [OF PartitionStore_empty_eq])
  moreover have "abs_of [(0, [])] (boot (empty_store opts now)) = \<lparr>sl_base = 0, sl_log = [], sl_pending = []\<rparr>"
    by (simp add: abs_of_def boot_def empty_store_def)
  ultimately show ?thesis unfolding partition_rel_def by metis
qed

lemma partition_rel_dir:
  assumes "dir_holds segs t d" "length (encode_records (snd (last segs))) < 2 ^ 61" "PartitionStore d opts now = Inr st"
  shows "partition_rel opts (boot st) \<lparr>sl_base = unat (fst (hd segs)), sl_log = all_records segs, sl_pending = []\<rparr>"
  using boot_dir_inv [OF assms] PartitionStore_fresh(1) [OF assms(3)]
  by (auto simp: partition_rel_def abs_of_def boot_def)

lemma partition_rel_step:
  assumes "partition_rel opts s a" "sys_step whole_writes s s'" "max_batch_bytes opts < 2 ^ 60"
  shows "\<exists>a'. partition_rel opts s' a' \<and> spec_step\<^sup>*\<^sup>* a a'"
proof -
  from assms(1) obtain segs where inv: "sys_inv opts segs s" "a = abs_of segs s" by (auto simp: partition_rel_def)
  from sys_step_ok [OF assms(2) inv(1) assms(3)] obtain segs' where
    "sys_inv opts segs' s'" "spec_step\<^sup>*\<^sup>* (abs_of segs s) (abs_of segs' s')" .
  then show ?thesis using inv(2) by (auto simp: partition_rel_def)
qed

lemma spec_steps_grow:
  "spec_step\<^sup>*\<^sup>* a a' \<Longrightarrow> sl_base a' = sl_base a \<and> prefix (sl_log a @ sl_pending a) (sl_log a' @ sl_pending a')"
proof (induction rule: rtranclp_induct)
  case (step y z)
  from step(2) have "sl_base z = sl_base y \<and> prefix (sl_log y @ sl_pending y) (sl_log z @ sl_pending z)"
    by cases simp_all
  with step(3) show ?case using prefix_order.trans by auto
qed simp

lemma partition_rel_steps:
  assumes "(sys_step whole_writes)\<^sup>*\<^sup>* s s'" "partition_rel opts s a" "max_batch_bytes opts < 2 ^ 60"
  shows "\<exists>a'. partition_rel opts s' a' \<and> spec_step\<^sup>*\<^sup>* a a'"
  using assms(1)
proof (induction rule: rtranclp_induct)
  case base
  then show ?case using assms(2) by auto
next
  case (step y z)
  then obtain b where "partition_rel opts y b" "spec_step\<^sup>*\<^sup>* a b" by blast
  with partition_rel_step [OF this(1) step(2) assms(3)] show ?case by (meson rtranclp_trans)
qed

lemma partition_rel_next:
  assumes "partition_rel opts s a"
  shows "unat (st_next_offset (sys_store s)) = sl_base a + length (sl_log a @ sl_pending a)"
    "sl_pending a = unwritten (sys_pc s) @ queue (sys_store s)"
proof -
  from assms obtain segs where inv: "sys_inv opts segs s" and a: "a = abs_of segs s" by (auto simp: partition_rel_def)
  from sys_invD(2) [OF inv] obtain pre b rs where w: "segs = pre @ [(b, rs)]"
    "sw_next_offset (writer (sys_store s)) = b + of_nat (length rs)" "unat b + length rs < 2 ^ 64" by (rule log_ok_lastE)
  have "seg_chain (unat (fst (hd segs))) segs" using sys_invD(2) [OF inv] by (simp add: log_ok_def)
  from seg_chain_end [OF this [unfolded w(1)]] have "unat (fst (hd segs)) + length (all_records segs) = unat b + length rs"
    using w(1) by simp
  then show "unat (st_next_offset (sys_store s)) = sl_base a + length (sl_log a @ sl_pending a)"
    using queue_ok_next [OF sys_invD(3) [OF inv]] sw_next_offset_unat [OF w(2,3)] by (simp add: a abs_of_def)
  show "sl_pending a = unwritten (sys_pc s) @ queue (sys_store s)" by (simp add: a abs_of_def)
qed

section \<open>Rounds are runs\<close>

lemma good_writev_full: "full_writes good_writev"
  by (simp add: full_writes_def good_writev_def)

lemma io_step_mono:
  assumes "io_step W Q s s'" "\<And>wv. W wv \<Longrightarrow> W' wv" "\<And>os. Q os \<Longrightarrow> Q' os"
  shows "io_step W' Q' s s'"
  using assms(1) by cases (use assms(2,3) in \<open>blast intro: io_step.intros\<close>)+

lemma io_alone_sys: "io_alone s s' \<Longrightarrow> sys_step whole_writes s s'"
  unfolding io_alone_def by (rule sys_step.io) (auto elim!: io_step_mono simp: full_writes_def whole_writes_def)

lemma io_alone_runs: "io_alone\<^sup>*\<^sup>* s s' \<Longrightarrow> (sys_step whole_writes)\<^sup>*\<^sup>* s s'"
  by (induction rule: rtranclp_induct) (auto dest: io_alone_sys)

lemma index_steps:
  assumes "write_index_entries wv (writer (sys_store s)) rest pos buffer (st_dir (sys_store s)) = ((None, buf), d)"
    and "W wv" "sys_pc s = IoIndex batch rest pos buffer"
  shows "(io_step W Q)\<^sup>*\<^sup>* s (sys_emit ((sys_store s)\<lparr>st_dir := d\<rparr>) (IoLog batch buf) [] s)"
  using assms(1,3)
proof (induction rest arbitrary: s pos buffer)
  case Nil
  have "io_step W Q s (sys_emit (sys_store s) (IoLog batch buffer) [] s)" using Nil(2) by (rule index_done)
  then show ?case using Nil(1) by (auto simp: sys_emit_def)
next
  case (Cons cmd rest)
  let ?w = "writer (sys_store s)" and ?pos = "next_file_pos pos cmd" and ?buf = "buffer @ encode_record cmd"
  obtain d1 where 1: "write_index_entry wv ?w cmd pos (st_dir (sys_store s)) = (True, d1)"
    "write_index_entries wv ?w rest ?pos ?buf d1 = ((None, buf), d)"
    using Cons.prems(1) by (auto split: prod.splits if_splits)
  let ?s = "sys_emit ((sys_store s)\<lparr>st_dir := d1\<rparr>) (IoIndex batch rest ?pos ?buf) [] s"
  have "io_step W Q s ?s" using Cons.prems(2) assms(2) 1(1) by (rule index)
  moreover have "(io_step W Q)\<^sup>*\<^sup>* ?s (sys_emit ((sys_store ?s)\<lparr>st_dir := d\<rparr>) (IoLog batch buf) [] ?s)"
    using 1(2) by (intro Cons.IH) simp_all
  moreover have "sys_emit ((sys_store ?s)\<lparr>st_dir := d\<rparr>) (IoLog batch buf) [] ?s
      = sys_emit ((sys_store s)\<lparr>st_dir := d\<rparr>) (IoLog batch buf) [] s" by (simp add: sys_emit_def)
  ultimately show ?case by (metis converse_rtranclp_into_rtranclp)
qed

lemma sys_emit_twice [simp]: "sys_emit st pc evs (sys_emit st' pc' evs' s) = sys_emit st pc (evs' @ evs) s"
  by (simp add: sys_emit_def)

lemma rotate_steps:
  assumes "sys_pc s = IoRotate batch" "rotate_or_flush now (length batch) (sys_store s) = (st, evs)"
  shows "(io_step W Q)\<^sup>*\<^sup>* s (sys_emit st IoTake evs s)"
proof (cases "rotation_due (sys_store s)")
  case False
  then have "flush_policy now (length batch) (sys_store s) = (st, evs)" using assms(2) by (simp add: rotate_or_flush_def)
  from flush [OF assms(1) False this] show ?thesis by blast
next
  case True
  then obtain st1 where 1: "seal_segment (sys_store s) = (st1, evs)" "st = open_segment now st1"
    using assms(2) by (auto simp: rotate_or_flush_def rotate_def split: prod.splits)
  let ?s1 = "sys_emit st1 IoReopen evs s"
  have "io_step W Q s ?s1" using assms(1) True 1(1) by (rule seal)
  moreover have "io_step W Q ?s1 (sys_emit st IoTake evs s)" using reopen [of ?s1 W Q now] 1(2) by simp
  ultimately show ?thesis by (meson converse_rtranclp_into_rtranclp r_into_rtranclp)
qed

text \<open>A round of \<open>io_loop\<close> that does not throw is a run of the I/O thread, whatever is gathered and however the writes
  go.\<close>

lemma io_round_run:
  assumes "sys_pc s = IoTake" "W wv" "Q os" "oracle_ok os" "unat (st_next_offset (sys_store s)) + oracle_appends os < 2 ^ 64"
    and run: "io_round os wv now (sys_store s) = Some (Inr (goes_on, evs, st'))" "queue (sys_store s) \<noteq> []"
  shows "(io_step W Q)\<^sup>*\<^sup>* s (sys_emit st' IoTake evs s)"
proof -
  from run obtain batch st1 where t: "take_batch os (sys_store s) = Some (batch, st1)" "batch \<noteq> []"
    using take_none_same [of os "sys_store s"] by (auto simp: io_round_def split: option.splits prod.splits)
  let ?s1 = "sys_emit st1 (IoIndex batch batch (sw_bytes_written (writer st1)) []) [] s"
  have 1: "io_step W Q s ?s1" using assms(1,3-5) t by (rule take_some)
  from run(1) t obtain buf st2 st3 where w: "write_batch_index wv batch st1 = ((None, buf), st2)"
    "write_batch_log wv batch buf st2 = (None, st3)" "write_batch wv batch st1 = ((None, batch), publish_batch batch st3)"
    by (auto simp: io_round_def write_batch_def split: option.splits prod.splits if_splits)
  let ?s2 = "sys_emit st2 (IoLog batch buf) [] s" and ?s3 = "sys_emit st3 (IoPublish batch) [] s"
  let ?st4 = "publish_batch batch st3" and ?s4 = "sys_emit (publish_batch batch st3) (IoFire batch) [] s"
  obtain d where "write_index_entries wv (writer st1) batch (sw_bytes_written (writer st1)) [] (st_dir st1) = ((None, buf), d)"
    "st2 = st1\<lparr>st_dir := d\<rparr>" using w(1) by (auto simp: write_batch_index_def split: prod.splits)
  then have 2: "(io_step W Q)\<^sup>*\<^sup>* ?s1 ?s2" using index_steps [of wv ?s1 batch _ "[]" buf d W batch Q] assms(2) by simp
  have 3: "io_step W Q ?s2 ?s3" using log [of ?s2 batch buf W wv st3 Q] assms(2) w(2) by simp
  have 4: "io_step W Q ?s3 ?s4" using publish [of ?s3 batch W Q] by simp
  obtain st5 evs5 where f: "fire_once_callbacks (st_committed_offset ?st4) ?st4 = (st5, evs5)" by fastforce
  let ?s5 = "sys_emit st5 (IoNotify batch) evs5 s" and ?s6 = "sys_emit st5 (IoRotate batch) (evs5 @ commit_callback batch st5) s"
  have 5: "io_step W Q ?s4 ?s5" using fire [of ?s4 batch st5 evs5 W Q] f by simp
  have 6: "io_step W Q ?s5 ?s6" using notify [of ?s5 batch W Q] by simp
  obtain evs7 where r: "rotate_or_flush now (length batch) st5 = (st', evs7)" "evs = evs5 @ commit_callback batch st5 @ evs7"
    using run(1) t w(3) f by (auto simp: io_round_def split: prod.splits)
  then have "(io_step W Q)\<^sup>*\<^sup>* ?s6 (sys_emit st' IoTake evs s)"
    using rotate_steps [of ?s6 batch now st' evs7 W Q] by simp
  with 1 2 3 4 5 6 show ?thesis by (meson rtranclp_trans r_into_rtranclp)
qed

lemma good_index: "fst (fst (write_index_entries good_writev w batch pos buffer d)) = None"
proof (induction batch arbitrary: pos buffer d)
  case (Cons cmd batch)
  then show ?case
    by (simp add: write_index_entry_def Let_def good_writev_def write_file_vec_one split: prod.splits)
qed simp

text \<open>What the later stages of a round leave alone.\<close>

definition same_queue :: "'cb store \<Rightarrow> 'cb store \<Rightarrow> bool" where
  "same_queue st st' = (queue st' = queue st \<and> st_next_offset st' = st_next_offset st \<and> shutdown st' = shutdown st
     \<and> set (once_callbacks st') \<subseteq> set (once_callbacks st))"

lemma same_queue_trans: "same_queue st1 st2 \<Longrightarrow> same_queue st2 st3 \<Longrightarrow> same_queue st1 st3"
  by (auto simp: same_queue_def)

lemma io_round_first:
  assumes "queue st = cmd # rest"
  shows "\<exists>evs st'. io_round [] good_writev now st = Some (Inr (True, evs, st')) \<and> queue st' = rest
     \<and> st_next_offset st' = st_next_offset st \<and> shutdown st' = shutdown st
     \<and> set (once_callbacks st') \<subseteq> set (once_callbacks st)"
proof -
  obtain st1 where st1: "pop_front st = (cmd, st1)" "queue st1 = rest" "st_next_offset st1 = st_next_offset st"
    "shutdown st1 = shutdown st" "once_callbacks st1 = once_callbacks st"
    using assms by (simp add: pop_front_def)
  have t: "take_batch [] st = Some ([cmd], st1)" using assms st1(1) by (simp add: take_batch_def)
  obtain res buf st2 where i: "write_batch_index good_writev [cmd] st1 = ((res, buf), st2)" by (metis prod.exhaust)
  have st2: "res = None" "same_queue st1 st2"
    using i good_index [of "writer st1" "[cmd]" "sw_bytes_written (writer st1)" "[]" "st_dir st1"]
    by (auto simp: write_batch_index_def same_queue_def split: prod.splits)
  obtain st3 where st3: "write_batch_log good_writev [cmd] buf st2 = (None, st3)" "same_queue st2 st3"
    by (simp add: write_batch_log_def good_writev_def write_file_vec_one same_queue_def Let_def)
  let ?st4 = "publish_batch [cmd] st3"
  have q4: "same_queue st3 ?st4" by (simp add: publish_batch_def same_queue_def)
  obtain st5 evs5 where st5: "fire_once_callbacks (st_committed_offset ?st4) ?st4 = (st5, evs5)" "same_queue ?st4 st5"
    by (simp add: fire_once_callbacks_def same_queue_def Let_def)
  obtain st7 evs7 where st7: "rotate_or_flush now (length [cmd]) st5 = (st7, evs7)" by (metis prod.exhaust)
  have q7: "same_queue st5 st7"
    using st7 by (auto simp: rotate_or_flush_def rotate_def seal_segment_def open_segment_def flush_policy_def
        same_queue_def SegmentWriter_def Let_def split: if_splits)
  have "io_round [] good_writev now st = Some (Inr (True, evs5 @ commit_callback [cmd] st5 @ evs7, st7))"
    using i st2(1) st3(1) st5(1) st7 by (simp add: io_round_def t write_batch_def)
  moreover have "same_queue st1 st7" using st2(2) st3(2) q4 st5(2) q7 same_queue_trans by metis
  ultimately show ?thesis using st1(2-5) by (auto simp: same_queue_def)
qed

lemma sys_emit_nothing: "sys_pc s = IoTake \<Longrightarrow> sys_emit (sys_store s) IoTake [] s = s"
  by (cases s) (simp add: sys_emit_def)

lemma io_rounds_steps:
  assumes "sys_pc s = IoTake" "length (queue (sys_store s)) \<le> k" "io_rounds k (sys_store s) = (evs, st')"
  shows "io_alone\<^sup>*\<^sup>* s (sys_emit st' IoTake evs s) \<and> queue st' = []
     \<and> st_next_offset st' = st_next_offset (sys_store s) \<and> shutdown st' = shutdown (sys_store s)
     \<and> set (once_callbacks st') \<subseteq> set (once_callbacks (sys_store s))"
  using assms
proof (induction k arbitrary: s evs)
  case 0
  then show ?case by (auto simp: sys_emit_nothing)
next
  case (Suc k)
  show ?case
  proof (cases "queue (sys_store s)")
    case Nil
    then show ?thesis using Suc.prems by (auto simp: sys_emit_nothing)
  next
    case (Cons cmd rest)
    from io_round_first [OF Cons, of 0] obtain evs1 st1 where
      r: "io_round [] good_writev 0 (sys_store s) = Some (Inr (True, evs1, st1))"
        "queue st1 = rest" "st_next_offset st1 = st_next_offset (sys_store s)" "shutdown st1 = shutdown (sys_store s)"
        "set (once_callbacks st1) \<subseteq> set (once_callbacks (sys_store s))" by blast
    have run: "io_alone\<^sup>*\<^sup>* s (sys_emit st1 IoTake evs1 s)"
      using io_round_run [where W = full_writes and Q = quiet, OF Suc.prems(1) good_writev_full _ _ _ r(1)] Cons unat_lt_u64
      by (simp add: io_alone_def [abs_def] quiet_def)
    obtain evs2 where e: "io_rounds k st1 = (evs2, st')" "evs = evs1 @ evs2"
      using Suc.prems(3) Cons r(1) by (auto split: prod.splits)
    have "io_alone\<^sup>*\<^sup>* (sys_emit st1 IoTake evs1 s) (sys_emit st' IoTake evs s) \<and> queue st' = []
       \<and> st_next_offset st' = st_next_offset st1 \<and> shutdown st' = shutdown st1 \<and> set (once_callbacks st') \<subseteq> set (once_callbacks st1)"
      using Suc.IH [of "sys_emit st1 IoTake evs1 s" evs2] Suc.prems(2) Cons r(2) e by simp
    then show ?thesis using run r(3-5) by (metis rtranclp_trans subset_trans)
  qed
qed

section \<open>The thread left alone\<close>

lemma quiet_take_loop:
  assumes "quiet os" "take_loop os st batch n = (batch', st')"
  shows "batch' @ queue st' = batch @ queue st \<and> st_next_offset st' = st_next_offset st \<and> shutdown st' = shutdown st"
  using assms
proof (induction os st batch n rule: take_loop.induct)
  case (1 st batch n)
  then show ?case by (auto simp: pop_front_def split: if_splits)
next
  case (2 expired acts os st batch n)
  show ?case
  proof (cases "queue st")
    case Nil
    then show ?thesis using "2.prems" by simp
  next
    case (Cons cmd rest)
    obtain st1 where pop: "pop_front st = (cmd, st1)" "queue st1 = rest" "st_next_offset st1 = st_next_offset st"
      "shutdown st1 = shutdown st" using Cons by (simp add: pop_front_def)
    have q: "acts = []" "quiet os" using "2.prems"(1) by (auto simp: quiet_def)
    then have env: "env_run acts st1 = st1" by (simp add: env_run_def)
    show ?thesis
      using "2.IH"(1) [OF _ pop(1) [symmetric] refl refl] "2.IH"(2) [OF _ pop(1) [symmetric] refl refl] "2.prems"(2)
        Cons pop env q(2) by (auto simp: Let_def split: if_splits)
  qed
qed

lemma quiet_take:
  assumes "quiet os" "take_batch os st = Some (batch, st')"
  shows "queue st = batch @ queue st'" "st_next_offset st' = st_next_offset st" "shutdown st' = shutdown st"
  using assms quiet_take_loop [OF assms(1), of st "[]" 0] by (auto simp: take_batch_def split: if_splits)

lemma full_writes_succeed:
  assumes "full_writes wv"
  shows "fst (write_index_entry wv w cmd pos d)" "fst (write_batch_log wv batch buffer st) = None"
  using assms by (simp_all add: full_writes_def write_index_entry_def write_batch_log_def write_file_vec_one Let_def)

lemma io_alone_step:
  assumes "io_alone s s'" "io_running (sys_pc s)"
  shows "io_work s' < io_work s" "st_next_offset (sys_store s') = st_next_offset (sys_store s)"
    "io_running (sys_pc s') \<or> sys_pc s' = IoDone \<and> queue (sys_store s') = []"
proof -
  from assms(1) have "io_work s' < io_work s \<and> st_next_offset (sys_store s') = st_next_offset (sys_store s)
     \<and> (io_running (sys_pc s') \<or> sys_pc s' = IoDone \<and> queue (sys_store s') = [])"
    unfolding io_alone_def
  proof cases
    case (take_some os batch st)
    obtain n where "length batch = Suc n" using take_some(7) by (cases batch) simp_all
    then show ?thesis using quiet_take [OF take_some(3,6)] take_some(1,2) by (simp add: io_work_def)
  next
    case (take_none os st)
    then show ?thesis using take_none_same [OF take_none(3)] by (simp add: io_work_def)
  next
    case (index_fails batch cmd rest pos buffer wv d)
    then show ?thesis using full_writes_succeed(1) by (metis fst_conv)
  next
    case (log batch buffer wv st)
    obtain d w where "st = (sys_store s)\<lparr>st_dir := d, writer := w\<rparr>" using log(4) by (rule write_batch_log_result)
    then show ?thesis using log by (simp add: io_work_def)
  next
    case (log_fails batch buffer wv e st)
    then show ?thesis using full_writes_succeed(2) by (metis fst_conv option.distinct(1))
  next
    case (fire batch st evs)
    then show ?thesis using fire_clears [OF fire(3)] by (auto simp: io_work_def)
  next
    case (flush batch now st evs)
    then show ?thesis using flush_policy_frame [OF flush(4)] by (auto simp: io_work_def)
  next
    case (seal batch st evs)
    then show ?thesis using seal_segment_frame [OF seal(4)] by (auto simp: io_work_def)
  next
    case (reopen now)
    then show ?thesis using open_segment_frame [of now "sys_store s"] by (auto simp: io_work_def)
  qed (simp_all add: io_work_def publish_batch_def)
  then show "io_work s' < io_work s" "st_next_offset (sys_store s') = st_next_offset (sys_store s)"
    "io_running (sys_pc s') \<or> sys_pc s' = IoDone \<and> queue (sys_store s') = []" by blast+
qed

lemma io_done_stuck: "io_alone s s' \<Longrightarrow> sys_pc s \<noteq> IoDone \<and> (\<forall>e batch. sys_pc s \<noteq> IoCrashed e batch)"
  unfolding io_alone_def by (erule io_step.cases) simp_all

text \<open>The thread can go on unless it has ended or waits for the first command.\<close>

lemma io_alone_enabled:
  assumes "io_running (sys_pc s)" "sys_pc s = IoTake \<Longrightarrow> queue (sys_store s) \<noteq> [] \<or> shutdown (sys_store s)"
  shows "\<exists>s'. io_alone s s'"
proof (cases "sys_pc s")
  case IoTake
  show ?thesis
  proof (cases "queue (sys_store s)")
    case Nil
    then have "take_batch [] (sys_store s) = Some ([], sys_store s)" "shutdown (sys_store s)"
      using assms(2) IoTake by (simp_all add: take_batch_def)
    then show ?thesis using take_none [OF IoTake] unfolding io_alone_def by blast
  next
    case (Cons cmd rest)
    then obtain st where "take_batch [] (sys_store s) = Some ([cmd], st)" by (simp add: take_batch_def pop_front_def)
    from take_some [OF IoTake _ _ _ this, of quiet full_writes] show ?thesis
      unfolding io_alone_def using unat_lt_u64 by (auto simp: quiet_def)
  qed
next
  case (IoIndex batch rest pos buffer)
  show ?thesis
  proof (cases rest)
    case Nil
    then show ?thesis using index_done IoIndex unfolding io_alone_def by blast
  next
    case (Cons cmd rest')
    then show ?thesis
      using index [OF IoIndex [unfolded Cons], of full_writes good_writev] good_writev_full
        full_writes_succeed(1) [OF good_writev_full, of "writer (sys_store s)" cmd pos "st_dir (sys_store s)"]
      unfolding io_alone_def by (metis prod.collapse)
  qed
next
  case (IoLog batch buffer)
  then show ?thesis
    using log [OF IoLog, of full_writes good_writev] good_writev_full
      full_writes_succeed(2) [OF good_writev_full, of batch buffer "sys_store s"]
    unfolding io_alone_def by (metis prod.collapse)
next
  case (IoRotate batch)
  then show ?thesis using flush [OF IoRotate] seal [OF IoRotate] unfolding io_alone_def by (metis prod.exhaust)
qed (use assms(1) in \<open>auto simp: io_alone_def intro: io_step.publish io_step.notify io_step.reopen\<close>,
    metis io_step.fire prod.exhaust)

lemma io_alone_run:
  assumes "io_alone\<^sup>*\<^sup>* s s'" "io_running (sys_pc s)"
  shows "st_next_offset (sys_store s') = st_next_offset (sys_store s)
     \<and> (io_running (sys_pc s') \<or> sys_pc s' = IoDone \<and> queue (sys_store s') = [])"
  using assms(1)
proof (induction rule: rtranclp_induct)
  case (step y z)
  then have "io_running (sys_pc y)" using io_done_stuck by blast
  then show ?case using io_alone_step(2,3) [OF step(2)] step(3) by simp
qed (simp add: assms(2))

lemma io_alone_bounded:
  "(io_alone ^^ n) s s' \<Longrightarrow> io_running (sys_pc s) \<Longrightarrow> n + io_work s' \<le> io_work s"
proof (induction n arbitrary: s')
  case (Suc n)
  then obtain y where y: "(io_alone ^^ n) s y" "io_alone y s'" by auto
  then have "io_running (sys_pc y)"
    using io_alone_run [of s y] io_done_stuck [OF y(2)] Suc.prems(2) relpowp_imp_rtranclp by metis
  then show ?case using Suc.IH [OF y(1) Suc.prems(2)] io_alone_step(1) [OF y(2)] by simp
qed simp

text \<open>A run of the I/O thread alone that empties the queue has moved exactly the queued records to the log.\<close>

lemma drained_log:
  assumes "partition_rel opts s a" "max_batch_bytes opts < 2 ^ 60" "io_alone\<^sup>*\<^sup>* s s'" "sys_pc s' = IoTake \<or> sys_pc s' = IoDone"
    and "queue (sys_store s') = []" "st_next_offset (sys_store s') = st_next_offset (sys_store s)"
  shows "partition_rel opts s' \<lparr>sl_base = sl_base a, sl_log = sl_log a @ sl_pending a, sl_pending = []\<rparr>"
    "st_committed_offset (sys_store s') = st_next_offset (sys_store s)"
proof -
  from partition_rel_steps [OF io_alone_runs [OF assms(3)] assms(1,2)] obtain a' where
    a': "partition_rel opts s' a'" "spec_step\<^sup>*\<^sup>* a a'" by blast
  note grow = spec_steps_grow [OF a'(2)]
  have pend: "sl_pending a' = []" using partition_rel_next(2) [OF a'(1)] assms(4,5) by auto
  have "length (sl_log a' @ sl_pending a') = length (sl_log a @ sl_pending a)"
    using partition_rel_next(1) [OF a'(1)] partition_rel_next(1) [OF assms(1)] assms(6) grow by simp
  then have "sl_log a' = sl_log a @ sl_pending a" using grow pend by (auto simp: prefix_def)
  then have "a' = \<lparr>sl_base = sl_base a, sl_log = sl_log a @ sl_pending a, sl_pending = []\<rparr>"
    using grow pend by simp
  then show "partition_rel opts s' \<lparr>sl_base = sl_base a, sl_log = sl_log a @ sl_pending a, sl_pending = []\<rparr>"
    using a'(1) by simp
  from a'(1) obtain segs where "sys_inv opts segs s'" by (auto simp: partition_rel_def)
  from sys_invD(3,4) [OF this] assms(4-6) show "st_committed_offset (sys_store s') = st_next_offset (sys_store s)"
    by (auto simp: queue_ok_def)
qed

end
