(* ===== verification/Fell_Store_Properties.thy ===== *)
theory Fell_Store_Properties
  imports Fell_Store_Progress
begin

text \<open>
  What a partition store promises to the broker and what it does not, as theorems about its
  operations and about every reachable state of the running store.
\<close>

section \<open>Definitions\<close>

text \<open>Two short records and a directory that holds one sealed segment and the active one.\<close>

definition rec0 :: log_record where
  "rec0 = \<lparr>rec_offset = 0, rec_timestamp_ms = 5, rec_payload = [10, 11]\<rparr>"

definition rec1 :: log_record where
  "rec1 = \<lparr>rec_offset = 1, rec_timestamp_ms = 6, rec_payload = [12]\<rparr>"

definition two_segments :: dir where
  "two_segments =
     [(log_name 0, encode_records [rec0]), (idx_name 0, encode_index [\<lparr>ie_offset = 0, ie_file_position = 0\<rparr>]),
      (log_name 1, encode_records [rec1]), (idx_name 1, encode_index [\<lparr>ie_offset = 1, ie_file_position = 0\<rparr>])]"

text \<open>What is on disk when the process dies after \<open>k\<close> bytes of the write that is under way, be it the log write
  of a batch or the write of one index entry; at every other point of the thread the files are as they are.\<close>

definition crash_dir :: "nat \<Rightarrow> 'cb system \<Rightarrow> dir" where
  "crash_dir k s =
     (let w = writer (sys_store s); d = st_dir (sys_store s)
      in case sys_pc s of
           IoLog batch buffer \<Rightarrow>
             file_put d (log_name (sw_base_offset w)) (file_contents d (log_name (sw_base_offset w)) @ take k buffer)
         | IoIndex batch (cmd # rest) pos buffer \<Rightarrow>
             if index_due w cmd
             then file_put d (idx_name (sw_base_offset w))
                    (file_contents d (idx_name (sw_base_offset w)) @ take k (index_bytes cmd pos))
             else d
         | _ \<Rightarrow> d)"

text \<open>The number of records that lie completely within the first \<open>k\<close> bytes of a log write.\<close>

fun complete_records :: "nat \<Rightarrow> log_record list \<Rightarrow> nat" where
  "complete_records k [] = 0"
| "complete_records k (r # rs) =
     (if length (encode_record r) \<le> k then Suc (complete_records (k - length (encode_record r)) rs) else 0)"

fun arrived :: "nat \<Rightarrow> io_pc \<Rightarrow> nat" where
  "arrived k (IoLog batch buffer) = complete_records k batch"
| "arrived k _ = 0"

text \<open>What is on disk after this history: record \<open>r0\<close> is written; the index entry of record 128 is
  written at position \<open>pos\<close> with a batch whose log write does not happen; after the restart record
  \<open>r1\<close> is written.\<close>

definition stale_index_dir :: "log_record \<Rightarrow> log_record \<Rightarrow> nat \<Rightarrow> dir" where
  "stale_index_dir r0 r1 pos =
     [(log_name 0, encode_records [r0, r1]),
      (idx_name 0, encode_index [\<lparr>ie_offset = 0, ie_file_position = 0\<rparr>, \<lparr>ie_offset = 128, ie_file_position = of_nat pos\<rparr>])]"

section \<open>Helper lemmas\<close>

lemma complete_records_le: "complete_records k rs \<le> length rs"
  by (induction k rs rule: complete_records.induct) simp_all

lemma take_encode_records:
  assumes "\<forall>r \<in> set rs. wf_record r"
  shows "\<exists>t. take k (encode_records rs) = encode_records (take (complete_records k rs) rs) @ t \<and> incomplete t"
  using assms
proof (induction k rs rule: complete_records.induct)
  case (2 k r rs)
  show ?case
  proof (cases "length (encode_record r) \<le> k")
    case True
    with 2 obtain t where "incomplete t" "take (k - length (encode_record r)) (encode_records rs) =
        encode_records (take (complete_records (k - length (encode_record r)) rs) rs) @ t" by force
    with True show ?thesis by (intro exI [of _ t]) simp
  next
    case False
    then have "incomplete (take k (encode_record r))" using "2.prems" by (intro incomplete_take) simp_all
    then show ?thesis using False by (intro exI [of _ "take k (encode_record r)"]) simp
  qed
qed simp

lemma log_ok_paths:
  assumes "log_ok segs fut st"
  shows "log_paths (st_dir st) = map log_name (map fst segs)"
proof (rule log_paths_segs)
  show "\<forall>seg \<in> set segs. map_of (st_dir st) (log_name (fst seg)) \<noteq> None"
    using assms by (auto simp: log_ok_def seg_files_ok_def)
qed (use assms seg_chain_sorted seg_chain_distinct in \<open>auto simp: log_ok_def\<close>)

text \<open>What a crash leaves: the same files, only the active log file longer by what has arrived.\<close>

lemma crash_dir_files:
  assumes inv: "sys_inv opts segs s" and b: "sw_base_offset (writer (sys_store s)) = b"
  shows "log_paths (crash_dir k s) = map log_name (map fst segs)"
    "x \<noteq> b \<Longrightarrow> file_contents (crash_dir k s) (log_name x) = file_contents (st_dir (sys_store s)) (log_name x)"
    "\<exists>t. file_contents (crash_dir k s) (log_name b) =
       encode_records (snd (last segs) @ take (arrived k (sys_pc s)) (unwritten (sys_pc s))) @ t \<and> incomplete t"
proof -
  let ?st = "sys_store s" and ?d = "st_dir (sys_store s)"
  note ok = sys_invD(2) [OF inv]
  then have seg: "seg_files_ok ?d (unwritten (sys_pc s)) (b, snd (last segs))"
    by (rule log_ok_lastE) (use ok b in \<open>auto simp: log_ok_def\<close>)
  note act = seg_files_okD [OF seg]
  from seg have "map_of ?d (log_name b) \<noteq> None" "map_of ?d (idx_name b) \<noteq> None" by (auto simp: seg_files_ok_def)
  then have mem: "log_name b \<in> fst ` set ?d" "idx_name b \<in> fst ` set ?d" by (simp_all add: map_of_eq_None_iff)
  have paths: "log_paths ?d = map log_name (map fst segs)" using ok by (rule log_ok_paths)
  show "log_paths (crash_dir k s) = map log_name (map fst segs)"
    using mem paths by (simp add: crash_dir_def Let_def b log_paths_file_put split: io_pc.split list.split)
  show "file_contents (crash_dir k s) (log_name x) = file_contents ?d (log_name x)" if "x \<noteq> b"
    using that by (simp add: crash_dir_def Let_def b split: io_pc.split list.split)
  show "\<exists>t. file_contents (crash_dir k s) (log_name b) =
       encode_records (snd (last segs) @ take (arrived k (sys_pc s)) (unwritten (sys_pc s))) @ t \<and> incomplete t"
  proof (cases "sys_pc s")
    case (IoLog batch buffer)
    have "\<forall>r \<in> set batch. wf_record r" using sys_invD(3) [OF inv] IoLog by (simp add: queue_ok_def)
    moreover have "buffer = encode_records batch" using sys_invD(5) [OF inv] IoLog by simp
    ultimately show ?thesis
      using take_encode_records [of batch k] act(1) IoLog by (auto simp: crash_dir_def Let_def b)
  qed (use act(1) in \<open>auto simp: crash_dir_def Let_def b intro!: exI [of _ "[]"] split: list.split\<close>)
qed

lemma encode_all_records: "encode_records (all_records segs) = concat (map (\<lambda>seg. encode_records (snd seg)) segs)"
  by (induction segs) simp_all

lemma arrived_le: "arrived k pc \<le> length (unwritten pc)"
  by (cases pc) (simp_all add: complete_records_le)

lemma crash_dir_recovery:
  assumes inv: "sys_inv opts segs s" and n: "n = arrived k (sys_pc s)"
  obtains rr d where "recover_partition (crash_dir k s) = Inr (rr, d)"
    "rr_next_offset rr = sw_next_offset (writer (sys_store s)) + of_nat n"
    "concat (map (file_contents d) (log_paths d)) = encode_records (all_records segs @ take n (unwritten (sys_pc s)))"
    "\<And>f. f \<noteq> log_name (sw_base_offset (writer (sys_store s))) \<Longrightarrow> map_of d f = map_of (crash_dir k s) f"
proof -
  let ?st = "sys_store s" and ?c = "crash_dir k s" and ?new = "take n (unwritten (sys_pc s))"
  note ok = sys_invD(2) [OF inv]
  from ok obtain pre b rs where w: "segs = pre @ [(b, rs)]" "sw_base_offset (writer ?st) = b"
    "sw_next_offset (writer ?st) = b + of_nat (length rs)" "offsets_from b rs" "b \<notin> fst ` set pre" by (rule log_ok_lastE)
  note files = crash_dir_files [OF inv w(2), where k = k]
  from files(3) w(1) n obtain t where
    c: "file_contents ?c (log_name b) = encode_records (rs @ ?new) @ t" "incomplete t" by auto
  have act: "seg_files_ok (st_dir ?st) (unwritten (sys_pc s)) (b, rs)" using ok w(1) by (auto simp: log_ok_def)
  have q: "offsets_from (sw_next_offset (writer ?st)) (unwritten (sys_pc s))" "\<forall>r \<in> set (unwritten (sys_pc s)). wf_record r"
    using sys_invD(3) [OF inv] by (simp_all add: queue_ok_def)
  have len: "length (encode_records (rs @ ?new) @ t) < 2 ^ 62"
  proof -
    have "length (file_contents ?c (log_name b)) \<le> length (encode_records (rs @ unwritten (sys_pc s)))"
      using seg_files_okD(1) [OF act] sys_invD(5) [OF inv]
      by (auto simp: crash_dir_def Let_def w(2) split: io_pc.split list.split)
    then show ?thesis using seg_files_okD(3) [OF act] unfolding c(1) by linarith
  qed
  have wf: "\<forall>r \<in> set (rs @ ?new). wf_record r" using seg_files_okD(4) [OF act] q(2) by (auto dest: in_set_takeD)
  have "offsets_from (sw_next_offset (writer ?st)) ?new"
    using q(1) offsets_from_append [of _ ?new "drop n (unwritten (sys_pc s))"] by simp
  then have nxt: "next_after b (rs @ ?new) = sw_next_offset (writer ?st) + of_nat n"
    using next_after_contiguous [of b "rs @ ?new"] w(3,4) arrived_le [of k "sys_pc s"] n by (simp add: min_def)
  have last: "log_paths ?c \<noteq> []" "last (log_paths ?c) = log_name b" "stoull (stem (log_name b)) = Inr b"
    using files(1) w(1) by (simp_all add: stoull_segment_stem)
  let ?d = "if t = [] then ?c else file_put ?c (log_name b) (encode_records (rs @ ?new))"
  have "log_name b \<in> fst ` set ?c" using last(1,2) by (metis last_in_set log_paths_mem)
  then have paths: "log_paths ?d = map log_name (map fst pre) @ [log_name b]" using files(1) w(1) by (simp add: log_paths_file_put)
  have "file_contents ?d (log_name (fst seg)) = encode_records (snd seg)" if "seg \<in> set pre" for seg
  proof -
    have "fst seg \<noteq> b" using that w(5) by auto
    moreover have "seg_files_ok (st_dir ?st) [] (fst seg, snd seg)"
      using ok that w(1) calculation by (fastforce simp: log_ok_def)
    ultimately show ?thesis using files(2) [of "fst seg"] seg_files_okD(1) by simp
  qed
  then have "concat (map (file_contents ?d) (log_paths ?d)) = encode_records (all_records pre) @ encode_records (rs @ ?new)"
    using c(1) unfolding paths encode_all_records by (auto simp: comp_def intro!: arg_cong [where f = concat])
  then have whole: "concat (map (file_contents ?d) (log_paths ?d)) = encode_records (all_records segs @ ?new)" using w(1) by simp
  from recover_partition_records [OF last c(1) len wf c(2)] show ?thesis
    by (rule that) (use nxt whole w(2) in simp_all)
qed

subsection \<open>A directory with two segments\<close>

lemma two_segments_holds: "dir_holds [(0, [rec0]), (1, [rec1])] [] two_segments"
proof -
  have wf: "wf_record rec0" "wf_record rec1" by (simp_all add: wf_record_def rec0_def rec1_def)
  have enc: "length (encode_records [rec0]) = 22" "length (encode_records [rec1]) = 21"
    by (simp_all add: rec0_def rec1_def)
  have ok: "entry_ok [r] \<lparr>ie_offset = o', ie_file_position = 0\<rparr>" for r o'
    unfolding entry_ok_def by (intro exI [of _ 0]) simp
  have put: "file_put two_segments (log_name 1) (encode_records [rec1]) = two_segments"
    by (rule file_put_same) (simp add: two_segments_def)
  have "seg_files_ok two_segments [] (0, [rec0])"
    using wf enc ok by (intro seg_files_okI [where es = "[\<lparr>ie_offset = 0, ie_file_position = 0\<rparr>]"])
      (simp_all add: two_segments_def)
  moreover have "seg_files_ok two_segments [] (1, [rec1])"
    using wf enc ok by (intro seg_files_okI [where es = "[\<lparr>ie_offset = 1, ie_file_position = 0\<rparr>]"])
      (simp_all add: two_segments_def)
  moreover have "dir_ok [(0, [rec0]), (1, [rec1])] two_segments"
    by (auto simp: dir_ok_def two_segments_def split: if_splits)
  moreover have "map_of two_segments (log_name 1) = Some (encode_records [rec1])"
    by (simp add: two_segments_def)
  ultimately show ?thesis
    using put enc by (simp add: dir_holds_def rec0_def rec1_def)
qed

lemma two_segments_store:
  obtains st :: "'cb store" where "PartitionStore two_segments opts now = Inr st"
    "partition_rel opts (boot st) \<lparr>sl_base = 0, sl_log = [rec0, rec1], sl_pending = []\<rparr>"
    "sealed_segments st = [(0, log_name 0)]" "sw_base_offset (writer st) = 1" "st_committed_offset st = 2"
proof (rule PartitionStore_ok [OF two_segments_holds, of opts now, where ?'cb = 'cb])
  fix st :: "'cb store"
  assume st: "PartitionStore two_segments opts now = Inr st" "log_ok [(0, [rec0]), (1, [rec1])] [] st" "queue st = []"
    "st_committed_offset st = sw_next_offset (writer st)" "length [(0 :: u64, [rec0]), (1, [rec1])] = Suc (length (sealed_segments st))"
  have "sys_inv opts [(0, [rec0]), (1, [rec1])] (boot st)"
    using two_segments_holds _ st(1) by (rule boot_dir_inv) (simp add: rec1_def)
  moreover have "abs_of [(0, [rec0]), (1, [rec1])] (boot st) = \<lparr>sl_base = 0, sl_log = [rec0, rec1], sl_pending = []\<rparr>"
    using st(3) by (simp add: abs_of_def boot_def)
  ultimately have "partition_rel opts (boot st) \<lparr>sl_base = 0, sl_log = [rec0, rec1], sl_pending = []\<rparr>"
    unfolding partition_rel_def by metis
  moreover have "sealed_ok [(0, [rec0]), (1, [rec1])] st" using st(2) by (simp add: log_ok_def)
  then obtain k where k: "k = length (sealed_segments st)"
    "sealed_segments st = map (\<lambda>(b, rs). (b, log_name b)) (take k [(0, [rec0]), (1, [rec1])])" by (rule sealed_okE)
  have "k = 1" using k(1) st(5) by simp
  then have "sealed_segments st = [(0, log_name 0)]" using k(2) by simp
  ultimately show ?thesis using st(1,2,4) by (intro that [of st]) (simp_all add: log_ok_def writer_ok_def)
qed

subsection \<open>A batch whose log write is under way\<close>

definition rec1b :: log_record where
  "rec1b = \<lparr>rec_offset = 1, rec_timestamp_ms = 5, rec_payload = [12]\<rparr>"

lemma fresh_append:
  "store_append now payload (empty_store default_options t) = (r, st) \<Longrightarrow> length payload \<le> 1000 \<Longrightarrow>
     r = append_ok 0 \<and> st = (empty_store default_options t)\<lparr>last_timestamp_ms := now, ts_counter := 1, st_next_offset := 1,
       pending_bytes := length payload, queue := [\<lparr>rec_offset = 0, rec_timestamp_ms = now, rec_payload = payload\<rparr>]\<rparr>"
  by (auto simp: store_append_def empty_store_def default_options_def get_cached_timestamp_locked_def
      kTimestampRefreshEvery_def Let_def word_le_nat_alt)

text \<open>Two records are appended to a new partition, the I/O thread takes both and writes the index entry of the first.\<close>

lemma log_write_state:
  obtains s :: "'cb system" and a where "partition_rel default_options s a" "sys_pc s = IoLog [rec0, rec1b] (encode_records [rec0, rec1b])"
    "sl_base a = 0" "sl_log a = []" "sl_pending a = [rec0, rec1b]"
proof -
  have opts: "max_batch_bytes default_options < 2 ^ 60" by (simp add: default_options_def)
  let ?e = "empty_store default_options 0 :: 'cb store"
  let ?st1 = "?e\<lparr>last_timestamp_ms := 5, ts_counter := 1, st_next_offset := 1, pending_bytes := 2, queue := [rec0]\<rparr>"
  let ?st2 = "?e\<lparr>last_timestamp_ms := 5, ts_counter := 2, st_next_offset := 2, pending_bytes := 3, queue := [rec0, rec1b]\<rparr>"
  let ?st3 = "?st2\<lparr>pending_bytes := 0, queue := []\<rparr>"
  let ?s0 = "boot ?e" and ?s1 = "sys_emit ?st1 IoTake [] (boot ?e)" and ?s2 = "sys_emit ?st2 IoTake [] (boot ?e)"
  let ?s3 = "sys_emit ?st3 (IoIndex [rec0, rec1b] [rec0, rec1b] 0 []) [] (boot ?e)"
  have 1: "sys_step whole_writes ?s0 ?s1"
    using append [of 5 "[10, 11]" ?s0 "append_ok 0" ?st1]
    by (intro sys_step.client) (simp add: boot_def store_append_def empty_store_def default_options_def rec0_def
        get_cached_timestamp_locked_def kTimestampRefreshEvery_def append_ok_def Let_def word_le_nat_alt)
  have 2: "sys_step whole_writes ?s1 ?s2"
    using append [of 6 "[12]" ?s1 "append_ok 1" ?st2]
    by (intro sys_step.client) (simp add: boot_def store_append_def empty_store_def default_options_def rec0_def rec1b_def
        get_cached_timestamp_locked_def kTimestampRefreshEvery_def append_ok_def Let_def word_le_nat_alt)
  have 3: "sys_step whole_writes ?s2 ?s3"
    using take_some [of ?s2 "\<lambda>os. True" "[(False, [])]" "[rec0, rec1b]" ?st3 whole_writes]
    by (intro sys_step.io) (simp add: take_batch_def pop_front_def size_sub_def empty_store_def default_options_def rec0_def rec1b_def
        LOG_RECORD_HEADER_SIZE_def Let_def)
  obtain buf d where w: "write_index_entries good_writev (writer ?st3) [rec0, rec1b] 0 [] (st_dir ?st3) = ((None, buf), d)"
    using good_index by (metis prod.exhaust fst_conv)
  let ?s4 = "sys_emit (?st3\<lparr>st_dir := d\<rparr>) (IoLog [rec0, rec1b] buf) [] ?s3"
  have "(io_step full_writes quiet)\<^sup>*\<^sup>* ?s3 ?s4"
    using index_steps [of good_writev ?s3 "[rec0, rec1b]" 0 "[]" buf d full_writes "[rec0, rec1b]" quiet] w good_writev_full by simp
  then have "(sys_step whole_writes)\<^sup>*\<^sup>* ?s3 ?s4" by (intro io_alone_runs) (simp only: io_alone_def [abs_def])
  with 1 2 3 have run: "(sys_step whole_writes)\<^sup>*\<^sup>* ?s0 ?s4" by (meson converse_rtranclp_into_rtranclp)
  from partition_rel_steps [OF run partition_rel_empty opts] obtain a where
    a: "partition_rel default_options ?s4 a" "spec_step\<^sup>*\<^sup>* \<lparr>sl_base = 0, sl_log = [], sl_pending = []\<rparr> a" by blast
  have base: "sl_base a = 0" using spec_steps_grow [OF a(2)] by simp
  have pend: "sl_pending a = [rec0, rec1b]" using partition_rel_next(2) [OF a(1)] by simp
  then have "sl_log a = []" using partition_rel_next(1) [OF a(1)] base by simp
  moreover obtain segs where "sys_inv default_options segs ?s4" using a(1) by (auto simp: partition_rel_def)
  then have "buf = encode_records [rec0, rec1b]" using sys_invD(5) by fastforce
  ultimately show ?thesis using that [of ?s4 a] a(1) base pend by simp
qed

section \<open>Properties\<close>





text \<open>C37. After the first rotation the active segment cannot be read: as soon as a sealed segment exists,
  a fetch at any offset from the active segment's base on returns nothing, although the records are on disk
  and committed. (The one exception is the moment of a rotation in which the old segment is already sealed and the new
  one is not open yet.)\<close>

theorem active_segment_unreadable_after_rotation:
  assumes "partition_rel opts s a" "sealed_segments (sys_store s) \<noteq> []" "sys_pc s \<noteq> IoReopen"
    and "sw_base_offset (writer (sys_store s)) \<le> off"
  shows "\<exists>st. store_fetch off n (sys_store s) = Inr ([], st)"
proof -
  let ?k = "length (sealed_segments (sys_store s))"
  from assms(1) obtain segs where inv: "sys_inv opts segs s" by (auto simp: partition_rel_def)
  note ok = sys_invD(2) [OF inv]
  then obtain pre b rs where w: "segs = pre @ [(b, rs)]" "sw_base_offset (writer (sys_store s)) = b"
    by (rule log_ok_lastE)
  have k: "?k = length pre" using sys_invD(6) [OF inv] assms(3) w(1) by simp
  then have "pre \<noteq> []" using assms(2) by auto
  then obtain pre' seg where pre: "pre = pre' @ [seg]" by (cases pre rule: rev_cases) auto
  obtain b' rs' where seg: "seg = (b', rs')" by (cases seg)
  have "seg_chain (unat (fst (hd segs))) (pre' @ [(b', rs'), (b, rs)])"
    using ok w(1) pre seg by (simp add: log_ok_def)
  note act = segment_for_active [OF this, of off]
  have "fetch_result ?k segs off n = []"
    using act assms(4) w pre seg k by (simp add: fetch_result_def)
  then show ?thesis using store_fetch_ok [OF ok, of off n] by metis
qed

lemma active_segment_unreadable_after_rotation_witness:
  "\<exists>(st :: unit store) st'. PartitionStore two_segments default_options 0 = Inr st
     \<and> st_committed_offset st = 2 \<and> store_fetch 1 5 st = Inr ([], st')"
proof -
  obtain st :: "unit store" where st: "PartitionStore two_segments default_options 0 = Inr st"
    "partition_rel default_options (boot st) \<lparr>sl_base = 0, sl_log = [rec0, rec1], sl_pending = []\<rparr>"
    "sealed_segments st = [(0, log_name 0)]" "sw_base_offset (writer st) = 1" "st_committed_offset st = 2"
    by (rule two_segments_store)
  have "\<exists>st'. store_fetch 1 5 st = Inr ([], st')"
    using active_segment_unreadable_after_rotation [OF st(2), of 1 5] st(3,4) by (simp add: boot_def)
  with st(1,5) show ?thesis by blast
qed

text \<open>C20. Append assigns gapless offsets under backpressure. A payload is accepted exactly when the store is not shutting
  down and both limits leave room. It gets the offset right after everything in the log and the queue, the next one will
  get the offset after that, it is queued unchanged and last, and \<open>pending_bytes\<close> grows by its size, so that it stays the
  sum of the queued payload sizes and both limits hold. A rejected payload changes neither queue, offsets nor
  \<open>pending_bytes\<close>; it is rejected as closed when the store shuts down, otherwise as busy and counted.\<close>

theorem append_assigns_next_offset:
  assumes "partition_rel opts s a" "store_append now payload (sys_store s) = (r, st)"
  shows "(ar_accepted r \<longleftrightarrow> \<not> shutdown (sys_store s) \<and> length (queue (sys_store s)) < queue_capacity opts
            \<and> pending_bytes (sys_store s) + length payload \<le> max_pending_bytes opts)
     \<and> (ar_accepted r \<longrightarrow>
       ar_offset r = of_nat (sl_base a + length (sl_log a) + length (sl_pending a))
       \<and> st_next_offset st = ar_offset r + 1
       \<and> (\<exists>ts. queue st = queue (sys_store s) @ [\<lparr>rec_offset = ar_offset r, rec_timestamp_ms = ts, rec_payload = payload\<rparr>])
       \<and> pending_bytes st = pending_bytes (sys_store s) + length payload
       \<and> pending_bytes st = payload_bytes (queue st)
       \<and> length (queue st) \<le> queue_capacity opts \<and> pending_bytes st \<le> max_pending_bytes opts)
     \<and> (\<not> ar_accepted r \<longrightarrow>
       queue st = queue (sys_store s) \<and> st_next_offset st = st_next_offset (sys_store s)
       \<and> pending_bytes st = pending_bytes (sys_store s)
       \<and> (ar_error r = Closed \<longleftrightarrow> shutdown (sys_store s))
       \<and> busy_count st = busy_count (sys_store s) + (if ar_error r = Busy then 1 else 0))"
proof -
  from assms(1) obtain segs where inv: "sys_inv opts segs s" and a: "a = abs_of segs s" by (auto simp: partition_rel_def)
  have "st_next_offset (sys_store s) = of_nat (sl_base a + length (sl_log a) + length (sl_pending a))"
    using sys_invD(3) [OF inv] log_ok_next [OF sys_invD(2) [OF inv]] by (simp add: a abs_of_def queue_ok_def ac_simps)
  moreover have "pending_bytes (sys_store s) = payload_bytes (queue (sys_store s))"
    using sys_invD(3) [OF inv] by (simp add: queue_ok_def)
  ultimately show ?thesis
    using assms(2) sys_invD(1) [OF inv]
    by (cases rule: store_append_cases [of "sys_store s" now payload])
      (auto simp: append_closed_def append_busy_def append_ok_def)
qed

lemma append_assigns_next_offset_witness:
  "\<exists>r st. store_append 3 [9, 9] (empty_store default_options 0 :: unit store) = (r, st)
     \<and> ar_accepted r \<and> ar_offset r = 0 \<and> st_next_offset st = 1 \<and> pending_bytes st = 2
     \<and> length (queue st) \<le> queue_capacity default_options"
proof -
  let ?st = "empty_store default_options 0 :: unit store"
  obtain r st where run: "store_append 3 [9, 9] ?st = (r, st)" by (cases "store_append 3 [9, 9] ?st")
  from append_assigns_next_offset [OF partition_rel_empty [of default_options 0], of 3 "[9, 9]" r st] run show ?thesis
    by (simp add: boot_def) (simp add: empty_store_def default_options_def)
qed

text \<open>C3. A crash loses no committed record. Take the files as they are at any point of the I/O thread, with any number
  \<open>k\<close> of bytes of the log write or index write under way. Recovery succeeds, and the log files, read in order, hold
  every record that was in the log before, followed by exactly those records of the batch being written that lie
  completely within the \<open>k\<close> bytes; a torn record is cut off. No other file is touched, sealed segments included. The next
  offset is the one after these records, and it is at or above the committed offset.\<close>

theorem crash_keeps_committed:
  assumes "partition_rel opts s a"
  shows "\<exists>rr d. recover_partition (crash_dir k s) = Inr (rr, d)
     \<and> concat (map (file_contents d) (log_paths d)) =
         encode_records (sl_log a @ take (arrived k (sys_pc s)) (sl_pending a))
     \<and> (\<forall>f. f \<noteq> log_name (sw_base_offset (writer (sys_store s))) \<longrightarrow> map_of d f = map_of (crash_dir k s) f)
     \<and> rr_next_offset rr = of_nat (sl_base a + length (sl_log a) + arrived k (sys_pc s))
     \<and> st_committed_offset (sys_store s) \<le> rr_next_offset rr"
proof -
  let ?n = "arrived k (sys_pc s)"
  from assms obtain segs where inv: "sys_inv opts segs s" and a: "a = abs_of segs s" by (auto simp: partition_rel_def)
  obtain rr d where r: "recover_partition (crash_dir k s) = Inr (rr, d)"
    "rr_next_offset rr = sw_next_offset (writer (sys_store s)) + of_nat ?n"
    "concat (map (file_contents d) (log_paths d)) = encode_records (all_records segs @ take ?n (unwritten (sys_pc s)))"
    "\<And>f. f \<noteq> log_name (sw_base_offset (writer (sys_store s))) \<Longrightarrow> map_of d f = map_of (crash_dir k s) f"
    by (rule crash_dir_recovery [OF inv refl, of k]) (rule that)
  moreover have "rr_next_offset rr = of_nat (sl_base a + length (sl_log a) + ?n)"
    using r(2) log_ok_next [OF sys_invD(2) [OF inv]] by (simp add: a abs_of_def)
  moreover have "st_committed_offset (sys_store s) \<le> rr_next_offset rr"
    using committed_le_next [OF inv arrived_le [of k]] r(2) by simp
  moreover have "take ?n (sl_pending a) = take ?n (unwritten (sys_pc s))"
    using arrived_le [of k "sys_pc s"] by (simp add: a abs_of_def)
  ultimately show ?thesis by (auto simp: a abs_of_def)
qed

lemma crash_keeps_committed_witness:
  "\<exists>(s :: unit system) rr d. sys_pc s = IoLog [rec0, rec1b] (encode_records [rec0, rec1b])
     \<and> recover_partition (crash_dir 30 s) = Inr (rr, d) \<and> rr_next_offset rr = 1
     \<and> concat (map (file_contents d) (log_paths d)) = encode_records [rec0]"
proof -
  obtain s :: "unit system" and a where s: "partition_rel default_options s a"
    "sys_pc s = IoLog [rec0, rec1b] (encode_records [rec0, rec1b])" "sl_base a = 0" "sl_log a = []" "sl_pending a = [rec0, rec1b]"
    by (rule log_write_state)
  have "arrived 30 (sys_pc s) = 1" using s(2) by (simp add: rec0_def rec1b_def)
  then show ?thesis using crash_keeps_committed [OF s(1), of 30] s(2-5) by auto
qed

text \<open>C5. Commit callbacks registered for one offset are called exactly once. In every reachable
  state, whatever directory the store was started on and whatever its writes returned, each registered callback has been
  called once or still waits, and no callback waits for an offset that is already committed, except while the I/O thread is
  about to fire the due ones.\<close>

theorem once_callbacks_exactly_once:
  assumes "reachable opts s"
  shows "mset (sys_registered s) = mset (called (sys_events s)) + mset (waiting (sys_store s))
     \<and> ((\<forall>batch. sys_pc s \<noteq> IoFire batch) \<longrightarrow>
          (\<forall>off \<in> fst ` set (once_callbacks (sys_store s)). st_committed_offset (sys_store s) \<le> off))"
  using callbacks_ok_reachable [OF assms] counters_okD(4) [OF reachable_counters [OF assms]]
  by (fastforce simp: callbacks_ok_def callbacks_due_def)

lemma once_callbacks_exactly_once_witness:
  "\<exists>s :: nat system. reachable default_options s \<and> sys_registered s = [7] \<and> waiting (sys_store s) = [7]
     \<and> called (sys_events s) = [] \<and> mset [7 :: nat] = mset [] + mset (waiting (sys_store s))"
proof -
  let ?st = "empty_store default_options 0 :: nat store"
  have boot: "reachable default_options (boot ?st)" by (rule reachable.start [OF PartitionStore_empty_eq])
  let ?st' = "?st\<lparr>once_callbacks := [(4, [7])]\<rparr>"
  let ?s = "sys_emit ?st' IoTake [] ((boot ?st)\<lparr>sys_registered := [7]\<rparr>)"
  have "sys_step any_writes (boot ?st) ?s"
    using register [of 4 7 "boot ?st" ?st' "[]"]
    by (intro sys_step.client) (simp add: boot_def set_once_commit_callback_def empty_store_def)
  with boot have r: "reachable default_options ?s" by (rule reachable.step)
  have facts: "sys_registered ?s = [7]" "waiting (sys_store ?s) = [7]" "called (sys_events ?s) = []"
    by (simp_all add: waiting_def boot_def)
  from once_callbacks_exactly_once [OF r] have "mset (sys_registered ?s) =
      mset (called (sys_events ?s)) + mset (waiting (sys_store ?s))" ..
  then show ?thesis using r facts by (intro exI [of _ ?s]) simp
qed

text \<open>C21. Shutdown drains. When the I/O thread has ended, on whatever directory the store was started and whatever its
  writes returned, the queue is empty, every offset that was ever handed out is committed, and no later append is
  accepted.\<close>

theorem shutdown_drains_queue:
  assumes "reachable opts s" "sys_pc s = IoDone"
  shows "queue (sys_store s) = [] \<and> st_committed_offset (sys_store s) = st_next_offset (sys_store s)
     \<and> (\<forall>now payload. store_append now payload (sys_store s) = (append_closed, sys_store s))"
proof -
  have "queue (sys_store s) = []" "shutdown (sys_store s)"
    using done_ok_reachable [OF assms(1)] assms(2) by (simp_all add: done_ok_def)
  then show ?thesis
    using counters_okD(1,2) [OF reachable_counters [OF assms(1)]] assms(2) by (simp add: queue_ok_def store_append_def)
qed

lemma shutdown_drains_queue_witness:
  "\<exists>s :: unit system. reachable default_options s \<and> sys_pc s = IoDone
     \<and> st_committed_offset (sys_store s) = st_next_offset (sys_store s)"
proof -
  let ?st = "empty_store default_options 0 :: unit store"
  have boot: "reachable default_options (boot ?st)" by (rule reachable.start [OF PartitionStore_empty_eq])
  let ?s1 = "sys_emit (request_shutdown ?st) IoTake [] (boot ?st)"
  have "sys_step any_writes (boot ?st) ?s1"
    using client_step.request_shutdown [of "boot ?st"] by (intro sys_step.client) (simp add: boot_def)
  with boot have r1: "reachable default_options ?s1" by (rule reachable.step)
  have "take_batch [] (request_shutdown ?st) = Some ([], request_shutdown ?st)"
    by (simp add: take_batch_def request_shutdown_def empty_store_def)
  then have "sys_step any_writes ?s1 (sys_emit (request_shutdown ?st) IoDone [FlushFiles 0] ?s1)" (is "sys_step _ _ ?s2")
    using take_none [of ?s1 "[]" "request_shutdown ?st"]
    by (intro sys_step.io) (simp add: request_shutdown_def empty_store_def)
  with r1 have r2: "reachable default_options ?s2" by (rule reachable.step)
  from shutdown_drains_queue [OF r2] r2 show ?thesis by (intro exI [of _ ?s2]) simp
qed

text \<open>C4. Accepted records get committed by the I/O thread on its own. Let the thread run alone from any point at which it has
  neither ended nor failed: no other thread takes a step, in particular none asks for shutdown, and every write succeeds.
  The number of steps it can take is bounded, and it can only come to rest, waiting for work or ended, when the queue is
  empty, the log has grown by exactly the records that were pending, in order, and every offset handed out is
  committed.\<close>

theorem accepted_records_are_committed:
  assumes "partition_rel opts s a" "max_batch_bytes opts < 2 ^ 60" "io_running (sys_pc s)"
  shows "(\<exists>bound. \<forall>n s'. (io_alone ^^ n) s s' \<longrightarrow> n \<le> bound)
     \<and> (\<forall>s'. io_alone\<^sup>*\<^sup>* s s' \<and> (\<forall>s''. \<not> io_alone s' s'') \<longrightarrow>
          (sys_pc s' = IoTake \<or> sys_pc s' = IoDone) \<and> queue (sys_store s') = []
          \<and> partition_rel opts s' \<lparr>sl_base = sl_base a, sl_log = sl_log a @ sl_pending a, sl_pending = []\<rparr>
          \<and> st_committed_offset (sys_store s') = st_next_offset (sys_store s))"
proof (intro conjI allI impI exI)
  fix n s' assume "(io_alone ^^ n) s s'"
  then show "n \<le> io_work s" using io_alone_bounded assms(3) by (meson le_trans le_add1)
next
  fix s' assume s': "io_alone\<^sup>*\<^sup>* s s' \<and> (\<forall>s''. \<not> io_alone s' s'')"
  note run = io_alone_run [OF s' [THEN conjunct1] assms(3)]
  have rest: "(sys_pc s' = IoTake \<or> sys_pc s' = IoDone) \<and> queue (sys_store s') = []"
    using run s' io_alone_enabled [of s'] by blast
  then show "sys_pc s' = IoTake \<or> sys_pc s' = IoDone" "queue (sys_store s') = []" by simp_all
  note d = drained_log [OF assms(1,2) s' [THEN conjunct1]]
  show "partition_rel opts s' \<lparr>sl_base = sl_base a, sl_log = sl_log a @ sl_pending a, sl_pending = []\<rparr>"
    "st_committed_offset (sys_store s') = st_next_offset (sys_store s)" using d rest run by blast+
qed

lemma accepted_records_are_committed_witness:
  "\<exists>(s :: unit system) s' a. length (queue (sys_store s)) = 1 \<and> partition_rel default_options s a \<and> io_alone\<^sup>*\<^sup>* s s'
     \<and> partition_rel default_options s' \<lparr>sl_base = sl_base a, sl_log = sl_log a @ sl_pending a, sl_pending = []\<rparr>
     \<and> st_committed_offset (sys_store s') = 1"
proof -
  have opts: "max_batch_bytes default_options < 2 ^ 60" by (simp add: default_options_def)
  let ?st = "empty_store default_options 0 :: unit store"
  obtain r st where run: "store_append 3 [9, 9] ?st = (r, st)" by (cases "store_append 3 [9, 9] ?st")
  let ?s = "sys_emit st IoTake [] (boot ?st)"
  have step: "sys_step whole_writes (boot ?st) ?s"
    using append [of 3 "[9, 9]" "boot ?st" r st] run by (intro sys_step.client) (simp add: boot_def empty_store_def)
  have st: "length (queue st) = 1" "st_next_offset st = 1" "\<not> shutdown st"
    using fresh_append [OF run] by (simp_all add: empty_store_def)
  obtain a where a: "partition_rel default_options ?s a"
    using partition_rel_step [OF partition_rel_empty step opts] by blast
  obtain evs st' where e: "io_rounds 1 (sys_store ?s) = (evs, st')" by (cases "io_rounds 1 (sys_store ?s)")
  let ?s' = "sys_emit st' IoTake evs ?s"
  have alone: "io_alone\<^sup>*\<^sup>* ?s ?s'" "queue st' = []" "\<not> shutdown st'"
    using io_rounds_steps [OF _ _ e] st by simp_all
  then have "\<not> io_alone ?s' s''" for s'' by (auto simp: io_alone_def take_batch_def elim: io_step.cases)
  with alone(1) have rest: "io_alone\<^sup>*\<^sup>* ?s ?s' \<and> (\<forall>s''. \<not> io_alone ?s' s'')" by blast
  have "io_running (sys_pc ?s)" by simp
  from accepted_records_are_committed [OF a opts this, THEN conjunct2, rule_format, OF rest] have "partition_rel default_options ?s' \<lparr>sl_base = sl_base a, sl_log = sl_log a @ sl_pending a, sl_pending = []\<rparr>"
    "st_committed_offset (sys_store ?s') = 1"
    using st by simp_all
  moreover have "length (queue (sys_store ?s)) = 1" using st by simp
  ultimately show ?thesis using a alone(1) by blast
qed

text \<open>The flush policy. After a batch of \<open>n\<close> records, the store either flushes (always when it rotates),
  and then counts from zero and from now, or both limits leave room: the records counted since the
  last flush are below \<^verbatim>\<open>flush_every_records\<close> and the elapsed time is below \<^verbatim>\<open>flush_every_ms\<close>. The count
  is exact as long as it fits 32 bits.\<close>

theorem flush_policy_bounds:
  assumes "rotate_or_flush now n st = (st', evs)" "unat (records_since_flush st) + n < 2 ^ 32"
  shows "(evs \<noteq> [] \<longrightarrow> evs = [FlushFiles (sw_base_offset (writer st))]
            \<and> records_since_flush st' = 0 \<and> last_flush_time st' = now)
     \<and> (evs = [] \<longrightarrow> unat (records_since_flush st') = unat (records_since_flush st) + n
            \<and> unat (records_since_flush st) + n < unat (flush_every_records (options st))
            \<and> unat (now - last_flush_time st) < unat (flush_every_ms (options st))
            \<and> unat (sw_bytes_written (writer st)) < LOG_SEGMENT_MAX_BYTES)"
proof -
  have sum: "unat (records_since_flush st + of_nat n) = unat (records_since_flush st) + n"
    using assms(2) by (simp add: unat_word_ariths unat_of_nat take_bit_nat_eq_self mod_less)
  have ms: "unat (ucast (flush_every_ms (options st)) :: u64) = unat (flush_every_ms (options st))" by simp
  show ?thesis
    using assms(1) sum ms
    by (auto simp: rotate_or_flush_def rotate_def seal_segment_def open_segment_def rotation_due_def flush_policy_def
        SegmentWriter_def Let_def not_le
        word_less_nat_alt split: if_splits)
qed

lemma flush_policy_bounds_witness:
  "\<exists>st. rotate_or_flush 10 1 (empty_store default_options 0 :: unit store) = (st, [])
     \<and> unat (records_since_flush st) = 1"
proof -
  let ?st = "empty_store default_options 0 :: unit store"
  obtain st evs where run: "rotate_or_flush 10 1 ?st = (st, evs)" by (cases "rotate_or_flush 10 1 ?st")
  have evs: "evs = []"
    using run by (auto simp: rotate_or_flush_def rotation_due_def flush_policy_def empty_store_def default_options_def
        LOG_SEGMENT_MAX_BYTES_def Let_def word_le_nat_alt)
  have "unat (records_since_flush ?st) + 1 < 2 ^ 32" by (simp add: empty_store_def)
  from flush_policy_bounds [OF run this] evs run show ?thesis by (simp add: empty_store_def)
qed

text \<open>C38. A short write is reported as success. When \<^verbatim>\<open>writev\<close> appends only the first \<open>r\<close> bytes of a record,
  \<open>write_batch\<close> still returns it as committed and advances the committed offset past it, and the
  record is gone after a restart: recovery resumes at its offset.\<close>

theorem short_write_loses_committed_record:
  assumes ok: "log_ok segs [] st" and "rec_offset cmd = sw_next_offset (writer st)" "wf_record cmd"
    and "length (encode_records (snd (last segs))) < 2 ^ 61" "r < length (encode_record cmd)"
    and wv: "\<forall>f b. wv f b = (if f = log_name (sw_base_offset (writer st)) then int r else int (length b))"
  shows "\<exists>st' rr d. write_batch wv [cmd] st = ((None, [cmd]), st')
     \<and> st_committed_offset st' = rec_offset cmd + 1
     \<and> recover_partition (st_dir st') = Inr (rr, d) \<and> rr_next_offset rr = rec_offset cmd"
proof -
  from ok obtain pre b rs where w: "segs = pre @ [(b, rs)]" "sw_base_offset (writer st) = b"
    "sw_next_offset (writer st) = b + of_nat (length rs)" "offsets_from b rs" by (rule log_ok_lastE)
  have act: "seg_files_ok (st_dir st) [] (b, rs)" using ok w(1) by (auto simp: log_ok_def)
  note act' = seg_files_okD [OF act]
  let ?e = "encode_index_entry \<lparr>ie_offset = rec_offset cmd, ie_file_position = sw_bytes_written (writer st)\<rparr>"
  define d1 where "d1 = (if (rec_offset cmd - b) mod INDEX_INTERVAL = 0
      then file_put (st_dir st) (idx_name b) (file_contents (st_dir st) (idx_name b) @ ?e) else st_dir st)"
  let ?d = "file_put d1 (log_name b) (encode_records rs @ take r (encode_record cmd))"
  have d1: "file_contents d1 (log_name b) = encode_records rs" using act'(1) by (simp add: d1_def)
  have "write_batch wv [cmd] st = ((None, [cmd]),
      publish_batch [cmd] (st\<lparr>st_dir := ?d, writer := advance_next_offset 1
        (add_bytes_written (of_nat (length (encode_record cmd))) (writer st))\<rparr>))"
    using act'(1) w(2) by (simp add: write_batch_def write_batch_index_def write_index_entry_def index_due_def
        index_bytes_def write_batch_log_def wv write_file_vec_one d1_def Let_def)
  moreover have "recover_partition ?d = Inr (\<lparr>rr_next_offset = next_after b rs,
      rr_log_end_position = of_nat (length (encode_records rs)), rr_records_recovered = of_nat (length rs),
      rr_truncated = (take r (encode_record cmd) \<noteq> [])\<rparr>,
      if take r (encode_record cmd) = [] then ?d else file_put ?d (log_name b) (encode_records rs))"
  proof (rule recover_partition_records)
    have "map_of (st_dir st) (log_name b) \<noteq> None" "map_of (st_dir st) (idx_name b) \<noteq> None"
      using act by (auto simp: seg_files_ok_def)
    then have mem: "log_name b \<in> fst ` set (st_dir st)" "idx_name b \<in> fst ` set (st_dir st)"
      by (simp_all add: map_of_eq_None_iff)
    then have "log_paths ?d = log_paths (st_dir st)"
      by (simp add: d1_def log_paths_file_put fst_set_file_put)
    also have "\<dots> = map log_name (map fst segs)" using ok by (rule log_ok_paths)
    finally show "log_paths ?d \<noteq> []" "last (log_paths ?d) = log_name b" using w(1) by simp_all
    show "length (encode_records rs @ take r (encode_record cmd)) < 2 ^ 62"
      using assms(3,4) w(1) by (simp add: wf_record_def)
    show "incomplete (take r (encode_record cmd))" using assms(3,5) by (intro incomplete_take) simp_all
  qed (use act'(4) in \<open>simp_all add: stoull_segment_stem\<close>)
  moreover have "next_after b rs = rec_offset cmd" using next_after_contiguous [OF w(4)] w(3) assms(2) by simp
  ultimately show ?thesis by (simp add: publish_batch_def)
qed

lemma short_write_loses_committed_record_witness:
  "\<exists>(st :: unit store) rr d.
     write_batch (\<lambda>f b. if f = log_name 0 then int 5 else int (length b)) [rec0] (empty_store default_options 0) = ((None, [rec0]), st)
     \<and> st_committed_offset st = 1 \<and> recover_partition (st_dir st) = Inr (rr, d) \<and> rr_next_offset rr = 0"
proof -
  let ?st = "empty_store default_options 0 :: unit store"
  have st: "sw_next_offset (writer ?st) = 0" "sw_base_offset (writer ?st) = 0" by (simp_all add: empty_store_def)
  have r: "rec_offset rec0 = 0" "wf_record rec0" "length (encode_record rec0) = 22"
    by (simp_all add: rec0_def wf_record_def)
  have "log_ok [(0, [])] [] ?st" by (rule empty_store_ok)
  from short_write_loses_committed_record [OF this, of rec0 5
        "\<lambda>f b. if f = log_name 0 then int 5 else int (length b)"] st r show ?thesis by simp
qed

lemma lookup_stale:
  "lookup [\<lparr>ie_offset = 0, ie_file_position = 0\<rparr>, \<lparr>ie_offset = 128, ie_file_position = p\<rparr>] 128 = p"
proof -
  have "upper_bound (\<lambda>e. (128 :: u64) < ie_offset e)
      [\<lparr>ie_offset = 0, ie_file_position = 0\<rparr>, \<lparr>ie_offset = 128, ie_file_position = p\<rparr>] = 2"
    by (simp add: upper_bound_def upper_bound_loop.simps Let_def)
  then show ?thesis by (simp add: lookup_def)
qed

text \<open>Recovery leaves index entries of lost records in place, and fetch trusts them. After the history of
  \<open>stale_index_dir\<close>, a fetch at offset 128 starts in the middle of a payload and serves the
  bytes a producer put there as a record \<open>fake\<close>, although the log holds two records only.\<close>

theorem stale_index_serves_payload_bytes:
  assumes "rec_offset r0 = 0" "rec_offset r1 = 1" "rec_payload r1 = pad @ encode_record fake"
    and "wf_record r0" "wf_record r1" "wf_record fake" "128 \<le> rec_offset fake" "0 < n"
    and "pos = length (encode_record r0) + 20 + length pad"
  shows "\<exists>(st :: 'cb store) st'. PartitionStore (stale_index_dir r0 r1 pos) opts now = Inr st
     \<and> next_offset st = 2 \<and> store_fetch 128 n st = Inr ([fake], st')"
proof -
  let ?d = "stale_index_dir r0 r1 pos"
  have wf: "\<forall>r \<in> set [r0, r1]. wf_record r" using assms(4,5) by simp
  have c: "map_of ?d (log_name 0) = Some (encode_records [r0, r1])" by (simp add: stale_index_dir_def)
  have fc: "file_contents ?d (log_name 0) = encode_records [r0, r1] @ []" using c by (simp add: file_contents_def)
  have len: "length (encode_records [r0, r1] @ []) < 2 ^ 62" using assms(4,5) by (simp add: wf_record_def)
  have paths: "log_paths ?d = [log_name 0]" by (simp add: stale_index_dir_def log_paths_singleton)
  have rec: "recover_partition ?d = Inr (\<lparr>rr_next_offset = 2, rr_log_end_position = of_nat (length (encode_records [r0, r1])),
      rr_records_recovered = 2, rr_truncated = False\<rparr>, ?d)"
    using recover_partition_records [of ?d "log_name 0" 0, OF _ _ _ fc len wf incomplete_Nil] paths assms(2)
    by (simp add: stoull_segment_stem next_after_def)
  have opened: "open_files ?d 0 = ?d" by (rule open_files_exist) (simp_all add: stale_index_dir_def)
  obtain st :: "'cb store" where st: "PartitionStore ?d opts now = Inr st" "st_dir st = ?d" "sealed_segments st = []"
    "sw_base_offset (writer st) = 0" "sw_next_offset (writer st) = 2" "segment_cache st = Map.empty"
    by (simp add: PartitionStore_def rec paths stoull_segment_stem SegmentWriter_def opened
        set_next_offset_def set_bytes_written_def Let_def)
  let ?es = "[\<lparr>ie_offset = 0, ie_file_position = 0\<rparr>, \<lparr>ie_offset = 128, ie_file_position = of_nat pos\<rparr>]"
  have idx: "OffsetIndex ?d (idx_name 0) = Inr ?es"
    by (rule OffsetIndex_encoded) (simp add: stale_index_dir_def)
  have "upper_bound (\<lambda>m :: u64 \<times> fname. (128 :: u64) < fst m) [] = 0" using upper_bound_boundary(1) [of _ "[]"] by simp
  then have find: "find_segment_for st 128 = Some (log_name 0)" by (simp add: find_segment_for_def st Let_def)
  have split: "encode_records [r0, r1] = (encode_record r0 @ encode_header (record_header r1) @ pad) @ encode_records [fake] @ []"
    using assms(3) by (simp add: encode_record_def)
  have "pos < 2 ^ 64" using split len assms(9) by simp
  then have "unat (of_nat pos :: u64) = length (encode_record r0 @ encode_header (record_header r1) @ pad)"
    using assms(9) by (simp only: unat_of_nat_u64) simp
  with split have "at_pos ?d (log_name 0) (of_nat pos) (encode_record r0 @ encode_header (record_header r1) @ pad) (encode_records [fake] @ [])"
    using fc len unfolding at_pos_def by (simp only: append_Nil2)
  from segment_read_records [OF this _ incomplete_Nil, of 128 n] assms(6,7,8)
  have read: "segment_read ?d (Some (log_name 0)) (of_nat pos) 128 n = Inr [fake]"
    by (simp add: word_less_nat_alt)
  have "open_file_read ?d (log_name 0) = Some (log_name 0)" using c by (simp add: open_file_read_def)
  then show ?thesis
    using st find idx read
    by (simp add: store_fetch_def cached_segment_def SegmentReader_def lookup_stale next_offset_def Let_def)
qed

lemma stale_index_serves_payload_bytes_witness:
  "\<exists>(st :: unit store) st'. PartitionStore (stale_index_dir rec0
       \<lparr>rec_offset = 1, rec_timestamp_ms = 6, rec_payload =
          [0, 0] @ encode_record \<lparr>rec_offset = 200, rec_timestamp_ms = 0, rec_payload = [66]\<rparr>\<rparr> 44) default_options 0 = Inr st
     \<and> next_offset st = 2
     \<and> store_fetch 128 10 st = Inr ([\<lparr>rec_offset = 200, rec_timestamp_ms = 0, rec_payload = [66]\<rparr>], st')"
  using stale_index_serves_payload_bytes [of rec0
      "\<lparr>rec_offset = 1, rec_timestamp_ms = 6, rec_payload =
          [0, 0] @ encode_record \<lparr>rec_offset = 200, rec_timestamp_ms = 0, rec_payload = [66]\<rparr>\<rparr>" "[0, 0]"
      "\<lparr>rec_offset = 200, rec_timestamp_ms = 0, rec_payload = [66]\<rparr>" 10 44 default_options 0]
  by (simp add: wf_record_def rec0_def)

end
