(* ===== verification/Fell_Frame_Decoder.thy ===== *)
theory Fell_Frame_Decoder
  imports Fell_Endian
begin

text \<open>
  \<^verbatim>\<open>broker/include/broker/protocol.hpp\<close> (operation and error codes),
  \<^verbatim>\<open>broker/include/broker/frame_decoder.hpp\<close> and \<^verbatim>\<open>broker/frame_decoder.cpp\<close>: splitting a byte stream
  into frames. \<open>push\<close> keeps what it cannot decode yet in a buffer with a read index; sizes are
  \<^verbatim>\<open>size_t\<close>, so differences wrap around. The lemmas show that a stream of well-formed frames is
  decoded independently of how it is cut into reads.
\<close>

section \<open>Definitions\<close>

subsection \<open>protocol.hpp: codes\<close>

text \<open>\<^verbatim>\<open>enum class Op : uint8_t\<close>: a cast from a received byte can give any value.\<close>

type_synonym op_code = u8

definition CREATE_TOPIC :: op_code where "CREATE_TOPIC = 0x01"
definition PUBLISH :: op_code where "PUBLISH = 0x02"
definition SUBSCRIBE :: op_code where "SUBSCRIBE = 0x03"
definition FETCH :: op_code where "FETCH = 0x04"
definition COMMIT_OFFSET :: op_code where "COMMIT_OFFSET = 0x05"
definition PUBLISH_V2 :: op_code where "PUBLISH_V2 = 0x06"
definition METADATA_REQ :: op_code where "METADATA_REQ = 0x07"
definition ACK :: op_code where "ACK = 0x10"
definition ERR :: op_code where "ERR = 0x11"
definition FETCH_RESPONSE :: op_code where "FETCH_RESPONSE = 0x12"
definition METADATA_RESP :: op_code where "METADATA_RESP = 0x13"

lemmas op_code_defs = CREATE_TOPIC_def PUBLISH_def SUBSCRIBE_def FETCH_def COMMIT_OFFSET_def
  PUBLISH_V2_def METADATA_REQ_def ACK_def ERR_def FETCH_RESPONSE_def METADATA_RESP_def

datatype err_code =
    UNKNOWN_TOPIC | UNKNOWN_PARTITION | INVALID_OFFSET | UNKNOWN_OP | MALFORMED_REQUEST
  | BUSY | INTERNAL_ERROR | NOT_LEADER | METADATA_UNAVAILABLE

fun err_byte :: "err_code \<Rightarrow> u8" where
  "err_byte UNKNOWN_TOPIC = 0x01"
| "err_byte UNKNOWN_PARTITION = 0x02"
| "err_byte INVALID_OFFSET = 0x03"
| "err_byte UNKNOWN_OP = 0x04"
| "err_byte MALFORMED_REQUEST = 0x05"
| "err_byte BUSY = 0x06"
| "err_byte INTERNAL_ERROR = 0x07"
| "err_byte NOT_LEADER = 0x08"
| "err_byte METADATA_UNAVAILABLE = 0x09"

subsection \<open>Frames\<close>

record frame =
  frame_op :: op_code
  frame_payload :: bytes

text \<open>The wire form: length of operation code and payload, big-endian, then these.\<close>

definition encode_frame :: "frame \<Rightarrow> bytes" where
  "encode_frame f = write_be32 (of_nat (1 + length (frame_payload f))) @ [frame_op f] @ frame_payload f"

definition encode_frames :: "frame list \<Rightarrow> bytes" where
  "encode_frames fs = concat (map encode_frame fs)"

subsection \<open>FrameDecoder\<close>

record frame_decoder =
  fd_buf :: bytes
  fd_max_frame_size :: nat
  fd_read_idx :: nat

definition FrameDecoder :: "nat \<Rightarrow> frame_decoder" where
  "FrameDecoder max_frame_size = \<lparr>fd_buf = [], fd_max_frame_size = max_frame_size, fd_read_idx = 0\<rparr>"

definition decoder_reset :: "frame_decoder \<Rightarrow> frame_decoder" where
  "decoder_reset d = d\<lparr>fd_buf := [], fd_read_idx := 0\<rparr>"

text \<open>How the loop of \<open>push\<close> ends: with \<^verbatim>\<open>break\<close> (buffer, cursor, frames emitted), or by returning -1
  (frames emitted before that).\<close>

datatype loop_end = LoopBreak bytes nat "frame list" | LoopTooLarge "frame list"

function push_loop :: "nat \<Rightarrow> bytes \<Rightarrow> nat \<Rightarrow> frame list \<Rightarrow> fault + loop_end" where
  "push_loop max_frame_size buf cursor out =
     (if size_sub (length buf) cursor < 4 then Inr (LoopBreak buf cursor out)
      else if length buf < cursor + 4 then Inl OutOfBounds
      else let frame_len = unat (read_be32 (drop cursor buf))
           in if frame_len < 1 then Inr (LoopBreak [] cursor out)
              else if frame_len > max_frame_size then Inr (LoopTooLarge out)
              else if size_sub (length buf) cursor < 4 + frame_len then Inr (LoopBreak buf cursor out)
              else let f = \<lparr>frame_op = buf ! (cursor + 4),
                            frame_payload = bytes_at (cursor + 5) (frame_len - 1) buf\<rparr>
                   in push_loop max_frame_size buf (cursor + 4 + frame_len) (out @ [f]))"
  by pat_completeness auto
termination
  by (relation "measure (\<lambda>(m, buf, cursor, out). length buf - cursor)") (auto simp: size_sub_def)

declare push_loop.simps [simp del]

text \<open>The result of \<open>push\<close>: the returned count or -1, the frames appended to \<^verbatim>\<open>out\<close>, the new state.\<close>

definition push :: "bytes \<Rightarrow> frame_decoder \<Rightarrow> fault + int \<times> frame list \<times> frame_decoder" where
  "push data d =
     (if (size_sub (length (fd_buf d)) (fd_read_idx d) + length data) mod size_max > fd_max_frame_size d + 4096
      then Inr (-1, [], d)
      else let buf = fd_buf d @ data
           in case push_loop (fd_max_frame_size d) buf (fd_read_idx d) [] of
                Inl e \<Rightarrow> Inl e
              | Inr (LoopTooLarge out) \<Rightarrow> Inr (-1, out, d\<lparr>fd_buf := buf\<rparr>)
              | Inr (LoopBreak buf' cursor out) \<Rightarrow>
                  if cursor \<ge> 8192 then
                    (if cursor > length buf' then Inl OutOfBounds
                     else Inr (int (length out), out, d\<lparr>fd_buf := drop cursor buf', fd_read_idx := 0\<rparr>))
                  else Inr (int (length out), out, d\<lparr>fd_buf := buf', fd_read_idx := cursor\<rparr>))"

text \<open>The reads of a connection, one \<open>push\<close> each; \<open>None\<close> when a push returns -1, which closes the
  connection.\<close>

fun push_all :: "bytes list \<Rightarrow> frame_decoder \<Rightarrow> fault + frame list \<times> frame_decoder option" where
  "push_all [] d = Inr ([], Some d)"
| "push_all (c # cs) d =
     (case push c d of
        Inl e \<Rightarrow> Inl e
      | Inr (n, out, d') \<Rightarrow>
          if n = -1 then Inr ([], None)
          else case push_all cs d' of
                 Inl e \<Rightarrow> Inl e
               | Inr (out', r) \<Rightarrow> Inr (out @ out', r))"

section \<open>Decoding encoded frames\<close>

definition frame_ok :: "nat \<Rightarrow> frame \<Rightarrow> bool" where
  "frame_ok max_frame_size f = (1 + length (frame_payload f) \<le> max_frame_size)"

text \<open>The beginning of a frame within the limit.\<close>

definition partial_frame :: "nat \<Rightarrow> bytes \<Rightarrow> bool" where
  "partial_frame max_frame_size r =
     (length r < 4 \<or> (let n = unat (read_be32 r) in 1 \<le> n \<and> n \<le> max_frame_size \<and> length r < 4 + n))"

definition decoder_ok :: "frame_decoder \<Rightarrow> bool" where
  "decoder_ok d = (fd_read_idx d \<le> length (fd_buf d) \<and> fd_max_frame_size d < 2 ^ 32)"

definition decoder_pending :: "frame_decoder \<Rightarrow> bytes" where
  "decoder_pending d = drop (fd_read_idx d) (fd_buf d)"

lemma encode_frames_simps [simp]:
  "encode_frames [] = []" "encode_frames (f # fs) = encode_frame f @ encode_frames fs"
  "encode_frames (fs @ gs) = encode_frames fs @ encode_frames gs"
  by (simp_all add: encode_frames_def)

lemma length_encode_frame [simp]: "length (encode_frame f) = 5 + length (frame_payload f)"
  by (simp add: encode_frame_def)

lemma frame_len_read:
  assumes "frame_ok m f" "m < 2 ^ 32"
  shows "unat (read_be32 (encode_frame f @ r)) = 1 + length (frame_payload f)"
proof -
  have "1 + length (frame_payload f) < 2 ^ 32" using assms by (simp add: frame_ok_def)
  then have "unat (of_nat (1 + length (frame_payload f)) :: u32) = 1 + length (frame_payload f)"
    by (rule unat_of_nat_u32)
  then show ?thesis by (simp add: encode_frame_def read_write_be32 del: of_nat_Suc of_nat_add)
qed

lemma push_loop_step:
  assumes "cursor \<le> length buf" "drop cursor buf = encode_frame f @ rest" "frame_ok m f" "m < 2 ^ 32"
  shows "push_loop m buf cursor out = push_loop m buf (cursor + length (encode_frame f)) (out @ [f])"
proof -
  have len: "length buf - cursor = 5 + length (frame_payload f) + length rest"
    using arg_cong [OF assms(2), of length] by simp
  have n: "unat (read_be32 (drop cursor buf)) = 1 + length (frame_payload f)"
    unfolding assms(2) using assms(3,4) by (rule frame_len_read)
  have "drop (cursor + 4) buf = drop 4 (encode_frame f @ rest)"
    unfolding assms(2) [symmetric] by (simp add: add.commute)
  then have body: "drop (cursor + 4) buf = frame_op f # frame_payload f @ rest"
    by (simp add: encode_frame_def)
  then have op: "buf ! (cursor + 4) = frame_op f"
    using len nth_drop [of "cursor + 4" buf 0] by simp
  have "drop (cursor + 5) buf = drop 1 (drop (cursor + 4) buf)" unfolding drop_drop by (simp add: add.commute)
  then have "bytes_at (cursor + 5) (length (frame_payload f)) buf = frame_payload f"
    using body by (simp add: bytes_at_def)
  then have f: "\<lparr>frame_op = buf ! (cursor + 4), frame_payload = bytes_at (cursor + 5) (length (frame_payload f)) buf\<rparr> = f"
    using op by simp
  have "\<not> length buf < cursor + 4" using len by linarith
  then show ?thesis
    using len n f assms(1,3) by (subst push_loop.simps) (simp add: Let_def frame_ok_def ac_simps)
qed

lemma push_loop_frames:
  assumes "cursor \<le> length buf" "drop cursor buf = encode_frames fs @ rest"
    "\<forall>f \<in> set fs. frame_ok m f" "m < 2 ^ 32" "partial_frame m rest"
  shows "push_loop m buf cursor out = Inr (LoopBreak buf (cursor + length (encode_frames fs)) (out @ fs))"
  using assms
proof (induction fs arbitrary: cursor out)
  case Nil
  then have "length buf - cursor = length rest" by (metis append_Nil encode_frames_simps(1) length_drop)
  with Nil show ?case
    by (subst push_loop.simps) (auto simp: partial_frame_def Let_def)
next
  case (Cons f fs)
  have d: "drop cursor buf = encode_frame f @ encode_frames fs @ rest" using Cons.prems(2) by simp
  have len: "cursor + length (encode_frame f) \<le> length buf"
    using arg_cong [OF d, of length] Cons.prems(1) by simp
  have "drop (cursor + length (encode_frame f)) buf = encode_frames fs @ rest"
    using arg_cong [OF d, of "drop (length (encode_frame f))"] by (simp add: add.commute)
  from Cons.IH [OF len this] Cons.prems(3-5) push_loop_step [OF Cons.prems(1) d, of m out]
  show ?case by (simp add: add.assoc)
qed

text \<open>One read: the complete frames come out, the rest stays pending.\<close>

lemma push_frames:
  assumes ok: "decoder_ok d" and data: "decoder_pending d @ data = encode_frames fs @ rest"
    and fs: "\<forall>f \<in> set fs. frame_ok (fd_max_frame_size d) f" and rest: "partial_frame (fd_max_frame_size d) rest"
    and size: "length (decoder_pending d @ data) \<le> fd_max_frame_size d + 4096"
  obtains d' where "push data d = Inr (int (length fs), fs, d')" "decoder_ok d'" "decoder_pending d' = rest"
    "fd_max_frame_size d' = fd_max_frame_size d" "fd_read_idx d' < 8192"
proof -
  let ?buf = "fd_buf d @ data" and ?c = "fd_read_idx d + length (encode_frames fs)"
  have ri: "fd_read_idx d \<le> length (fd_buf d)" and m: "fd_max_frame_size d < 2 ^ 32"
    using ok by (simp_all add: decoder_ok_def)
  have "length (fd_buf d) - fd_read_idx d + length data \<le> fd_max_frame_size d + 4096"
    using size by (simp add: decoder_pending_def)
  moreover from this m have "(length (fd_buf d) - fd_read_idx d + length data) mod size_max = length (fd_buf d) - fd_read_idx d + length data"
    by (simp add: size_max_def)
  ultimately have check: "\<not> (size_sub (length (fd_buf d)) (fd_read_idx d) + length data) mod size_max > fd_max_frame_size d + 4096"
    using ri by simp
  have drop: "drop (fd_read_idx d) ?buf = encode_frames fs @ rest"
    using data ri by (simp add: decoder_pending_def)
  have loop: "push_loop (fd_max_frame_size d) ?buf (fd_read_idx d) [] = Inr (LoopBreak ?buf ?c fs)"
    using push_loop_frames [OF _ drop fs m rest, of "[]"] ri by simp
  have c: "?c \<le> length ?buf" using arg_cong [OF drop, of length] ri by simp
  have "drop ?c ?buf = drop (length (encode_frames fs)) (drop (fd_read_idx d) ?buf)"
    by (simp only: drop_drop add.commute)
  then have rest': "drop ?c ?buf = rest" unfolding drop by simp
  show ?thesis
  proof (cases "?c \<ge> 8192")
    case True
    show ?thesis
      by (rule that [of "d\<lparr>fd_buf := drop ?c ?buf, fd_read_idx := 0\<rparr>"])
        (use True check loop c rest' m in \<open>simp_all add: push_def decoder_ok_def decoder_pending_def Let_def\<close>)
  next
    case False
    show ?thesis
      by (rule that [of "d\<lparr>fd_buf := ?buf, fd_read_idx := ?c\<rparr>"])
        (use False check loop c rest' m in \<open>simp_all add: push_def decoder_ok_def decoder_pending_def Let_def\<close>)
  qed
qed

section \<open>Whole streams\<close>

lemma partial_frame_length: "partial_frame m r \<Longrightarrow> length r \<le> m + 3"
  by (auto simp: partial_frame_def Let_def)

lemma prefix_partial_frame:
  assumes "r @ t = encode_frame f" "t \<noteq> []" "frame_ok m f" "m < 2 ^ 32"
  shows "partial_frame m r"
proof (cases "length r < 4")
  case False
  have "read_be32 r = read_be32 (take 4 r)" by (simp add: read_be_take)
  also have "take 4 r = take 4 (encode_frame f)" using False by (simp add: assms(1) [symmetric])
  also have "read_be32 \<dots> = read_be32 (encode_frame f @ [])" by (simp add: read_be_take)
  finally have "unat (read_be32 r) = 1 + length (frame_payload f)" using frame_len_read [OF assms(3,4), of "[]"] by simp
  moreover have "length r < length (encode_frame f)" using assms(2) unfolding assms(1) [symmetric] by simp
  ultimately show ?thesis using assms(3) by (simp add: partial_frame_def Let_def frame_ok_def)
qed (simp add: partial_frame_def)

lemma partial_frame_prefix: "partial_frame m (xs @ ys) \<Longrightarrow> partial_frame m xs"
proof (cases "length xs < 4")
  case False
  assume "partial_frame m (xs @ ys)"
  moreover have "take 4 (xs @ ys) = take 4 xs" using False by simp
  then have "read_be32 (xs @ ys) = read_be32 xs"
    using read_be_take(2) [of 4 "xs @ ys"] read_be_take(2) [of 4 xs] by (simp del: take_append)
  ultimately show ?thesis by (auto simp: partial_frame_def Let_def)
qed (simp add: partial_frame_def)

lemma frame_limit_mono:
  "frame_ok m f \<Longrightarrow> m \<le> n \<Longrightarrow> frame_ok n f" "partial_frame m r \<Longrightarrow> m \<le> n \<Longrightarrow> partial_frame n r"
  by (auto simp: frame_ok_def partial_frame_def Let_def)

text \<open>A stream is a sequence of frames and possibly the beginning of one more. Cut anywhere, it is again one.\<close>

lemma split_stream:
  assumes "xs @ ys = encode_frames fs @ end" "\<forall>f \<in> set fs. frame_ok m f" "m < 2 ^ 32" "partial_frame m end"
  shows "\<exists>fs1 fs2 rest. fs = fs1 @ fs2 \<and> xs = encode_frames fs1 @ rest \<and> rest @ ys = encode_frames fs2 @ end
     \<and> partial_frame m rest"
  using assms(1,2)
proof (induction fs arbitrary: xs)
  case Nil
  then have "partial_frame m xs" using assms(4) partial_frame_prefix [of m xs ys] by simp
  then show ?case using Nil by (intro exI [of _ "[]"] exI [of _ xs]) simp
next
  case (Cons f fs)
  have stream: "xs @ ys = encode_frame f @ (encode_frames fs @ end)" using Cons.prems(1) by simp
  show ?case
  proof (cases "length (encode_frame f) \<le> length xs")
    case True
    have "take (length (encode_frame f)) (xs @ ys) = encode_frame f" by (simp add: stream del: length_encode_frame)
    then have "take (length (encode_frame f)) xs = encode_frame f" using True by simp
    then obtain us where us: "xs = encode_frame f @ us" by (metis append_take_drop_id)
    then have us2: "us @ ys = encode_frames fs @ end" using stream by simp
    from Cons.IH [OF us2] Cons.prems(2) obtain fs1 fs2 rest where
      "fs = fs1 @ fs2" "us = encode_frames fs1 @ rest" "rest @ ys = encode_frames fs2 @ end" "partial_frame m rest" by auto
    then show ?thesis using us by (intro exI [of _ "f # fs1"] exI [of _ fs2] exI [of _ rest]) simp
  next
    case False
    have "xs = take (length xs) (encode_frame f)"
      using arg_cong [OF stream, of "take (length xs)"] False by simp
    then have "xs @ drop (length xs) (encode_frame f) = encode_frame f" by (metis append_take_drop_id)
    moreover have "drop (length xs) (encode_frame f) \<noteq> []" using False by simp
    ultimately obtain t where t: "xs @ t = encode_frame f" "t \<noteq> []" by blast
    have "partial_frame m xs" using t _ assms(3) by (rule prefix_partial_frame) (use Cons.prems(2) in simp)
    then show ?thesis using Cons.prems(1) by (intro exI [of _ "[]"] exI [of _ "f # fs"] exI [of _ xs]) simp
  qed
qed

text \<open>\<open>limit\<close> bounds the frames of this stream. What is pending is shorter than the largest frame, so that a read fits as
  long as it leaves room for that.\<close>

definition stream_fits :: "nat \<Rightarrow> nat \<Rightarrow> bytes list \<Rightarrow> bool" where
  "stream_fits limit max_frame_size cs =
     (limit \<le> max_frame_size \<and> (\<forall>c \<in> set cs. length c + (limit + 3) \<le> max_frame_size + 4096))"

lemma push_all_stream:
  assumes "decoder_ok d" "decoder_pending d @ concat cs = encode_frames fs @ end"
    "\<forall>f \<in> set fs. frame_ok limit f" "partial_frame limit end" "partial_frame limit (decoder_pending d)"
    "stream_fits limit (fd_max_frame_size d) cs"
  shows "\<exists>d'. push_all cs d = Inr (fs, Some d') \<and> decoder_ok d' \<and> decoder_pending d' = end"
  using assms
proof (induction cs arbitrary: d fs)
  case Nil
  have m: "limit < 2 ^ 32" using Nil.prems(1,6) by (simp add: decoder_ok_def stream_fits_def)
  have "fs = []"
  proof (cases fs)
    case (Cons f gs)
    then have "partial_frame limit (encode_frame f @ encode_frames gs @ end)" using Nil.prems by simp
    then show ?thesis using frame_len_read [of limit f "encode_frames gs @ end"] Cons Nil.prems(3) m
      by (simp add: partial_frame_def Let_def)
  qed simp
  then show ?case using Nil.prems by simp
next
  case (Cons c cs)
  let ?m = "fd_max_frame_size d"
  have m: "limit < 2 ^ 32" "limit \<le> ?m" using Cons.prems(1,6) by (simp_all add: decoder_ok_def stream_fits_def)
  have "(decoder_pending d @ c) @ concat cs = encode_frames fs @ end" using Cons.prems(2) by simp
  from split_stream [OF this Cons.prems(3) m(1) Cons.prems(4)] obtain fs1 fs2 rest where
    sp: "fs = fs1 @ fs2" "decoder_pending d @ c = encode_frames fs1 @ rest" "rest @ concat cs = encode_frames fs2 @ end"
    "partial_frame limit rest" by blast
  have size: "length (decoder_pending d @ c) \<le> ?m + 4096"
    using partial_frame_length [OF Cons.prems(5)] Cons.prems(6) by (simp add: stream_fits_def)
  have "\<forall>f \<in> set fs1. frame_ok ?m f" "partial_frame ?m rest"
    using Cons.prems(3) sp(1,4) frame_limit_mono m(2) by auto
  then obtain d' where d': "push c d = Inr (int (length fs1), fs1, d')" "decoder_ok d'" "decoder_pending d' = rest"
    "fd_max_frame_size d' = ?m"
    using push_frames [OF Cons.prems(1) sp(2) _ _ size] by metis
  have "stream_fits limit (fd_max_frame_size d') cs" using Cons.prems(6) d'(4) by (simp add: stream_fits_def)
  with Cons.IH [OF d'(2), of fs2] d'(3) sp Cons.prems(3,4) obtain d'' where
    "push_all cs d' = Inr (fs2, Some d'')" "decoder_ok d''" "decoder_pending d'' = end" by auto
  with d'(1) sp(1) show ?case by simp
qed

section \<open>Arbitrary input\<close>

text \<open>What holds of a decoder after any input, well-formed or not.\<close>

definition decoder_bounded :: "frame_decoder \<Rightarrow> bool" where
  "decoder_bounded d =
     (fd_read_idx d < 8192 \<and> (fd_read_idx d \<le> length (fd_buf d) \<or> fd_buf d = [])
      \<and> length (fd_buf d) \<le> fd_max_frame_size d + 4096 + 8192 \<and> fd_max_frame_size d < 2 ^ 32)"

lemma push_loop_break:
  assumes "push_loop m buf cursor out = Inr (LoopBreak buf' cursor' out')" "cursor \<le> length buf"
  shows "buf' = [] \<or> buf' = buf \<and> cursor' \<le> length buf"
  using assms
proof (induction m buf cursor out rule: push_loop.induct)
  case (1 m buf cursor out)
  let ?n = "unat (read_be32 (drop cursor buf))"
  show ?case
  proof (cases "length buf - cursor < 4 \<or> ?n < 1 \<or> ?n > m \<or> length buf - cursor < 4 + ?n")
    case True
    then show ?thesis using "1.prems" by (subst (asm) push_loop.simps) (auto simp: Let_def split: if_splits)
  next
    case False
    then have c: "\<not> size_sub (length buf) cursor < 4" "\<not> length buf < cursor + 4" "\<not> ?n < 1" "\<not> ?n > m"
      "\<not> size_sub (length buf) cursor < 4 + ?n" "cursor + 4 + ?n \<le> length buf"
      using "1.prems"(2) by auto
    have "push_loop m buf (cursor + 4 + ?n)
        (out @ [\<lparr>frame_op = buf ! (cursor + 4), frame_payload = bytes_at (cursor + 5) (?n - 1) buf\<rparr>])
        = Inr (LoopBreak buf' cursor' out')"
      using "1.prems"(1) c by (subst (asm) push_loop.simps) (simp add: Let_def)
    from "1.IH" [OF c(1,2) refl c(3,4,5) refl this c(6)] show ?thesis .
  qed
qed

lemma push_check:
  assumes "decoder_bounded d" "length data < 2 ^ 32"
    "(size_sub (length (fd_buf d)) (fd_read_idx d) + length data) mod size_max \<le> fd_max_frame_size d + 4096"
  shows "fd_read_idx d \<le> length (fd_buf d @ data)"
    "length (fd_buf d @ data) \<le> fd_max_frame_size d + 4096 + fd_read_idx d"
proof -
  have "fd_read_idx d \<le> length (fd_buf d @ data) \<and> length (fd_buf d @ data) \<le> fd_max_frame_size d + 4096 + fd_read_idx d"
  proof (cases "fd_read_idx d \<le> length (fd_buf d)")
    case True
    moreover have "length (fd_buf d) - fd_read_idx d + length data < size_max"
      using assms(1,2) by (auto simp: size_max_def decoder_bounded_def intro: le_less_trans [of _ "length (fd_buf d) + length data"])
    then have "(length (fd_buf d) - fd_read_idx d + length data) mod size_max
        = length (fd_buf d) - fd_read_idx d + length data" by (rule mod_less)
    ultimately show ?thesis using assms(3) by simp
  next
    case False
    then have e: "fd_buf d = []" "0 < fd_read_idx d" "fd_read_idx d < 8192" using assms(1) by (auto simp: decoder_bounded_def)
    have sum: "size_sub 0 (fd_read_idx d) + length data = (if fd_read_idx d \<le> length data
        then length data - fd_read_idx d + size_max else size_max - (fd_read_idx d - length data))"
      using e by (auto simp: size_sub_def size_max_def)
    show ?thesis
    proof (cases "fd_read_idx d \<le> length data")
      case True
      have "length data - fd_read_idx d < size_max" using assms(2) by (simp add: size_max_def)
      then have "(length data - fd_read_idx d + size_max) mod size_max = length data - fd_read_idx d"
        by (simp only: mod_add_self2 mod_less)
      then show ?thesis using assms(3) True e(1) sum by (simp del: Nat.add_diff_assoc2)
    next
      case False
      then have "size_max - (fd_read_idx d - length data) < size_max" using e(2) by (simp add: size_max_def)
      then have "size_max - (fd_read_idx d - length data) \<le> fd_max_frame_size d + 4096"
        using assms(3) sum False e(1) by simp
      then show ?thesis using e assms(1) by (simp add: size_max_def decoder_bounded_def)
    qed
  qed
  then show "fd_read_idx d \<le> length (fd_buf d @ data)"
    "length (fd_buf d @ data) \<le> fd_max_frame_size d + 4096 + fd_read_idx d" by simp_all
qed

lemma push_loop_zero:
  assumes "cursor \<le> length buf" "drop cursor buf = [0, 0, 0, 0] @ rest"
  shows "push_loop m buf cursor out = Inr (LoopBreak [] cursor out)"
proof -
  have "length buf - cursor = 4 + length rest" using arg_cong [OF assms(2), of length] by simp
  moreover have "read_be32 (drop cursor buf) = 0" unfolding assms(2) by (simp add: read_be32_def)
  ultimately show ?thesis using assms(1) by (subst push_loop.simps) (simp add: Let_def)
qed

lemma push_frame_zero:
  assumes "frame_ok m f" "m < 2 ^ 32"
  shows "push_loop m (encode_frame f @ [0, 0, 0, 0]) 0 [] = Inr (LoopBreak [] (length (encode_frame f)) [f])"
    "length (encode_frame f @ [0, 0, 0, 0]) \<le> m + 4096"
proof -
  have "push_loop m (encode_frame f @ [0, 0, 0, 0]) 0 []
      = push_loop m (encode_frame f @ [0, 0, 0, 0]) (length (encode_frame f)) [f]"
    using push_loop_step [of 0 "encode_frame f @ [0, 0, 0, 0]" f "[0, 0, 0, 0]" m "[]"] assms by simp
  then show "push_loop m (encode_frame f @ [0, 0, 0, 0]) 0 [] = Inr (LoopBreak [] (length (encode_frame f)) [f])"
    using push_loop_zero [of "length (encode_frame f)" "encode_frame f @ [0, 0, 0, 0]" "[]" m "[f]"] by simp
  show "length (encode_frame f @ [0, 0, 0, 0]) \<le> m + 4096" using assms(1) by (simp add: frame_ok_def)
qed

section \<open>Properties\<close>



text \<open>C31. The decoder's memory is bounded for every input. Whatever bytes a client sends, a decoder that
  stays connected buffers at most the maximal frame size plus 12288 bytes, and its read index stays
  below 8192.\<close>

theorem decoder_memory_bounded:
  assumes "decoder_bounded d" "length data < 2 ^ 32" "push data d = Inr (n, out, d')" "n \<noteq> -1"
  shows "decoder_bounded d' \<and> n = int (length out) \<and> fd_max_frame_size d' = fd_max_frame_size d"
proof -
  let ?buf = "fd_buf d @ data"
  have check: "(size_sub (length (fd_buf d)) (fd_read_idx d) + length data) mod size_max \<le> fd_max_frame_size d + 4096"
    using assms(3,4) by (auto simp: push_def not_less split: if_splits)
  note b = push_check [OF assms(1,2) check]
  obtain buf' cursor where loop: "push_loop (fd_max_frame_size d) ?buf (fd_read_idx d) [] = Inr (LoopBreak buf' cursor out)"
    and d': "d' = (if cursor \<ge> 8192 then d\<lparr>fd_buf := drop cursor buf', fd_read_idx := 0\<rparr>
                   else d\<lparr>fd_buf := buf', fd_read_idx := cursor\<rparr>)" and n: "n = int (length out)"
    using assms(3,4) check by (auto simp: push_def Let_def split: if_splits sum.splits loop_end.splits)
  from push_loop_break [OF loop b(1)] b(2) assms(1) show ?thesis
    unfolding d' n decoder_bounded_def by auto
qed

lemma decoder_memory_bounded_witness:
  "\<exists>d. push [0, 0, 0, 0, 9] (FrameDecoder 10) = Inr (0, [], d) \<and> decoder_bounded d"
proof -
  have "push [0, 0, 0, 0, 9] (FrameDecoder 10) = Inr (0, [], FrameDecoder 10)"
    by (simp add: push_def FrameDecoder_def push_loop.simps size_max_def read_be32_def Let_def)
  with decoder_memory_bounded [of "FrameDecoder 10" "[0, 0, 0, 0, 9]" 0 "[]"] show ?thesis
    by (simp add: FrameDecoder_def decoder_bounded_def)
qed

text \<open>A zero-length frame breaks the decoder. Right after a frame of \<open>c\<close> bytes it empties the
  buffer but leaves the read index at \<open>c\<close>: the next read is refused when it is shorter than \<open>c\<close>, and otherwise its
  first \<open>c\<close> bytes are skipped. When \<open>c\<close> reaches 8192 the erase runs past the end of
  the empty buffer.\<close>

theorem zero_length_frame_desynchronises:
  assumes "frame_ok m f" "m < 2 ^ 32"
  shows "(length (encode_frame f) < 8192 \<longrightarrow>
       push (encode_frame f @ [0, 0, 0, 0]) (FrameDecoder m) =
         Inr (1, [f], \<lparr>fd_buf = [], fd_max_frame_size = m, fd_read_idx = length (encode_frame f)\<rparr>)
       \<and> (\<forall>data. length data < length (encode_frame f) \<longrightarrow>
            push data \<lparr>fd_buf = [], fd_max_frame_size = m, fd_read_idx = length (encode_frame f)\<rparr> =
              Inr (-1, [], \<lparr>fd_buf = [], fd_max_frame_size = m, fd_read_idx = length (encode_frame f)\<rparr>))
       \<and> (\<forall>skip g. length skip = length (encode_frame f) \<and> frame_ok m g \<longrightarrow>
            (\<exists>d. push (skip @ encode_frame g) \<lparr>fd_buf = [], fd_max_frame_size = m, fd_read_idx = length (encode_frame f)\<rparr>
                  = Inr (1, [g], d))))
     \<and> (8192 \<le> length (encode_frame f) \<longrightarrow>
          push (encode_frame f @ [0, 0, 0, 0]) (FrameDecoder m) = Inl OutOfBounds)"
proof -
  let ?c = "length (encode_frame f)"
  let ?d = "\<lparr>fd_buf = [], fd_max_frame_size = m, fd_read_idx = ?c\<rparr>"
  note z = push_frame_zero [OF assms]
  have check: "\<not> (size_sub 0 0 + length (encode_frame f @ [0, 0, 0, 0])) mod size_max > m + 4096"
    using z(2) assms(2) by (simp add: size_max_def)
  have skip: "\<exists>d. push (skip @ encode_frame g) ?d = Inr (1, [g], d)"
    if "?c < 8192" "length skip = ?c" "frame_ok m g" for skip g
  proof -
    let ?buf = "skip @ encode_frame g"
    have "push_loop m ?buf ?c [] = Inr (LoopBreak ?buf (?c + length (encode_frames [g])) ([] @ [g]))"
      using that assms(2) by (intro push_loop_frames [where rest = "[]"]) (simp_all add: partial_frame_def)
    moreover have "size_sub 0 ?c + length ?buf = length (encode_frame g) + size_max"
      using that by (simp add: size_sub_def size_max_def)
    then have "(size_sub 0 ?c + length ?buf) mod size_max = length (encode_frame g) mod size_max"
      by (simp only: mod_add_self2)
    moreover have "length (encode_frame g) mod size_max = length (encode_frame g)"
      using that(3) assms(2) by (intro mod_less) (simp add: size_max_def frame_ok_def)
    moreover have "length (encode_frame g) \<le> m + 4096" using that(3) by (simp add: frame_ok_def)
    ultimately show ?thesis using that(2) by (simp add: push_def Let_def)
  qed
  have short: "push data ?d = Inr (-1, [], ?d)" if "?c < 8192" "length data < ?c" for data
  proof -
    have "size_sub 0 ?c + length data = size_max - (?c - length data)"
      using that by (simp add: size_sub_def size_max_def)
    moreover have "size_max - (?c - length data) < size_max" using that by (simp add: size_max_def)
    ultimately have "(size_sub 0 ?c + length data) mod size_max = size_max - (?c - length data)" by simp
    moreover have "size_max - (?c - length data) > m + 4096" using that(1) assms(2) by (simp add: size_max_def)
    ultimately show ?thesis by (simp add: push_def)
  qed
  show ?thesis
    using z(1) check skip short by (auto simp: push_def FrameDecoder_def Let_def)
qed

lemma zero_length_frame_desynchronises_witness:
  "push (encode_frame \<lparr>frame_op = 4, frame_payload = [1]\<rparr> @ [0, 0, 0, 0]) (FrameDecoder 100) =
     Inr (1, [\<lparr>frame_op = 4, frame_payload = [1]\<rparr>], \<lparr>fd_buf = [], fd_max_frame_size = 100, fd_read_idx = 6\<rparr>)
   \<and> push [0, 0, 0, 1, 4] \<lparr>fd_buf = [], fd_max_frame_size = 100, fd_read_idx = 6\<rparr> =
     Inr (-1, [], \<lparr>fd_buf = [], fd_max_frame_size = 100, fd_read_idx = 6\<rparr>)"
  using zero_length_frame_desynchronises [of 100 "\<lparr>frame_op = 4, frame_payload = [1]\<rparr>"]
  by (simp add: frame_ok_def)

text \<open>A full read can be refused although the stream is legal. When the beginning of a frame of
  maximal size is pending but for at most three bytes, a read of 4096 bytes, which the broker's
  reactor makes whenever that much has arrived, exceeds the limit and the connection is closed.\<close>

theorem full_read_refused_on_legal_stream:
  assumes "decoder_ok d" "decoder_pending d @ data = encode_frames fs" "\<forall>f \<in> set fs. frame_ok (fd_max_frame_size d) f"
    and "fd_max_frame_size d < length (decoder_pending d)" "length (decoder_pending d) \<le> fd_max_frame_size d + 3"
    and "length data = 4096"
  shows "push data d = Inr (-1, [], d)"
proof -
  have "size_sub (length (fd_buf d)) (fd_read_idx d) = length (decoder_pending d)"
    using assms(1) by (simp add: decoder_ok_def decoder_pending_def)
  moreover have "(length (decoder_pending d) + 4096) mod size_max = length (decoder_pending d) + 4096"
    using assms(1,5) by (simp add: size_max_def decoder_ok_def)
  ultimately show ?thesis using assms(4,6) by (simp add: push_def)
qed

lemma full_read_refused_on_legal_stream_witness:
  "push ([9] @ encode_frames (replicate 819 \<lparr>frame_op = 4, frame_payload = []\<rparr>))
       \<lparr>fd_buf = [0, 0, 0, 2, 2], fd_max_frame_size = 2, fd_read_idx = 0\<rparr> =
     Inr (-1, [], \<lparr>fd_buf = [0, 0, 0, 2, 2], fd_max_frame_size = 2, fd_read_idx = 0\<rparr>)"
proof (rule full_read_refused_on_legal_stream)
  have rep: "length (encode_frames (replicate k \<lparr>frame_op = 4, frame_payload = []\<rparr>)) = 5 * k" for k
    by (induction k) simp_all
  show "length ([9] @ encode_frames (replicate 819 \<lparr>frame_op = 4, frame_payload = []\<rparr>)) = 4096"
    using rep [of 819] by simp
  show "decoder_pending \<lparr>fd_buf = [0, 0, 0, 2, 2], fd_max_frame_size = 2, fd_read_idx = 0\<rparr>
      @ [9] @ encode_frames (replicate 819 \<lparr>frame_op = 4, frame_payload = []\<rparr>)
      = encode_frames (\<lparr>frame_op = 2, frame_payload = [9]\<rparr> # replicate 819 \<lparr>frame_op = 4, frame_payload = []\<rparr>)"
    by (simp add: decoder_pending_def encode_frame_def write_be32_def)
qed (auto simp: decoder_ok_def decoder_pending_def frame_ok_def)

end
