(* ===== verification/Fell_Small_Payload.thy ===== *)
theory Fell_Small_Payload
  imports Fell_Prelude
begin

text \<open>
  \<^verbatim>\<open>SmallPayload\<close> of \<^verbatim>\<open>broker/include/broker/frame_decoder.hpp\<close>: a payload kept in the object up to its capacity and
  on the heap beyond. The heap is explicit, because the class manages it by hand: the theorem of this
  theory is that no sequence of its operations frees a block twice, leaks one, or loses bytes. The
  other theories take a frame's payload to be its bytes.
\<close>

section \<open>Definitions\<close>

type_synonym addr = nat

record byte_heap =
  hp_blocks :: "addr \<rightharpoonup> bytes"
  hp_next :: addr

record small_payload =
  sp_size :: nat
  sp_is_small :: bool
  sp_inline :: bytes
  sp_heap :: "addr option"

definition kSmallCapacity :: nat where
  "kSmallCapacity = 64"

definition SmallPayload :: small_payload where
  "SmallPayload = \<lparr>sp_size = 0, sp_is_small = True, sp_inline = [], sp_heap = None\<rparr>"

text \<open>\<^verbatim>\<open>delete[]\<close> of a block that is not allocated is a fault.\<close>

definition free_heap :: "byte_heap \<Rightarrow> small_payload \<Rightarrow> fault + byte_heap \<times> small_payload" where
  "free_heap h p =
     (if \<not> sp_is_small p then
        (case sp_heap p of
           None \<Rightarrow> Inr (h, p)
         | Some a \<Rightarrow> if hp_blocks h a = None then Inl Dangling
                    else Inr (h\<lparr>hp_blocks := (hp_blocks h)(a := None)\<rparr>, p\<lparr>sp_heap := None\<rparr>))
      else Inr (h, p))"

definition sp_assign :: "bytes \<Rightarrow> byte_heap \<Rightarrow> small_payload \<Rightarrow> fault + byte_heap \<times> small_payload" where
  "sp_assign data h p =
     (case free_heap h p of
        Inl e \<Rightarrow> Inl e
      | Inr (h, p) \<Rightarrow>
          if length data \<le> kSmallCapacity
          then Inr (h, p\<lparr>sp_size := length data, sp_is_small := True, sp_inline := data\<rparr>)
          else Inr (h\<lparr>hp_blocks := (hp_blocks h)(hp_next h \<mapsto> data), hp_next := hp_next h + 1\<rparr>,
                    p\<lparr>sp_size := length data, sp_is_small := False, sp_heap := Some (hp_next h)\<rparr>))"

text \<open>The source object of a move, afterwards.\<close>

definition moved_from :: "small_payload \<Rightarrow> small_payload" where
  "moved_from other =
     (if sp_is_small other then other
      else other\<lparr>sp_heap := None, sp_is_small := True, sp_size := 0\<rparr>)"

definition sp_move :: "small_payload \<Rightarrow> small_payload \<times> small_payload" where
  "sp_move other =
     (if sp_is_small other
      then (\<lparr>sp_size = sp_size other, sp_is_small = True, sp_inline = take (sp_size other) (sp_inline other), sp_heap = None\<rparr>, other)
      else (\<lparr>sp_size = sp_size other, sp_is_small = False, sp_inline = [], sp_heap = sp_heap other\<rparr>, moved_from other))"

text \<open>The bytes that \<^verbatim>\<open>data()\<close> and \<^verbatim>\<open>size()\<close> give; reading a block that is not allocated is a fault.\<close>

definition sp_data :: "byte_heap \<Rightarrow> small_payload \<Rightarrow> fault + bytes" where
  "sp_data h p =
     (if sp_is_small p then Inr (take (sp_size p) (sp_inline p))
      else case sp_heap p of
             None \<Rightarrow> Inl Dangling
           | Some a \<Rightarrow> (case hp_blocks h a of None \<Rightarrow> Inl Dangling | Some b \<Rightarrow> Inr (take (sp_size p) b)))"

text \<open>A program over payload objects, by their positions in a list.\<close>

datatype sp_op =
    SpNew                   \<comment> \<open>default construction\<close>
  | SpAssign nat bytes
  | SpMoveNew nat           \<comment> \<open>move construction of a new object\<close>
  | SpMoveAssign nat nat    \<comment> \<open>target, source\<close>
  | SpDestroy               \<comment> \<open>destruction of the last object\<close>

type_synonym sp_state = "byte_heap \<times> small_payload list"

fun sp_run :: "sp_op \<Rightarrow> sp_state \<Rightarrow> fault + sp_state" where
  "sp_run SpNew (h, ps) = Inr (h, ps @ [SmallPayload])"
| "sp_run (SpAssign i data) (h, ps) =
     (if i < length ps
      then (case sp_assign data h (ps ! i) of Inl e \<Rightarrow> Inl e | Inr (h', p) \<Rightarrow> Inr (h', ps[i := p]))
      else Inl OutOfBounds)"
| "sp_run (SpMoveNew j) (h, ps) =
     (if j < length ps then (case sp_move (ps ! j) of (p, other) \<Rightarrow> Inr (h, ps[j := other] @ [p]))
      else Inl OutOfBounds)"
| "sp_run (SpMoveAssign i j) (h, ps) =
     (if i < length ps \<and> j < length ps
      then (if i = j then Inr (h, ps)
            else case free_heap h (ps ! i) of
                   Inl e \<Rightarrow> Inl e
                 | Inr (h', _) \<Rightarrow> (case sp_move (ps ! j) of (p, other) \<Rightarrow> Inr (h', ps[j := other, i := p])))
      else Inl OutOfBounds)"
| "sp_run SpDestroy (h, ps) =
     (if ps = [] then Inl OutOfBounds
      else case free_heap h (last ps) of Inl e \<Rightarrow> Inl e | Inr (h', _) \<Rightarrow> Inr (h', butlast ps))"

fun sp_run_all :: "sp_op list \<Rightarrow> sp_state \<Rightarrow> fault + sp_state" where
  "sp_run_all [] s = Inr s"
| "sp_run_all (x # xs) s = (case sp_run x s of Inl e \<Rightarrow> Inl e | Inr s' \<Rightarrow> sp_run_all xs s')"

text \<open>
  What the class promises: objects are byte strings. A moved-from object keeps its bytes when they were
  in the object and is empty when they were on the heap. An operation on an object that does not exist
  is \<^const>\<open>None\<close>.
\<close>

definition left_behind :: "bytes \<Rightarrow> bytes" where
  "left_behind c = (if length c \<le> kSmallCapacity then c else [])"

fun sp_spec :: "sp_op \<Rightarrow> bytes list \<Rightarrow> bytes list option" where
  "sp_spec SpNew cs = Some (cs @ [[]])"
| "sp_spec (SpAssign i data) cs = (if i < length cs then Some (cs[i := data]) else None)"
| "sp_spec (SpMoveNew j) cs = (if j < length cs then Some (cs[j := left_behind (cs ! j)] @ [cs ! j]) else None)"
| "sp_spec (SpMoveAssign i j) cs =
     (if i < length cs \<and> j < length cs
      then Some (if i = j then cs else cs[j := left_behind (cs ! j), i := cs ! j]) else None)"
| "sp_spec SpDestroy cs = (if cs = [] then None else Some (butlast cs))"

fun sp_spec_all :: "sp_op list \<Rightarrow> bytes list \<Rightarrow> bytes list option" where
  "sp_spec_all [] cs = Some cs"
| "sp_spec_all (x # xs) cs = (case sp_spec x cs of None \<Rightarrow> None | Some cs' \<Rightarrow> sp_spec_all xs cs')"

definition no_heap :: byte_heap where
  "no_heap = \<lparr>hp_blocks = (\<lambda>_. None), hp_next = 0\<rparr>"

section \<open>Ownership\<close>

definition owner :: "small_payload \<Rightarrow> addr option" where
  "owner p = (if sp_is_small p then None else sp_heap p)"

definition holds :: "byte_heap \<Rightarrow> small_payload \<Rightarrow> bytes \<Rightarrow> bool" where
  "holds h p c =
     (sp_size p = length c
      \<and> (if sp_is_small p then length c \<le> kSmallCapacity \<and> take (length c) (sp_inline p) = c
         else kSmallCapacity < length c \<and> (\<exists>a. sp_heap p = Some a \<and> hp_blocks h a = Some c)))"

text \<open>Every object holds its bytes, and every block has exactly one owner.\<close>

definition sp_rel :: "sp_state \<Rightarrow> bytes list \<Rightarrow> bool" where
  "sp_rel s cs = (case s of (h, ps) \<Rightarrow>
     length ps = length cs
     \<and> (\<forall>i < length ps. holds h (ps ! i) (cs ! i))
     \<and> (\<forall>i j a. i < length ps \<longrightarrow> j < length ps \<longrightarrow> owner (ps ! i) = Some a \<longrightarrow> owner (ps ! j) = Some a \<longrightarrow> i = j)
     \<and> (\<forall>a. hp_blocks h a \<noteq> None \<longrightarrow> (\<exists>i < length ps. owner (ps ! i) = Some a) \<and> a < hp_next h))"

lemma holds_data: "holds h p c \<Longrightarrow> sp_data h p = Inr c"
  by (auto simp: holds_def sp_data_def split: if_splits)

lemma holds_owner: "holds h p c \<Longrightarrow> owner p = Some a \<Longrightarrow> hp_blocks h a = Some c"
  by (auto simp: holds_def owner_def split: if_splits)

lemma holds_other:
  assumes "holds h p c" "owner p \<noteq> Some a"
  shows "holds (h\<lparr>hp_blocks := (hp_blocks h)(a := x)\<rparr>) p c"
    "holds (h\<lparr>hp_blocks := (hp_blocks h)(a := x), hp_next := n\<rparr>) p c"
  using assms by (auto simp: holds_def owner_def split: if_splits)

lemma holds_new [simp]: "holds h SmallPayload []" "owner SmallPayload = None"
  by (simp_all add: holds_def SmallPayload_def owner_def)

lemma sp_relI:
  assumes "length ps = length cs" "\<And>i. i < length ps \<Longrightarrow> holds h (ps ! i) (cs ! i)"
    "\<And>i j a. \<lbrakk>i < length ps; j < length ps; owner (ps ! i) = Some a; owner (ps ! j) = Some a\<rbrakk> \<Longrightarrow> i = j"
    "\<And>a. hp_blocks h a \<noteq> None \<Longrightarrow> (\<exists>i < length ps. owner (ps ! i) = Some a) \<and> a < hp_next h"
  shows "sp_rel (h, ps) cs"
  using assms unfolding sp_rel_def split by blast

lemma sp_relD:
  assumes "sp_rel (h, ps) cs"
  shows "length ps = length cs" "i < length ps \<Longrightarrow> holds h (ps ! i) (cs ! i)"
    "\<lbrakk>i < length ps; j < length ps; owner (ps ! i) = Some a; owner (ps ! j) = Some a\<rbrakk> \<Longrightarrow> i = j"
    "hp_blocks h a \<noteq> None \<Longrightarrow> \<exists>i < length ps. owner (ps ! i) = Some a"
    "hp_blocks h a \<noteq> None \<Longrightarrow> a < hp_next h"
  using assms unfolding sp_rel_def split by blast+

lemma rel_append: "sp_rel (h, ps) cs \<Longrightarrow> sp_rel (h, ps @ [SmallPayload]) (cs @ [[]])"
  unfolding sp_rel_def split
  by (auto simp: nth_append less_Suc_eq split: if_splits) (metis less_SucI)

text \<open>Replacing an object by one that owns nothing, when the object's block is released.\<close>

lemma rel_release:
  assumes rel: "sp_rel (h, ps) cs" and i: "i < length ps" and a: "owner (ps ! i) = Some a"
  shows "sp_rel (h\<lparr>hp_blocks := (hp_blocks h)(a := None)\<rparr>, ps[i := SmallPayload]) (cs[i := []])"
proof (rule sp_relI)
  fix k assume k: "k < length (ps[i := SmallPayload])"
  show "holds (h\<lparr>hp_blocks := (hp_blocks h)(a := None)\<rparr>) (ps[i := SmallPayload] ! k) (cs[i := []] ! k)"
  proof (cases "k = i")
    case False
    then have "owner (ps ! k) \<noteq> Some a" using sp_relD(3) [OF rel, of k i a] i k a by auto
    then show ?thesis using False k sp_relD(2) [OF rel, of k] by (simp add: holds_other)
  qed (use i sp_relD(1) [OF rel] in simp)
next
  fix k l b
  assume "k < length (ps[i := SmallPayload])" "l < length (ps[i := SmallPayload])"
    "owner (ps[i := SmallPayload] ! k) = Some b" "owner (ps[i := SmallPayload] ! l) = Some b"
  then show "k = l" using sp_relD(3) [OF rel, of k l b] by (cases "k = i"; cases "l = i") auto
next
  fix b assume "hp_blocks (h\<lparr>hp_blocks := (hp_blocks h)(a := None)\<rparr>) b \<noteq> None"
  then have b: "hp_blocks h b \<noteq> None" "b \<noteq> a" by (auto split: if_splits)
  then obtain k where k: "k < length ps" "owner (ps ! k) = Some b" using sp_relD(4) [OF rel] by blast
  then have "k \<noteq> i" using a b by auto
  with k b show "(\<exists>k < length (ps[i := SmallPayload]). owner (ps[i := SmallPayload] ! k) = Some b)
      \<and> b < hp_next (h\<lparr>hp_blocks := (hp_blocks h)(a := None)\<rparr>)"
    using sp_relD(5) [OF rel, of b] by (auto intro!: exI [of _ k])
qed (use sp_relD(1) [OF rel] in simp)

text \<open>Replacing an object that owns nothing.\<close>

lemma rel_set_small:
  assumes rel: "sp_rel (h, ps) cs" and i: "i < length ps" and n: "owner (ps ! i) = None"
    and p: "owner p = None" "holds h p c"
  shows "sp_rel (h, ps[i := p]) (cs[i := c])"
proof (rule sp_relI)
  fix k assume "k < length (ps[i := p])"
  then show "holds h (ps[i := p] ! k) (cs[i := c] ! k)"
    using sp_relD(1) [OF rel] sp_relD(2) [OF rel, of k] p by (cases "k = i") auto
next
  fix k l b
  assume "k < length (ps[i := p])" "l < length (ps[i := p])"
    "owner (ps[i := p] ! k) = Some b" "owner (ps[i := p] ! l) = Some b"
  then show "k = l" using sp_relD(3) [OF rel, of k l b] p by (cases "k = i"; cases "l = i") auto
next
  fix b assume b: "hp_blocks h b \<noteq> None"
  then obtain k where k: "k < length ps" "owner (ps ! k) = Some b" using sp_relD(4) [OF rel] by blast
  then have "k \<noteq> i" using n by auto
  with k b show "(\<exists>k < length (ps[i := p]). owner (ps[i := p] ! k) = Some b) \<and> b < hp_next h"
    using sp_relD(5) [OF rel, of b] by (auto intro!: exI [of _ k])
qed (use sp_relD(1) [OF rel] in simp)

lemma rel_set_fresh:
  assumes rel: "sp_rel (h, ps) cs" and i: "i < length ps" and n: "owner (ps ! i) = None"
    and p: "owner p = Some (hp_next h)"
    and h': "h' = h\<lparr>hp_blocks := (hp_blocks h)(hp_next h \<mapsto> c), hp_next := hp_next h + 1\<rparr>"
    and c: "holds h' p c"
  shows "sp_rel (h', ps[i := p]) (cs[i := c])"
proof (rule sp_relI)
  have fresh: "owner (ps ! j) \<noteq> Some (hp_next h)" if "j < length ps" for j
    using sp_relD(2) [OF rel that] holds_owner sp_relD(5) [OF rel] by (metis less_irrefl option.distinct(1))
  { fix k assume "k < length (ps[i := p])"
    then show "holds h' (ps[i := p] ! k) (cs[i := c] ! k)"
      using sp_relD(1) [OF rel] sp_relD(2) [OF rel, of k] c fresh [of k] by (cases "k = i") (auto simp: h' holds_other) }
  { fix k l b
    assume "k < length (ps[i := p])" "l < length (ps[i := p])"
      "owner (ps[i := p] ! k) = Some b" "owner (ps[i := p] ! l) = Some b"
    then show "k = l" using sp_relD(3) [OF rel, of k l b] p fresh by (cases "k = i"; cases "l = i") auto }
  fix b assume "hp_blocks h' b \<noteq> None"
  then consider "b = hp_next h" | "hp_blocks h b \<noteq> None" by (auto simp: h' split: if_splits)
  then show "(\<exists>k < length (ps[i := p]). owner (ps[i := p] ! k) = Some b) \<and> b < hp_next h'"
  proof cases
    case 1 then show ?thesis using i p by (auto simp: h' intro!: exI [of _ i])
  next
    case 2
    then obtain k where k: "k < length ps" "owner (ps ! k) = Some b" using sp_relD(4) [OF rel] by blast
    then have "k \<noteq> i" using n by auto
    with k 2 show ?thesis using sp_relD(5) [OF rel 2] by (auto simp: h' intro!: exI [of _ k])
  qed
qed (use sp_relD(1) [OF rel] in simp)

lemma sp_move_holds:
  assumes "holds h p c" "sp_move p = (q, r)"
  shows "holds h q c" "holds h r (left_behind c)" "owner q = owner p" "owner r = None"
  using assms by (auto simp: holds_def sp_move_def owner_def moved_from_def left_behind_def split: if_splits)

lemma rel_move:
  assumes rel: "sp_rel (h, ps) cs" and ij: "i < length ps" "j < length ps" "i \<noteq> j"
    and n: "owner (ps ! i) = None" and mv: "sp_move (ps ! j) = (p, r)"
  shows "sp_rel (h, ps[j := r, i := p]) (cs[j := left_behind (cs ! j), i := cs ! j])"
proof (rule sp_relI)
  note m = sp_move_holds [OF sp_relD(2) [OF rel ij(2)] mv]
  have o: "owner (ps[j := r, i := p] ! k) = (if k = i then owner (ps ! j) else if k = j then None else owner (ps ! k))"
    if "k < length ps" for k using that m ij by (simp add: nth_list_update)
  { fix k assume "k < length (ps[j := r, i := p])"
    then show "holds h (ps[j := r, i := p] ! k) (cs[j := left_behind (cs ! j), i := cs ! j] ! k)"
      using sp_relD(1) [OF rel] sp_relD(2) [OF rel, of k] m(1,2) ij
      by (cases "k = i"; cases "k = j") simp_all }
  { fix k l b
    assume "k < length (ps[j := r, i := p])" "l < length (ps[j := r, i := p])"
      "owner (ps[j := r, i := p] ! k) = Some b" "owner (ps[j := r, i := p] ! l) = Some b"
    then show "k = l" using sp_relD(3) [OF rel, of k l b] sp_relD(3) [OF rel, of j l b] sp_relD(3) [OF rel, of k j b] ij m(3,4)
      by (cases "k = i"; cases "l = i"; cases "k = j"; cases "l = j") simp_all }
  fix b assume b: "hp_blocks h b \<noteq> None"
  then obtain k where k: "k < length ps" "owner (ps ! k) = Some b" using sp_relD(4) [OF rel] by blast
  then have "k \<noteq> i" using n by auto
  then have "owner (ps[j := r, i := p] ! (if k = j then i else k)) = Some b" using k ij by (auto simp: o)
  then show "(\<exists>k < length (ps[j := r, i := p]). owner (ps[j := r, i := p] ! k) = Some b) \<and> b < hp_next h"
    using k ij sp_relD(5) [OF rel b] by (auto split: if_splits)
qed (use sp_relD(1) [OF rel] in simp)

lemma rel_butlast:
  assumes rel: "sp_rel (h, ps) cs" and ne: "ps \<noteq> []" and n: "owner (last ps) = None"
  shows "sp_rel (h, butlast ps) (butlast cs)"
proof (rule sp_relI)
  { fix k assume "k < length (butlast ps)"
    then show "holds h (butlast ps ! k) (butlast cs ! k)"
      using sp_relD(1) [OF rel] sp_relD(2) [OF rel, of k] by (simp add: nth_butlast) }
  { fix k l b assume "k < length (butlast ps)" "l < length (butlast ps)"
      "owner (butlast ps ! k) = Some b" "owner (butlast ps ! l) = Some b"
    then show "k = l" using sp_relD(3) [OF rel, of k l b] by (simp add: nth_butlast) }
  fix b assume b: "hp_blocks h b \<noteq> None"
  then obtain k where k: "k < length ps" "owner (ps ! k) = Some b" using sp_relD(4) [OF rel] by blast
  then have "k \<noteq> length ps - 1" using n ne by (auto simp: last_conv_nth)
  then have "k < length (butlast ps)" using k by simp
  with k b show "(\<exists>k < length (butlast ps). owner (butlast ps ! k) = Some b) \<and> b < hp_next h"
    using sp_relD(5) [OF rel b] by (auto simp: nth_butlast intro!: exI [of _ k])
qed (use sp_relD(1) [OF rel] in simp)

lemma rel_free:
  assumes rel: "sp_rel (h, ps) cs" and i: "i < length ps"
  obtains h' p' where "free_heap h (ps ! i) = Inr (h', p')" "sp_rel (h', ps[i := SmallPayload]) (cs[i := []])"
proof (cases "owner (ps ! i)")
  case None
  then have "free_heap h (ps ! i) = Inr (h, ps ! i)"
    using sp_relD(2) [OF rel i] by (auto simp: free_heap_def owner_def holds_def split: if_splits)
  with rel_set_small [OF rel i None, of SmallPayload "[]"] that show ?thesis by simp
next
  case (Some a)
  then have "hp_blocks h a \<noteq> None" using holds_owner [OF sp_relD(2) [OF rel i]] by auto
  then have "free_heap h (ps ! i) = Inr (h\<lparr>hp_blocks := (hp_blocks h)(a := None)\<rparr>, (ps ! i)\<lparr>sp_heap := None\<rparr>)"
    using Some by (auto simp: free_heap_def owner_def split: if_splits)
  with rel_release [OF rel i Some] that show ?thesis by blast
qed

lemma run_assign_ok:
  assumes rel: "sp_rel (h, ps) cs" and i: "i < length ps"
  shows "\<exists>s'. sp_run (SpAssign i d) (h, ps) = Inr s' \<and> sp_rel s' (cs[i := d])"
proof -
  obtain h' p' where f: "free_heap h (ps ! i) = Inr (h', p')" and r: "sp_rel (h', ps[i := SmallPayload]) (cs[i := []])"
    using rel_free [OF rel i] .
  have i': "i < length (ps[i := SmallPayload])" "owner (ps[i := SmallPayload] ! i) = None" using i by simp_all
  show ?thesis
  proof (cases "length d \<le> kSmallCapacity")
    case True
    let ?p = "p'\<lparr>sp_size := length d, sp_is_small := True, sp_inline := d\<rparr>"
    have "sp_rel (h', ps[i := ?p]) (cs[i := d])"
      using rel_set_small [OF r i', of ?p d] True by (simp add: owner_def holds_def)
    then show ?thesis using True i f by (simp add: sp_assign_def)
  next
    case False
    let ?p = "p'\<lparr>sp_size := length d, sp_is_small := False, sp_heap := Some (hp_next h')\<rparr>"
    let ?h = "h'\<lparr>hp_blocks := (hp_blocks h')(hp_next h' \<mapsto> d), hp_next := hp_next h' + 1\<rparr>"
    have "sp_rel (?h, ps[i := ?p]) (cs[i := d])"
      using rel_set_fresh [OF r i', of ?p ?h d] False by (simp add: owner_def holds_def)
    then show ?thesis using False i f by (simp add: sp_assign_def)
  qed
qed

lemma run_move_new_ok:
  assumes rel: "sp_rel (h, ps) cs" and j: "j < length ps"
  shows "\<exists>s'. sp_run (SpMoveNew j) (h, ps) = Inr s' \<and> sp_rel s' (cs[j := left_behind (cs ! j)] @ [cs ! j])"
proof -
  obtain p r where mv: "sp_move (ps ! j) = (p, r)" by (cases "sp_move (ps ! j)")
  have "sp_rel (h, (ps @ [SmallPayload])[j := r, length ps := p])
          ((cs @ [[]])[j := left_behind ((cs @ [[]]) ! j), length ps := (cs @ [[]]) ! j])"
    by (rule rel_move [OF rel_append [OF rel]]) (use j mv in \<open>simp_all add: nth_append\<close>)
  then show ?thesis using j mv sp_relD(1) [OF rel] by (simp add: nth_append list_update_append)
qed

lemma run_move_assign_ok:
  assumes rel: "sp_rel (h, ps) cs" and ij: "i < length ps" "j < length ps" "i \<noteq> j"
  shows "\<exists>s'. sp_run (SpMoveAssign i j) (h, ps) = Inr s' \<and> sp_rel s' (cs[j := left_behind (cs ! j), i := cs ! j])"
proof -
  obtain h' p' where f: "free_heap h (ps ! i) = Inr (h', p')" and r: "sp_rel (h', ps[i := SmallPayload]) (cs[i := []])"
    using rel_free [OF rel ij(1)] .
  obtain p q where mv: "sp_move (ps ! j) = (p, q)" by (cases "sp_move (ps ! j)")
  have "sp_rel (h', ps[i := SmallPayload, j := q, i := p])
          (cs[i := [], j := left_behind (cs[i := []] ! j), i := cs[i := []] ! j])"
    by (rule rel_move [OF r]) (use ij mv in simp_all)
  then show ?thesis using ij f mv by (simp add: list_update_swap [of i j])
qed

lemma run_destroy_ok:
  assumes rel: "sp_rel (h, ps) cs" and ne: "ps \<noteq> []"
  shows "\<exists>s'. sp_run SpDestroy (h, ps) = Inr s' \<and> sp_rel s' (butlast cs)"
proof -
  let ?i = "length ps - 1"
  have i: "?i < length ps" using ne by simp
  obtain h' p' where f: "free_heap h (ps ! ?i) = Inr (h', p')" and r: "sp_rel (h', ps[?i := SmallPayload]) (cs[?i := []])"
    using rel_free [OF rel i] .
  have "sp_rel (h', butlast (ps[?i := SmallPayload])) (butlast (cs[?i := []]))"
    by (rule rel_butlast [OF r]) (use ne in \<open>simp_all add: last_conv_nth\<close>)
  then show ?thesis using ne f sp_relD(1) [OF rel] by (simp add: last_conv_nth butlast_list_update)
qed

lemma sp_run_ok:
  assumes rel: "sp_rel (h, ps) cs" and sp: "sp_spec x cs = Some cs'"
  shows "\<exists>s'. sp_run x (h, ps) = Inr s' \<and> sp_rel s' cs'"
proof (cases x)
  case SpNew
  then show ?thesis using sp rel_append [OF rel] by simp
next
  case (SpMoveAssign i j)
  then show ?thesis using sp sp_relD(1) [OF rel] rel run_move_assign_ok [OF rel, of i j] by (cases "i = j") (auto split: if_splits)
next
  case SpDestroy
  then have "ps \<noteq> []" "cs' = butlast cs" using sp sp_relD(1) [OF rel] by (auto split: if_splits)
  with SpDestroy run_destroy_ok [OF rel] show ?thesis by simp
qed (use sp sp_relD(1) [OF rel] run_assign_ok [OF rel] run_move_new_ok [OF rel] in
      \<open>auto simp del: sp_run.simps split: if_splits\<close>)

lemma sp_run_all_ok:
  assumes "sp_rel s cs" "sp_spec_all xs cs = Some cs'"
  shows "\<exists>s'. sp_run_all xs s = Inr s' \<and> sp_rel s' cs'"
  using assms
proof (induction xs arbitrary: s cs)
  case (Cons x xs)
  then obtain d where d: "sp_spec x cs = Some d" "sp_spec_all xs d = Some cs'" by (auto split: option.splits)
  obtain h ps where s: "s = (h, ps)" by (cases s)
  obtain s1 where "sp_run x s = Inr s1" "sp_rel s1 d" using sp_run_ok [OF Cons.prems(1) [unfolded s] d(1)] s by blast
  with Cons.IH [OF _ d(2)] show ?case by simp
qed simp

lemma no_heap_rel: "sp_rel (no_heap, []) []"
  by (simp add: sp_rel_def no_heap_def)

section \<open>Properties\<close>

text \<open>C30. Objects of \<^verbatim>\<open>SmallPayload\<close> are used by any sequence of default constructions, assignments, move
  constructions, move assignments and destructions. Then no operation frees or reads a block that is
  not allocated, every object holds the bytes that a byte string would hold there, and when all the
  objects are gone no block is left on the heap.\<close>

theorem small_payload_no_leak_no_double_free:
  assumes "sp_spec_all ops [] = Some cs"
  shows "\<exists>h ps. sp_run_all ops (no_heap, []) = Inr (h, ps)
           \<and> map (sp_data h) ps = map Inr cs
           \<and> (cs = [] \<longrightarrow> (\<forall>a. hp_blocks h a = None))"
proof -
  obtain h ps where run: "sp_run_all ops (no_heap, []) = Inr (h, ps)" and r: "sp_rel (h, ps) cs"
    using sp_run_all_ok [OF no_heap_rel assms] by auto
  have "map (sp_data h) ps = map Inr cs"
    by (rule nth_equalityI) (use sp_relD(1,2) [OF r] in \<open>auto simp: holds_data\<close>)
  moreover have "hp_blocks h a = None" if "cs = []" for a
    using sp_relD(4) [OF r, of a] sp_relD(1) [OF r] that by (cases "hp_blocks h a") auto
  ultimately show ?thesis using run by blast
qed

definition sp_example :: "sp_op list" where
  "sp_example = [SpNew, SpAssign 0 (replicate 65 7), SpMoveNew 0, SpAssign 0 [1, 2], SpMoveAssign 0 1, SpDestroy, SpDestroy]"

theorem small_payload_no_leak_no_double_free_witness:
  "sp_spec_all sp_example [] = Some []
   \<and> (\<exists>h. sp_run_all sp_example (no_heap, []) = Inr (h, []) \<and> (\<forall>a. hp_blocks h a = None))"
proof -
  have sp: "sp_spec_all sp_example [] = Some []" by (simp add: sp_example_def left_behind_def kSmallCapacity_def)
  from small_payload_no_leak_no_double_free [OF this] sp show ?thesis by auto
qed

end
