(* ===== verification/Fell_Protocol.thy ===== *)
theory Fell_Protocol
  imports Fell_Frame_Decoder Fell_Log_Format
begin

text \<open>
  The packed structs of \<^verbatim>\<open>broker/include/broker/protocol.hpp\<close> and
  \<^verbatim>\<open>replication/include/replication/repl_protocol.hpp\<close>, as records of what their fields mean: a length
  byte and a 255-byte buffer are the string they denote, big-endian fields are their host values. For
  each struct, its bytes on the wire and the reading of them. The contract of such a struct is the
  locale \<open>struct_codec\<close>, a weaker form of \<open>fixed_codec\<close>: padding is not read back.
\<close>

section \<open>Definitions\<close>

subsection \<open>Strings and name fields\<close>

definition byte_of :: "char \<Rightarrow> u8" where
  "byte_of c = of_nat (of_char c)"

definition char_of_byte :: "u8 \<Rightarrow> char" where
  "char_of_byte b = char_of (unat b)"

definition bytes_of :: "string \<Rightarrow> bytes" where
  "bytes_of s = map byte_of s"

definition str_of :: "bytes \<Rightarrow> string" where
  "str_of bs = map char_of_byte bs"

text \<open>A zeroed pair of a length byte and \<^verbatim>\<open>char name[255]\<close>, filled from a string of which at most 255
  characters fit.\<close>

definition name_field :: "string \<Rightarrow> bytes" where
  "name_field s = of_nat (min (length s) 255) # bytes_of (take 255 s) @ replicate (255 - length s) 0"

text \<open>\<^verbatim>\<open>std::string(name, name_len)\<close>, the pair being at the start of the bytes.\<close>

definition field_name :: "bytes \<Rightarrow> string" where
  "field_name bs = str_of (take (unat (bs ! 0)) (drop 1 bs))"

subsection \<open>Requests of clients\<close>

record create_topic_req =
  ct_name :: string
  ct_num_partitions :: u16

record metadata_req =
  md_topic :: string

record publish_req =
  pr_topic :: string
  pr_partition :: u16
  pr_payload_size :: u32

record publish_v2_req =
  pv_topic :: string
  pv_partition :: u16
  pv_key :: string
  pv_payload_size :: u32

record subscribe_req =
  sb_topic :: string
  sb_partition :: u16
  sb_start_offset :: u64

record fetch_req =
  fr_topic :: string
  fr_partition :: u16
  fr_offset :: u64
  fr_max_messages :: u16

text \<open>\<^verbatim>\<open>sizeof\<close> of the packed structs.\<close>

definition sizeof_CreateTopicReq :: nat where "sizeof_CreateTopicReq = 258"
definition sizeof_MetadataReq :: nat where "sizeof_MetadataReq = 256"
definition sizeof_PublishReq :: nat where "sizeof_PublishReq = 262"
definition sizeof_PublishV2Req :: nat where "sizeof_PublishV2Req = 518"
definition sizeof_SubscribeReq :: nat where "sizeof_SubscribeReq = 266"
definition sizeof_FetchReq :: nat where "sizeof_FetchReq = 268"

lemmas sizeof_defs = sizeof_CreateTopicReq_def sizeof_MetadataReq_def sizeof_PublishReq_def
  sizeof_PublishV2Req_def sizeof_SubscribeReq_def sizeof_FetchReq_def

definition encode_create_topic_req :: "create_topic_req \<Rightarrow> bytes" where
  "encode_create_topic_req r = name_field (ct_name r) @ write_be16 (ct_num_partitions r)"

definition decode_create_topic_req :: "bytes \<Rightarrow> create_topic_req" where
  "decode_create_topic_req bs = \<lparr>ct_name = field_name bs, ct_num_partitions = read_be16 (drop 256 bs)\<rparr>"

definition encode_metadata_req :: "metadata_req \<Rightarrow> bytes" where
  "encode_metadata_req r = name_field (md_topic r)"

definition decode_metadata_req :: "bytes \<Rightarrow> metadata_req" where
  "decode_metadata_req bs = \<lparr>md_topic = field_name bs\<rparr>"

definition encode_publish_req :: "publish_req \<Rightarrow> bytes" where
  "encode_publish_req r = name_field (pr_topic r) @ write_be16 (pr_partition r) @ write_be32 (pr_payload_size r)"

definition decode_publish_req :: "bytes \<Rightarrow> publish_req" where
  "decode_publish_req bs =
     \<lparr>pr_topic = field_name bs, pr_partition = read_be16 (drop 256 bs), pr_payload_size = read_be32 (drop 258 bs)\<rparr>"

definition encode_publish_v2_req :: "publish_v2_req \<Rightarrow> bytes" where
  "encode_publish_v2_req r =
     name_field (pv_topic r) @ write_be16 (pv_partition r) @ name_field (pv_key r) @ write_be32 (pv_payload_size r)"

definition decode_publish_v2_req :: "bytes \<Rightarrow> publish_v2_req" where
  "decode_publish_v2_req bs =
     \<lparr>pv_topic = field_name bs, pv_partition = read_be16 (drop 256 bs), pv_key = field_name (drop 258 bs),
      pv_payload_size = read_be32 (drop 514 bs)\<rparr>"

definition encode_subscribe_req :: "subscribe_req \<Rightarrow> bytes" where
  "encode_subscribe_req r = name_field (sb_topic r) @ write_be16 (sb_partition r) @ write_be64 (sb_start_offset r)"

definition decode_subscribe_req :: "bytes \<Rightarrow> subscribe_req" where
  "decode_subscribe_req bs =
     \<lparr>sb_topic = field_name bs, sb_partition = read_be16 (drop 256 bs), sb_start_offset = read_be64 (drop 258 bs)\<rparr>"

definition encode_fetch_req :: "fetch_req \<Rightarrow> bytes" where
  "encode_fetch_req r =
     name_field (fr_topic r) @ write_be16 (fr_partition r) @ write_be64 (fr_offset r) @ write_be16 (fr_max_messages r)"

definition decode_fetch_req :: "bytes \<Rightarrow> fetch_req" where
  "decode_fetch_req bs =
     \<lparr>fr_topic = field_name bs, fr_partition = read_be16 (drop 256 bs), fr_offset = read_be64 (drop 258 bs),
      fr_max_messages = read_be16 (drop 266 bs)\<rparr>"

subsection \<open>Responses of the broker\<close>

record fetch_response_header =
  fh_offset :: u64
  fh_timestamp_ms :: u64
  fh_payload_size :: u32

record error_resp =
  er_code :: u8
  er_msg :: string

definition encode_fetch_response_header :: "fetch_response_header \<Rightarrow> bytes" where
  "encode_fetch_response_header h =
     write_be64 (fh_offset h) @ write_be64 (fh_timestamp_ms h) @ write_be32 (fh_payload_size h)"

definition decode_fetch_response_header :: "bytes \<Rightarrow> fetch_response_header" where
  "decode_fetch_response_header bs =
     \<lparr>fh_offset = read_be64 bs, fh_timestamp_ms = read_be64 (drop 8 bs), fh_payload_size = read_be32 (drop 16 bs)\<rparr>"

definition encode_error_resp :: "error_resp \<Rightarrow> bytes" where
  "encode_error_resp e = er_code e # name_field (er_msg e)"

definition decode_error_resp :: "bytes \<Rightarrow> error_resp" where
  "decode_error_resp bs = \<lparr>er_code = bs ! 0, er_msg = field_name (drop 1 bs)\<rparr>"

text \<open>\<^verbatim>\<open>RequestHandler::encode_ack\<close> and \<^verbatim>\<open>encode_error\<close>.\<close>

definition encode_ack :: "u64 \<Rightarrow> bytes" where
  "encode_ack v = encode_frame \<lparr>frame_op = ACK, frame_payload = write_be64 v\<rparr>"

definition encode_error :: "err_code \<Rightarrow> string \<Rightarrow> bytes" where
  "encode_error code msg =
     encode_frame \<lparr>frame_op = ERR, frame_payload = encode_error_resp \<lparr>er_code = err_byte code, er_msg = msg\<rparr>\<rparr>"

subsection \<open>Replication\<close>

text \<open>\<^verbatim>\<open>enum class ReplOp : uint8_t\<close>.\<close>

definition FETCH_LOG :: op_code where "FETCH_LOG = 0x01"
definition REPLICA_SYNC :: op_code where "REPLICA_SYNC = 0x02"
definition REPLICA_SYNC_END :: op_code where "REPLICA_SYNC_END = 0x03"
definition REPLICA_ACK :: op_code where "REPLICA_ACK = 0x04"
definition HEARTBEAT :: op_code where "HEARTBEAT = 0x05"
definition LEADER_ELECTION :: op_code where "LEADER_ELECTION = 0x07"

lemmas repl_op_defs = FETCH_LOG_def REPLICA_SYNC_def REPLICA_SYNC_END_def REPLICA_ACK_def
  HEARTBEAT_def LEADER_ELECTION_def

record fetch_log_req =
  fl_topic :: string
  fl_partition :: u16
  fl_start_offset :: u64
  fl_follower_id :: u32

record replica_sync_header =
  sy_topic :: string
  sy_partition :: u16
  sy_epoch :: u32
  sy_offset :: u64
  sy_timestamp_ms :: u64
  sy_payload_size :: u32

record replica_ack =
  ra_topic :: string
  ra_partition :: u16
  ra_epoch :: u32
  ra_acked_offset :: u64
  ra_follower_id :: u32

record heartbeat =
  hb_sender_id :: u32
  hb_timestamp_ms :: u64
  hb_committed_offset :: u64

record leader_election =
  le_topic :: string
  le_partition :: u16
  le_new_leader_id :: u32
  le_epoch :: u32
  le_committed_offset :: u64

definition sizeof_FetchLogReq :: nat where "sizeof_FetchLogReq = 270"
definition sizeof_ReplicaSyncHeader :: nat where "sizeof_ReplicaSyncHeader = 282"
definition sizeof_ReplicaAck :: nat where "sizeof_ReplicaAck = 274"
definition sizeof_Heartbeat :: nat where "sizeof_Heartbeat = 20"
definition sizeof_LeaderElection :: nat where "sizeof_LeaderElection = 274"

lemmas sizeof_repl_defs = sizeof_FetchLogReq_def sizeof_ReplicaSyncHeader_def sizeof_ReplicaAck_def
  sizeof_Heartbeat_def sizeof_LeaderElection_def

definition encode_fetch_log_req :: "fetch_log_req \<Rightarrow> bytes" where
  "encode_fetch_log_req r =
     name_field (fl_topic r) @ mem16 (host_to_be16 (fl_partition r)) @ mem64 (host_to_be64 (fl_start_offset r))
     @ mem32 (host_to_be32 (fl_follower_id r))"

definition decode_fetch_log_req :: "bytes \<Rightarrow> fetch_log_req" where
  "decode_fetch_log_req bs =
     \<lparr>fl_topic = field_name bs, fl_partition = be16_to_host (load16 (bytes_at 256 2 bs)),
      fl_start_offset = be64_to_host (load64 (bytes_at 258 8 bs)),
      fl_follower_id = be32_to_host (load32 (bytes_at 266 4 bs))\<rparr>"

definition encode_replica_sync_header :: "replica_sync_header \<Rightarrow> bytes" where
  "encode_replica_sync_header h =
     name_field (sy_topic h) @ mem16 (host_to_be16 (sy_partition h)) @ mem32 (host_to_be32 (sy_epoch h))
     @ mem64 (host_to_be64 (sy_offset h)) @ mem64 (host_to_be64 (sy_timestamp_ms h))
     @ mem32 (host_to_be32 (sy_payload_size h))"

definition decode_replica_sync_header :: "bytes \<Rightarrow> replica_sync_header" where
  "decode_replica_sync_header bs =
     \<lparr>sy_topic = field_name bs, sy_partition = be16_to_host (load16 (bytes_at 256 2 bs)),
      sy_epoch = be32_to_host (load32 (bytes_at 258 4 bs)),
      sy_offset = be64_to_host (load64 (bytes_at 262 8 bs)),
      sy_timestamp_ms = be64_to_host (load64 (bytes_at 270 8 bs)),
      sy_payload_size = be32_to_host (load32 (bytes_at 278 4 bs))\<rparr>"

definition encode_replica_ack :: "replica_ack \<Rightarrow> bytes" where
  "encode_replica_ack a =
     name_field (ra_topic a) @ mem16 (host_to_be16 (ra_partition a)) @ mem32 (host_to_be32 (ra_epoch a))
     @ mem64 (host_to_be64 (ra_acked_offset a)) @ mem32 (host_to_be32 (ra_follower_id a))"

definition decode_replica_ack :: "bytes \<Rightarrow> replica_ack" where
  "decode_replica_ack bs =
     \<lparr>ra_topic = field_name bs, ra_partition = be16_to_host (load16 (bytes_at 256 2 bs)),
      ra_epoch = be32_to_host (load32 (bytes_at 258 4 bs)),
      ra_acked_offset = be64_to_host (load64 (bytes_at 262 8 bs)),
      ra_follower_id = be32_to_host (load32 (bytes_at 270 4 bs))\<rparr>"

definition encode_leader_election :: "leader_election \<Rightarrow> bytes" where
  "encode_leader_election e =
     name_field (le_topic e) @ mem16 (host_to_be16 (le_partition e)) @ mem32 (host_to_be32 (le_new_leader_id e))
     @ mem32 (host_to_be32 (le_epoch e)) @ mem64 (host_to_be64 (le_committed_offset e))"

definition decode_leader_election :: "bytes \<Rightarrow> leader_election" where
  "decode_leader_election bs =
     \<lparr>le_topic = field_name bs, le_partition = be16_to_host (load16 (bytes_at 256 2 bs)),
      le_new_leader_id = be32_to_host (load32 (bytes_at 258 4 bs)),
      le_epoch = be32_to_host (load32 (bytes_at 262 4 bs)),
      le_committed_offset = be64_to_host (load64 (bytes_at 266 8 bs))\<rparr>"

definition decode_heartbeat :: "bytes \<Rightarrow> heartbeat" where
  "decode_heartbeat bs =
     \<lparr>hb_sender_id = be32_to_host (load32 (bytes_at 0 4 bs)),
      hb_timestamp_ms = be64_to_host (load64 (bytes_at 4 8 bs)),
      hb_committed_offset = be64_to_host (load64 (bytes_at 12 8 bs))\<rparr>"

text \<open>A frame on the replication channel: its length, the operation, the struct and what follows it.\<close>

definition repl_frame :: "op_code \<Rightarrow> bytes \<Rightarrow> bytes" where
  "repl_frame op body = mem32 (host_to_be32 (of_nat (length body) + 1)) @ [op] @ body"

section \<open>The contract of a packed struct\<close>

locale struct_codec =
  fixes valid :: "'a \<Rightarrow> bool" and enc :: "'a \<Rightarrow> bytes" and dec :: "bytes \<Rightarrow> 'a" and width :: nat
  assumes width_enc: "valid x \<Longrightarrow> length (enc x) = width"
    and read_enc: "valid x \<Longrightarrow> dec (enc x @ rest) = x"
begin

lemma enc_inject: "valid x \<Longrightarrow> valid y \<Longrightarrow> enc x @ r = enc y @ s \<longleftrightarrow> x = y \<and> r = s"
  by (metis append_eq_append_conv width_enc read_enc)

lemma enough: "valid x \<Longrightarrow> width \<le> length (enc x @ rest)"
  by (simp add: width_enc)

lemma body: "valid x \<Longrightarrow> drop width (enc x @ rest) = rest"
  by (simp add: width_enc)

end

sublocale fixed_codec \<subseteq> codec: struct_codec "\<lambda>_. True" enc dec width
  by unfold_locales (simp_all add: length_enc dec_enc)

section \<open>Round trips\<close>

lemma char_of_byte_of [simp]: "char_of_byte (byte_of c) = c"
proof -
  have "(of_char c :: nat) < 256" by simp
  then show ?thesis by (simp add: char_of_byte_def byte_of_def unat_of_nat take_bit_nat_eq_self)
qed

lemma byte_of_char_of_byte [simp]: "byte_of (char_of_byte b) = b"
  using unat_lt_u8 [of b] by (simp add: char_of_byte_def byte_of_def of_char_of take_bit_nat_eq_self)

lemma str_of_bytes_of [simp]: "str_of (bytes_of s) = s"
  by (simp add: str_of_def bytes_of_def comp_def)

lemma bytes_of_str_of [simp]: "bytes_of (str_of bs) = bs"
  by (simp add: str_of_def bytes_of_def comp_def)

lemma length_str_of [simp]: "length (str_of bs) = length bs" "length (bytes_of s) = length s"
  by (simp_all add: str_of_def bytes_of_def)

lemma length_name_field [simp, codec_simps]: "length (name_field s) = 256"
  by (simp add: name_field_def)

lemma field_name_field [codec_simps]: "length s \<le> 255 \<Longrightarrow> field_name (name_field s @ r) = s"
  by (simp add: name_field_def field_name_def unat_of_nat take_bit_nat_eq_self min_def)

lemma field_name_length: "length (field_name bs) \<le> 255"
  using unat_lt_u8 [of "bs ! 0"] by (simp add: field_name_def min_def)

lemmas struct_simps = codec_simps bytes_at_def

interpretation create_topic: struct_codec "\<lambda>r. length (ct_name r) \<le> 255" encode_create_topic_req decode_create_topic_req 258
  by unfold_locales (simp_all add: encode_create_topic_req_def decode_create_topic_req_def struct_simps)

interpretation metadata: struct_codec "\<lambda>r. length (md_topic r) \<le> 255" encode_metadata_req decode_metadata_req 256
  by unfold_locales (simp_all add: encode_metadata_req_def decode_metadata_req_def struct_simps)

interpretation publish: struct_codec "\<lambda>r. length (pr_topic r) \<le> 255" encode_publish_req decode_publish_req 262
  by unfold_locales (simp_all add: encode_publish_req_def decode_publish_req_def struct_simps)

interpretation publish_v2: struct_codec "\<lambda>r. length (pv_topic r) \<le> 255 \<and> length (pv_key r) \<le> 255"
  encode_publish_v2_req decode_publish_v2_req 518
  by unfold_locales (simp_all add: encode_publish_v2_req_def decode_publish_v2_req_def struct_simps)

interpretation subscribe: struct_codec "\<lambda>r. length (sb_topic r) \<le> 255" encode_subscribe_req decode_subscribe_req 266
  by unfold_locales (simp_all add: encode_subscribe_req_def decode_subscribe_req_def struct_simps)

interpretation fetch: struct_codec "\<lambda>r. length (fr_topic r) \<le> 255" encode_fetch_req decode_fetch_req 268
  by unfold_locales (simp_all add: encode_fetch_req_def decode_fetch_req_def struct_simps)

interpretation fetch_response: struct_codec "\<lambda>r. True" encode_fetch_response_header decode_fetch_response_header 20
  by unfold_locales (simp_all add: encode_fetch_response_header_def decode_fetch_response_header_def struct_simps)

interpretation error: struct_codec "\<lambda>r. length (er_msg r) \<le> 255" encode_error_resp decode_error_resp 257
  by unfold_locales (simp_all add: encode_error_resp_def decode_error_resp_def struct_simps)

interpretation fetch_log: struct_codec "\<lambda>r. length (fl_topic r) \<le> 255" encode_fetch_log_req decode_fetch_log_req 270
  by unfold_locales (simp_all add: encode_fetch_log_req_def decode_fetch_log_req_def struct_simps)

interpretation sync_header: struct_codec "\<lambda>r. length (sy_topic r) \<le> 255"
  encode_replica_sync_header decode_replica_sync_header 282
  by unfold_locales (simp_all add: encode_replica_sync_header_def decode_replica_sync_header_def struct_simps)

interpretation repl_ack: struct_codec "\<lambda>r. length (ra_topic r) \<le> 255" encode_replica_ack decode_replica_ack 274
  by unfold_locales (simp_all add: encode_replica_ack_def decode_replica_ack_def struct_simps)

interpretation election: struct_codec "\<lambda>r. length (le_topic r) \<le> 255" encode_leader_election decode_leader_election 274
  by unfold_locales (simp_all add: encode_leader_election_def decode_leader_election_def struct_simps)

end
