(* ===== verification/Fell_Partition_Meta.thy ===== *)
theory Fell_Partition_Meta
  imports Fell_Files
begin

text \<open>
  \<^verbatim>\<open>replication/partition_meta.cpp\<close>: what a broker knows of the leadership and of the replicas of each
  partition. A \<open>PartitionMeta\<close> is a record, the registry a map from its keys; the reference that
  \<^verbatim>\<open>PartitionMetaRegistry::get\<close> returns is the entry read from the map, and an update through it is
  \<open>meta_set\<close>.
\<close>

section \<open>Definitions\<close>

datatype partition_role = Leader | Follower | Candidate

record replica_state =
  rs_broker_id :: u32
  rs_next_offset :: u64
  rs_ack_offset :: u64
  rs_last_seen_ms :: u64
  rs_in_isr :: bool

record partition_meta =
  pm_topic :: string
  pm_partition_idx :: u16
  pm_role :: partition_role
  pm_leader_id :: u32
  pm_epoch :: u32
  pm_replicas :: "replica_state list"

subsection \<open>PartitionMeta\<close>

definition isr_ids :: "partition_meta \<Rightarrow> u32 list" where
  "isr_ids m = map rs_broker_id (filter rs_in_isr (pm_replicas m))"

definition isr_acked :: "partition_meta \<Rightarrow> u64 \<Rightarrow> bool" where
  "isr_acked m offset = list_all (\<lambda>r. \<not> (rs_in_isr r \<and> rs_ack_offset r < offset)) (pm_replicas m)"

text \<open>The loops with a \<^verbatim>\<open>break\<close>: the first replica with the broker id is updated.\<close>

fun update_replica :: "u32 \<Rightarrow> (replica_state \<Rightarrow> replica_state) \<Rightarrow> replica_state list \<Rightarrow> replica_state list" where
  "update_replica i f [] = []"
| "update_replica i f (r # rs) = (if rs_broker_id r = i then f r # rs else r # update_replica i f rs)"

definition replica_acked :: "u64 \<Rightarrow> u64 \<Rightarrow> u64 \<Rightarrow> replica_state \<Rightarrow> replica_state" where
  "replica_acked acked_offset max_lag leader_committed r =
     (let r = r\<lparr>rs_ack_offset := max (rs_ack_offset r) acked_offset\<rparr>
      in if \<not> rs_in_isr r \<and> leader_committed \<ge> rs_ack_offset r
            \<and> leader_committed - rs_ack_offset r \<le> max_lag
         then r\<lparr>rs_in_isr := True\<rparr> else r)"

definition meta_on_replica_ack :: "u32 \<Rightarrow> u64 \<Rightarrow> u64 \<Rightarrow> u64 \<Rightarrow> partition_meta \<Rightarrow> partition_meta" where
  "meta_on_replica_ack broker_id acked_offset max_lag leader_committed m =
     m\<lparr>pm_replicas := update_replica broker_id (replica_acked acked_offset max_lag leader_committed) (pm_replicas m)\<rparr>"

definition leader_committed_offset :: "partition_meta \<Rightarrow> u64" where
  "leader_committed_offset m =
     (case find (\<lambda>r. rs_broker_id r = pm_leader_id m) (pm_replicas m) of None \<Rightarrow> 0 | Some r \<Rightarrow> rs_ack_offset r)"

text \<open>The difference of the two times wraps.\<close>

definition tick_isr :: "u64 \<Rightarrow> u32 \<Rightarrow> partition_meta \<Rightarrow> partition_meta" where
  "tick_isr now_ms timeout_ms m =
     m\<lparr>pm_replicas := map (\<lambda>r. if rs_broker_id r = pm_leader_id m then r
                             else if rs_in_isr r \<and> now_ms - rs_last_seen_ms r > ucast timeout_ms
                             then r\<lparr>rs_in_isr := False\<rparr> else r) (pm_replicas m)\<rparr>"

subsection \<open>PartitionMetaRegistry\<close>

type_synonym meta_registry = "string \<rightharpoonup> partition_meta"

definition make_key :: "string \<Rightarrow> u16 \<Rightarrow> string" where
  "make_key topic part = topic @ ''-'' @ to_string (unat part)"

definition new_meta :: "string \<Rightarrow> u16 \<Rightarrow> partition_meta" where
  "new_meta topic part =
     \<lparr>pm_topic = topic, pm_partition_idx = part, pm_role = Follower, pm_leader_id = 0, pm_epoch = 0,
      pm_replicas = []\<rparr>"

definition meta_get :: "string \<Rightarrow> u16 \<Rightarrow> meta_registry \<Rightarrow> partition_meta \<times> meta_registry" where
  "meta_get topic part reg =
     (let key = make_key topic part
      in case reg key of
           Some m \<Rightarrow> (m, reg)
         | None \<Rightarrow> (new_meta topic part, reg(key \<mapsto> new_meta topic part)))"

definition meta_set :: "partition_meta \<Rightarrow> meta_registry \<Rightarrow> meta_registry" where
  "meta_set m reg = reg(make_key (pm_topic m) (pm_partition_idx m) \<mapsto> m)"

definition meta_epoch :: "string \<Rightarrow> u16 \<Rightarrow> meta_registry \<Rightarrow> u32 \<times> meta_registry" where
  "meta_epoch topic part reg =
     (case meta_get topic part reg of (m, reg') \<Rightarrow> (pm_epoch m, reg'))"

definition seed_replicas :: "u32 \<Rightarrow> replica_state list" where
  "seed_replicas num_brokers =
     map (\<lambda>rid. \<lparr>rs_broker_id = of_nat rid, rs_next_offset = 0, rs_ack_offset = 0, rs_last_seen_ms = 0,
                 rs_in_isr = True\<rparr>) [0..<unat num_brokers]"

definition assign_partition :: "u32 \<Rightarrow> u32 \<Rightarrow> string \<Rightarrow> u16 \<Rightarrow> meta_registry \<Rightarrow> meta_registry" where
  "assign_partition broker_id num_brokers topic p reg =
     (case meta_get topic p reg of
        (m, reg') \<Rightarrow>
          let lead = ucast p mod num_brokers
          in reg'(make_key topic p \<mapsto>
                m\<lparr>pm_leader_id := lead, pm_role := (if lead = broker_id then Leader else Follower),
                  pm_replicas := seed_replicas num_brokers\<rparr>))"

definition assign_topic :: "u32 \<Rightarrow> u32 \<Rightarrow> string \<times> u16 \<Rightarrow> meta_registry \<Rightarrow> meta_registry" where
  "assign_topic broker_id num_brokers tc reg =
     fold (\<lambda>p. assign_partition broker_id num_brokers (fst tc) (of_nat p)) [0..<unat (snd tc)] reg"

text \<open>A topic beyond the end of \<^verbatim>\<open>partition_counts\<close> counts one part.\<close>

definition assign_roles ::
  "u32 \<Rightarrow> u32 \<Rightarrow> string list \<Rightarrow> u16 list \<Rightarrow> meta_registry \<Rightarrow> meta_registry" where
  "assign_roles broker_id num_brokers topics partition_counts reg =
     (if num_brokers = 0 then reg
      else fold (assign_topic broker_id num_brokers)
             (zip topics (partition_counts @ replicate (length topics) 1)) reg)"

section \<open>Keys\<close>

lemma is_digit_to_string: "c \<in> set (to_string n) \<Longrightarrow> is_digit c"
  using to_string_digits [of c n] digit_facts(1) by auto

lemma takeWhile_make_key: "takeWhile is_digit (rev (make_key t p)) = rev (to_string (unat p))"
proof -
  have "rev (make_key t p) = rev (to_string (unat p)) @ CHR ''-'' # rev t" by (simp add: make_key_def)
  moreover have "\<not> is_digit (CHR ''-'')" by (simp add: is_digit_def)
  moreover have "takeWhile is_digit (rev (to_string (unat p)) @ xs) = rev (to_string (unat p)) @ takeWhile is_digit xs" for xs
    by (rule takeWhile_append2) (simp add: is_digit_to_string)
  ultimately show ?thesis by simp
qed

lemma make_key_inject [simp]: "make_key t p = make_key u q \<longleftrightarrow> t = u \<and> p = q"
proof
  assume eq: "make_key t p = make_key u q"
  then have "to_string (unat p) = to_string (unat q)"
    using takeWhile_make_key [of t p] takeWhile_make_key [of u q] by simp
  then show "t = u \<and> p = q" using eq by (auto simp: make_key_def dest: word_unat_eq_iff [THEN iffD2])
qed simp

section \<open>Role assignment\<close>

definition seeded :: "u32 \<Rightarrow> u32 \<Rightarrow> string \<Rightarrow> u16 \<Rightarrow> partition_meta option \<Rightarrow> partition_meta" where
  "seeded b n t p mo =
     (case mo of None \<Rightarrow> new_meta t p | Some m \<Rightarrow> m)\<lparr>pm_leader_id := ucast p mod n,
        pm_role := (if ucast p mod n = b then Leader else Follower), pm_replicas := seed_replicas n\<rparr>"

lemma seeded_idem: "seeded b n t p (Some (seeded b n t p mo)) = seeded b n t p mo"
  by (simp add: seeded_def)

lemma assign_partition_lookup:
  "assign_partition b n t p reg (make_key u q) =
     (if u = t \<and> q = p then Some (seeded b n t p (reg (make_key t p))) else reg (make_key u q))"
  by (auto simp: assign_partition_def meta_get_def seeded_def Let_def split: option.split)

lemma fold_assign_partition_lookup:
  assumes "k \<le> 2 ^ 16"
  shows "fold (\<lambda>p. assign_partition b n t (of_nat p)) [0..<k] reg (make_key u q) =
     (if u = t \<and> unat q < k then Some (seeded b n t q (reg (make_key t q))) else reg (make_key u q))"
  using assms
proof (induction k)
  case (Suc k)
  then have k: "unat (of_nat k :: u16) = k" by simp
  have q: "q = of_nat k \<longleftrightarrow> unat q = k" using k by (metis of_nat_unat ucast_id)
  show ?case using Suc by (auto simp: assign_partition_lookup less_Suc_eq q)
qed simp

lemma assign_topic_lookup:
  "assign_topic b n (t, c) reg (make_key u q) =
     (if u = t \<and> q < c then Some (seeded b n t q (reg (make_key t q))) else reg (make_key u q))"
  using unat_lt_u16 [of c] by (simp add: assign_topic_def fold_assign_partition_lookup word_less_nat_alt)

lemma fold_assign_topic_lookup:
  "fold (assign_topic b n) tcs reg (make_key u q) =
     (if \<exists>c. (u, c) \<in> set tcs \<and> q < c then Some (seeded b n u q (reg (make_key u q))) else reg (make_key u q))"
proof (induction tcs arbitrary: reg)
  case (Cons tc tcs)
  obtain t c where tc: "tc = (t, c)" by (cases tc)
  show ?case by (simp add: Cons.IH tc assign_topic_lookup seeded_idem) auto
qed simp

text \<open>The partition count that \<open>assign_roles\<close> uses for the topic at position \<open>i\<close>.\<close>

definition partitions_of :: "u16 list \<Rightarrow> nat \<Rightarrow> u16" where
  "partitions_of counts i = (if i < length counts then counts ! i else 1)"

lemma assign_roles_lookup:
  assumes "n \<noteq> 0" "i < length topics" "p < partitions_of counts i"
  shows "assign_roles b n topics counts reg (make_key (topics ! i) p)
           = Some (seeded b n (topics ! i) p (reg (make_key (topics ! i) p)))"
proof -
  have "(topics ! i, partitions_of counts i) \<in> set (zip topics (counts @ replicate (length topics) 1))"
    using assms(2) by (auto simp: set_zip partitions_of_def nth_append intro!: exI [of _ i])
  then show ?thesis using assms by (auto simp: assign_roles_def fold_assign_topic_lookup)
qed

lemma isr_ids_seeded: "isr_ids (seeded b n t p mo) = map of_nat [0..<unat n]"
  by (simp add: isr_ids_def seeded_def seed_replicas_def comp_def)

section \<open>Properties\<close>

text \<open>C28. Every broker \<open>0, \<dots>, n - 1\<close> of a cluster seeds its roles with \<open>assign_roles\<close> for the same topics, from
  whatever its registry holds. Then for every partition of those topics exactly one of these brokers
  takes the role of the leader, every broker names that same one, and every broker's in-sync set is
  the whole cluster.\<close>

theorem assign_roles_one_leader:
  assumes "n \<noteq> 0" "i < length topics" "p < partitions_of counts i"
  shows "(\<exists>!b. b < n \<and> map_option pm_role (assign_roles b n topics counts (reg b) (make_key (topics ! i) p)) = Some Leader)
    \<and> (\<forall>b. map_option pm_leader_id (assign_roles b n topics counts (reg b) (make_key (topics ! i) p)) = Some (ucast p mod n))
    \<and> (\<forall>b. map_option isr_ids (assign_roles b n topics counts (reg b) (make_key (topics ! i) p)) = Some (map of_nat [0..<unat n]))"
proof (intro conjI allI)
  have "ucast p mod n < n" using assms(1) by (simp add: word_mod_less_divisor word_gt_0)
  then show "\<exists>!b. b < n \<and> map_option pm_role (assign_roles b n topics counts (reg b) (make_key (topics ! i) p)) = Some Leader"
    by (intro ex1I [of _ "ucast p mod n"]) (auto simp: assign_roles_lookup [OF assms] seeded_def split: if_splits)
qed (simp_all only: assign_roles_lookup [OF assms] option.map isr_ids_seeded, simp add: seeded_def)

theorem assign_roles_one_leader_witness:
  "\<exists>!b::u32. b < 3 \<and> map_option pm_role (assign_roles b 3 [''a'', ''b''] [4] Map.empty (make_key ''a'' 3)) = Some Leader"
  using assign_roles_one_leader [of "3 :: u32" 0 "[''a'', ''b'']" 3 "[4]" "\<lambda>_. Map.empty"]
  by (simp add: partitions_of_def)

end
