(* ===== verification/Fell_Cluster_Config.thy ===== *)
theory Fell_Cluster_Config
  imports Fell_Files
begin

text \<open>
  \<^verbatim>\<open>replication/cluster_config.cpp\<close>. The INI parser is a library: the parsed file (or that it cannot be
  opened) and the library's conversions of values are arguments, as is its iteration over the section
  of the peers. The conversion of a peer's line is code of the repository.
\<close>

section \<open>Definitions\<close>

record broker_addr =
  ba_broker_id :: u32
  ba_host :: string
  ba_repl_port :: u16
  ba_client_port :: u16

record cluster_config =
  cfg_broker_id :: u32
  cfg_data_dir :: string
  cfg_client_port :: u16
  cfg_repl_port :: u16
  cfg_peers :: "broker_addr list"
  cfg_replication_factor :: u32
  cfg_acks :: int
  cfg_heartbeat_interval_ms :: u32
  cfg_heartbeat_timeout_ms :: u32
  cfg_max_lag_messages :: u64

definition config_defaults :: cluster_config where
  "config_defaults =
     \<lparr>cfg_broker_id = 0, cfg_data_dir = ''fell-data'', cfg_client_port = 7700, cfg_repl_port = 8700, cfg_peers = [],
      cfg_replication_factor = 3, cfg_acks = 1, cfg_heartbeat_interval_ms = 500,
      cfg_heartbeat_timeout_ms = 1500, cfg_max_lag_messages = 1000\<rparr>"

definition default_peers :: "broker_addr list" where
  "default_peers =
     [\<lparr>ba_broker_id = 0, ba_host = ''127.0.0.1'', ba_repl_port = 8700, ba_client_port = 7700\<rparr>,
      \<lparr>ba_broker_id = 1, ba_host = ''127.0.0.1'', ba_repl_port = 8701, ba_client_port = 7701\<rparr>,
      \<lparr>ba_broker_id = 2, ba_host = ''127.0.0.1'', ba_repl_port = 8702, ba_client_port = 7702\<rparr>]"

text \<open>\<^verbatim>\<open>std::string::find(c, pos)\<close>; \<open>None\<close> is \<^verbatim>\<open>npos\<close>.\<close>

definition find_char :: "char \<Rightarrow> nat \<Rightarrow> string \<Rightarrow> nat option" where
  "find_char c pos s =
     (let n = length (takeWhile (\<lambda>x. x \<noteq> c) (drop pos s))
      in if pos + n < length s then Some (pos + n) else None)"

text \<open>\<^verbatim>\<open>std::stoul\<close>, whose \<^verbatim>\<open>unsigned long\<close> has 64 bits, then the conversion to the field's type.\<close>

definition stoul :: "string \<Rightarrow> fault + 'a::len word" where
  "stoul s = (case stoull s of Inl e \<Rightarrow> Inl e | Inr v \<Rightarrow> Inr (ucast v))"

text \<open>One line of the peers section: skipped without two colons.\<close>

definition parse_peer :: "string \<times> string \<Rightarrow> fault + broker_addr option" where
  "parse_peer peer =
     (case peer of (key, peer_str) \<Rightarrow>
        (case find_char (CHR '':'') 0 peer_str of
           None \<Rightarrow> Inr None
         | Some colon1 \<Rightarrow>
             (case find_char (CHR '':'') (colon1 + 1) peer_str of
                None \<Rightarrow> Inr None
              | Some colon2 \<Rightarrow>
                  (case stoul key of
                     Inl e \<Rightarrow> Inl e
                   | Inr i \<Rightarrow>
                       (case stoul (take (colon2 - colon1 - 1) (drop (colon1 + 1) peer_str)) of
                          Inl e \<Rightarrow> Inl e
                        | Inr rp \<Rightarrow>
                            (case stoul (drop (colon2 + 1) peer_str) of
                               Inl e \<Rightarrow> Inl e
                             | Inr cp \<Rightarrow>
                                 Inr (Some \<lparr>ba_broker_id = i, ba_host = take colon1 peer_str, ba_repl_port = rp,
                                            ba_client_port = cp\<rparr>)))))))"

fun parse_peers :: "(string \<times> string) list \<Rightarrow> fault + broker_addr list" where
  "parse_peers [] = Inr []"
| "parse_peers (p # ps) =
     (case parse_peer p of
        Inl e \<Rightarrow> Inl e
      | Inr a \<Rightarrow>
          (case parse_peers ps of
             Inl e \<Rightarrow> Inl e
           | Inr r \<Rightarrow> Inr (case a of None \<Rightarrow> r | Some b \<Rightarrow> b # r)))"

text \<open>What the library gives for a file: the values it can extract from the sections \<^verbatim>\<open>broker\<close> and
  \<^verbatim>\<open>cluster\<close>, each \<open>None\<close> when the key is missing or its value does not convert (the field then keeps
  its value), and the entries of the section \<^verbatim>\<open>peers\<close>.\<close>

record ini_values =
  ini_id :: "u32 option"
  ini_data_dir :: "string option"
  ini_client_port :: "u16 option"
  ini_repl_port :: "u16 option"
  ini_replication_factor :: "u32 option"
  ini_acks :: "int option"
  ini_heartbeat_interval_ms :: "u32 option"
  ini_heartbeat_timeout_ms :: "u32 option"
  ini_max_lag_messages :: "u64 option"
  ini_peers :: "(string \<times> string) list"

definition ini_extract :: "'a option \<Rightarrow> 'a \<Rightarrow> 'a" where
  "ini_extract v old = (case v of None \<Rightarrow> old | Some x \<Rightarrow> x)"

definition config_load :: "(string \<Rightarrow> ini_values option) \<Rightarrow> string \<Rightarrow> fault + cluster_config" where
  "config_load parse path =
     (if path = [] then Inr (config_defaults\<lparr>cfg_peers := default_peers\<rparr>)
      else case parse path of
             None \<Rightarrow> Inl IoError
           | Some ini \<Rightarrow>
               (case parse_peers (ini_peers ini) of
                  Inl e \<Rightarrow> Inl e
                | Inr peers \<Rightarrow>
                    let c = config_defaults
                    in Inr \<lparr>cfg_broker_id = ini_extract (ini_id ini) (cfg_broker_id c),
                            cfg_data_dir = ini_extract (ini_data_dir ini) (cfg_data_dir c),
                            cfg_client_port = ini_extract (ini_client_port ini) (cfg_client_port c),
                            cfg_repl_port = ini_extract (ini_repl_port ini) (cfg_repl_port c),
                            cfg_peers = peers,
                            cfg_replication_factor = ini_extract (ini_replication_factor ini) (cfg_replication_factor c),
                            cfg_acks = ini_extract (ini_acks ini) (cfg_acks c),
                            cfg_heartbeat_interval_ms = ini_extract (ini_heartbeat_interval_ms ini) (cfg_heartbeat_interval_ms c),
                            cfg_heartbeat_timeout_ms = ini_extract (ini_heartbeat_timeout_ms ini) (cfg_heartbeat_timeout_ms c),
                            cfg_max_lag_messages = ini_extract (ini_max_lag_messages ini) (cfg_max_lag_messages c)\<rparr>))"

text \<open>The number of brokers that every user of the configuration computes:
  \<^verbatim>\<open>std::max<uint32_t>(1, static_cast<uint32_t>(1 + cfg_->peers.size()))\<close>.\<close>

definition num_brokers :: "cluster_config \<Rightarrow> u32" where
  "num_brokers cfg = max 1 (of_nat (1 + length (cfg_peers cfg)))"

text \<open>The line of the peers section that describes an address.\<close>

definition print_peer :: "broker_addr \<Rightarrow> string \<times> string" where
  "print_peer a = (to_string (unat (ba_broker_id a)),
     ba_host a @ '':'' @ to_string (unat (ba_repl_port a)) @ '':'' @ to_string (unat (ba_client_port a)))"

section \<open>Reading back a peer\<close>

lemma find_char_append:
  assumes "c \<notin> set xs"
  shows "find_char c (length ps) (ps @ xs @ c # ys) = Some (length ps + length xs)"
proof -
  have "takeWhile (\<lambda>x. x \<noteq> c) xs = xs" using assms by (auto simp: takeWhile_eq_all_conv)
  then show ?thesis by (simp add: find_char_def Let_def takeWhile_tail)
qed

lemma colon_not_in_to_string: "CHR '':'' \<notin> set (to_string n)"
proof
  assume "CHR '':'' \<in> set (to_string n)"
  then obtain m where "CHR '':'' = digit m" using to_string_digits by blast
  then have "is_digit (CHR '':'')" using digit_facts(1) [of m] by simp
  then show False by (simp add: is_digit_def)
qed

lemma stoul_to_string:
  "n < 2 ^ 32 \<Longrightarrow> stoul (to_string n) = Inr (of_nat n :: u32)"
  "n < 2 ^ 16 \<Longrightarrow> stoul (to_string n) = Inr (of_nat n :: u16)"
  by (simp_all add: stoul_def stoull_to_string unsigned_of_nat take_bit_nat_eq_self)

section \<open>Properties\<close>

text \<open>The peers section of a configuration file that writes each address as \<^verbatim>\<open>id = host:repl_port:client_port\<close>
  is read back as exactly these addresses, in the order of the section, provided no host contains a
  colon.\<close>

theorem config_peers_roundtrip:
  assumes "path \<noteq> []" "parse path = Some (ini\<lparr>ini_peers := map print_peer as\<rparr>)"
    "list_all (\<lambda>a. CHR '':'' \<notin> set (ba_host a)) as"
  shows "map_sum id cfg_peers (config_load parse path) = Inr as"
proof -
  have one: "parse_peer (print_peer a) = Inr (Some a)" if "CHR '':'' \<notin> set (ba_host a)" for a
  proof -
    let ?r = "to_string (unat (ba_repl_port a))" and ?c = "to_string (unat (ba_client_port a))" and ?h = "ba_host a"
    have "find_char (CHR '':'') 0 (?h @ '':'' @ ?r @ '':'' @ ?c) = Some (length ?h)"
      using find_char_append [OF that, of "[]"] by simp
    moreover have "find_char (CHR '':'') (length ?h + 1) (?h @ '':'' @ ?r @ '':'' @ ?c) = Some (length ?h + 1 + length ?r)"
      using find_char_append [OF colon_not_in_to_string, of "?h @ '':''"] by simp
    ultimately show ?thesis
      using unat_lt_u32 [of "ba_broker_id a"] unat_lt_u16 [of "ba_repl_port a"] unat_lt_u16 [of "ba_client_port a"]
      by (simp add: parse_peer_def print_peer_def stoul_to_string)
  qed
  have "parse_peers (map print_peer as) = Inr as" using assms(3) by (induction as) (simp_all add: one)
  then show ?thesis using assms(1,2) by (simp add: config_load_def Let_def)
qed

definition example_ini :: ini_values where
  "example_ini = \<lparr>ini_id = Some 1, ini_data_dir = None, ini_client_port = Some 7701, ini_repl_port = Some 8701,
     ini_replication_factor = None, ini_acks = Some (-1), ini_heartbeat_interval_ms = None,
     ini_heartbeat_timeout_ms = None, ini_max_lag_messages = None, ini_peers = map print_peer default_peers\<rparr>"

theorem config_peers_roundtrip_witness:
  "map_sum id cfg_peers (config_load (\<lambda>p. if p = ''fell.ini'' then Some example_ini else None) ''fell.ini'') = Inr default_peers"
  by (rule config_peers_roundtrip [where ini = example_ini]) (simp_all add: example_ini_def default_peers_def)

end
