(* ===== verification/Fell_Replica_Manager.thy ===== *)
theory Fell_Replica_Manager
  imports Fell_Protocol Fell_Partition_Meta Fell_Cluster_Config
begin

text \<open>
  \<^verbatim>\<open>replication/replica_manager.cpp\<close>: the leader's side of a replicated partition. The worker thread's
  iteration is split at its critical sections; \<open>rm_step\<close> runs one critical section of any thread, so a
  list of events is an interleaving. The theorem says exactly when a deferred acknowledgement is
  given to the broker for sending.
\<close>

section \<open>Definitions\<close>

type_synonym response = "int \<times> bytes"
type_synonym commit_batch = "u64 \<times> committed_record list"

record pending_ack =
  pa_offset :: u64
  pa_ack_response :: bytes
  pa_producer_fd :: int
  pa_leader_committed :: bool
  pa_isr_acked :: u32
  pa_isr_required :: u32
  pa_acked_followers :: "u32 list"

record replica_manager =
  rm_pending :: "pending_ack list"
  rm_follower_fds :: "(u32 \<times> int) list"
  rm_commit_queue :: "commit_batch list"
  rm_running :: bool

definition ReplicaManager :: replica_manager where
  "ReplicaManager = \<lparr>rm_pending = [], rm_follower_fds = [], rm_commit_queue = [], rm_running = False\<rparr>"

definition rm_start :: "replica_manager \<Rightarrow> replica_manager" where
  "rm_start rm = (if rm_running rm then rm else rm\<lparr>rm_running := True\<rparr>)"

definition rm_stop :: "replica_manager \<Rightarrow> replica_manager" where
  "rm_stop rm = (if \<not> rm_running rm then rm else rm\<lparr>rm_running := False\<rparr>)"

definition register_pending ::
  "u64 \<Rightarrow> bytes \<Rightarrow> int \<Rightarrow> partition_meta \<Rightarrow> replica_manager \<Rightarrow> replica_manager" where
  "register_pending offset ack_response producer_fd m rm =
     rm\<lparr>rm_pending := rm_pending rm @
          [\<lparr>pa_offset = offset, pa_ack_response = ack_response, pa_producer_fd = producer_fd,
            pa_leader_committed = False, pa_isr_acked = 0,
            pa_isr_required = of_nat (length (isr_ids m) - 1), pa_acked_followers = []\<rparr>]\<rparr>"

definition enqueue_committed :: "u64 \<Rightarrow> committed_record list \<Rightarrow> replica_manager \<Rightarrow> replica_manager" where
  "enqueue_committed base_offset records rm =
     rm\<lparr>rm_commit_queue := rm_commit_queue rm @ [(base_offset, records)]\<rparr>"

definition set_follower_fd :: "u32 \<Rightarrow> int \<Rightarrow> replica_manager \<Rightarrow> replica_manager" where
  "set_follower_fd broker_id fd rm =
     rm\<lparr>rm_follower_fds := (broker_id, fd) # filter (\<lambda>(b, _). b \<noteq> broker_id) (rm_follower_fds rm)\<rparr>"

definition try_release :: "pending_ack \<Rightarrow> response list \<times> pending_ack" where
  "try_release pa =
     (let quorum_met = (if pa_isr_required pa = 0 then pa_leader_committed pa
                        else pa_leader_committed pa \<and> pa_isr_acked pa \<ge> pa_isr_required pa)
      in if \<not> quorum_met then ([], pa)
         else if pa_ack_response pa \<noteq> []
         then ([(pa_producer_fd pa, pa_ack_response pa)], pa\<lparr>pa_ack_response := []\<rparr>)
         else ([], pa))"

text \<open>The condition of both \<^verbatim>\<open>remove_if\<close> calls.\<close>

definition released :: "pending_ack \<Rightarrow> bool" where
  "released p = (pa_leader_committed p \<and> pa_isr_acked p \<ge> pa_isr_required p)"

definition count_ack :: "u32 \<Rightarrow> u64 \<Rightarrow> pending_ack \<Rightarrow> response list \<times> pending_ack" where
  "count_ack follower_id acked_offset pa =
     (if acked_offset > pa_offset pa \<and> follower_id \<notin> set (pa_acked_followers pa)
      then try_release (pa\<lparr>pa_acked_followers := follower_id # pa_acked_followers pa,
                           pa_isr_acked := pa_isr_acked pa + 1\<rparr>)
      else ([], pa))"

text \<open>A loop over \<^verbatim>\<open>pending_\<close> that collects responses, followed by the \<^verbatim>\<open>erase\<close>.\<close>

definition over_pending ::
  "(pending_ack \<Rightarrow> response list \<times> pending_ack) \<Rightarrow> replica_manager \<Rightarrow> response list \<times> replica_manager" where
  "over_pending f rm =
     (let rs = map f (rm_pending rm)
      in (concat (map fst rs), rm\<lparr>rm_pending := filter (\<lambda>p. \<not> released p) (map snd rs)\<rparr>))"

definition rm_on_replica_ack ::
  "cluster_config \<Rightarrow> u32 \<Rightarrow> u64 \<Rightarrow> partition_meta \<Rightarrow> replica_manager
     \<Rightarrow> response list \<times> partition_meta \<times> replica_manager" where
  "rm_on_replica_ack cfg follower_id acked_offset m rm =
     (let m' = meta_on_replica_ack follower_id acked_offset (cfg_max_lag_messages cfg) (leader_committed_offset m) m
      in case over_pending (count_ack follower_id acked_offset) rm of (to_send, rm') \<Rightarrow> (to_send, m', rm'))"

subsection \<open>worker\_loop\<close>

text \<open>Taking a batch: \<open>None\<close> while the thread waits or when it leaves the loop.\<close>

definition worker_pop :: "replica_manager \<Rightarrow> (commit_batch \<times> replica_manager) option" where
  "worker_pop rm =
     (case rm_commit_queue rm of
        [] \<Rightarrow> None
      | qc # q \<Rightarrow> Some (qc, rm\<lparr>rm_commit_queue := q\<rparr>))"

definition commit_one :: "commit_batch \<Rightarrow> pending_ack \<Rightarrow> response list \<times> pending_ack" where
  "commit_one qc pa =
     (if pa_offset pa \<ge> fst qc \<and> pa_offset pa < fst qc + of_nat (length (snd qc))
      then try_release (pa\<lparr>pa_leader_committed := True\<rparr>)
      else ([], pa))"

definition worker_release :: "commit_batch \<Rightarrow> replica_manager \<Rightarrow> response list \<times> replica_manager" where
  "worker_release qc rm = over_pending (commit_one qc) rm"

definition worker_progress :: "commit_batch \<Rightarrow> partition_meta \<Rightarrow> u32 \<times> partition_meta" where
  "worker_progress qc m =
     (let m' = (if snd qc = [] then m
                else let committed = rec_offset (last (snd qc)) + 1
                     in m\<lparr>pm_replicas := update_replica (pm_leader_id m)
                           (\<lambda>r. r\<lparr>rs_ack_offset := max (rs_ack_offset r) committed\<rparr>) (pm_replicas m)\<rparr>)
      in (pm_epoch m', m'))"

text \<open>The calls of \<^verbatim>\<open>send_data\<close> for one record: socket and bytes.\<close>

definition sync_header_of :: "string \<Rightarrow> u16 \<Rightarrow> u32 \<Rightarrow> committed_record \<Rightarrow> replica_sync_header" where
  "sync_header_of topic part epoch r =
     \<lparr>sy_topic = topic, sy_partition = part, sy_epoch = epoch, sy_offset = rec_offset r,
      sy_timestamp_ms = rec_timestamp_ms r, sy_payload_size = of_nat (length (rec_payload r))\<rparr>"

definition sync_sends :: "string \<Rightarrow> u16 \<Rightarrow> u32 \<Rightarrow> int \<Rightarrow> committed_record \<Rightarrow> (int \<times> bytes) list" where
  "sync_sends topic part epoch fd r =
     [(fd, mem32 (host_to_be32 (of_nat sizeof_ReplicaSyncHeader + of_nat (length (rec_payload r)) + 1))),
      (fd, [REPLICA_SYNC]), (fd, encode_replica_sync_header (sync_header_of topic part epoch r))]
     @ (if rec_payload r = [] then [] else [(fd, rec_payload r)])"

definition worker_stream ::
  "commit_batch \<Rightarrow> u32 \<Rightarrow> partition_meta \<Rightarrow> replica_manager \<Rightarrow> (int \<times> bytes) list" where
  "worker_stream qc epoch m rm =
     concat (map (\<lambda>(follower_id, fd). concat (map (sync_sends (pm_topic m) (pm_partition_idx m) epoch fd) (snd qc)))
               (rm_follower_fds rm))"

subsection \<open>Interleavings\<close>

datatype worker_pc = Waiting | Took commit_batch | Streaming commit_batch

text \<open>The partition's metadata and manager, where the worker is, and a log of what happened: the
  responses given to \<^verbatim>\<open>post_response\<close>, the batches released, the bytes sent to followers.\<close>

record rm_sys =
  ry_meta :: partition_meta
  ry_mgr :: replica_manager
  ry_pc :: worker_pc
  ry_posted :: "response list"
  ry_released :: "commit_batch list"
  ry_sent :: "(int \<times> bytes) list"

datatype rm_event =
    EvRegister u64 bytes int
  | EvEnqueue u64 "committed_record list"
  | EvAck u32 u64
  | EvFollower u32 int
  | EvPop
  | EvRelease
  | EvStream

fun rm_step :: "cluster_config \<Rightarrow> rm_event \<Rightarrow> rm_sys \<Rightarrow> rm_sys" where
  "rm_step cfg (EvRegister off resp fd) s = s\<lparr>ry_mgr := register_pending off resp fd (ry_meta s) (ry_mgr s)\<rparr>"
| "rm_step cfg (EvEnqueue base recs) s = s\<lparr>ry_mgr := enqueue_committed base recs (ry_mgr s)\<rparr>"
| "rm_step cfg (EvAck fid acked) s =
     (case rm_on_replica_ack cfg fid acked (ry_meta s) (ry_mgr s) of
        (out, m, rm) \<Rightarrow> s\<lparr>ry_meta := m, ry_mgr := rm, ry_posted := ry_posted s @ out\<rparr>)"
| "rm_step cfg (EvFollower fid fd) s = s\<lparr>ry_mgr := set_follower_fd fid fd (ry_mgr s)\<rparr>"
| "rm_step cfg EvPop s =
     (case ry_pc s of
        Waiting \<Rightarrow>
          (case worker_pop (ry_mgr s) of
             None \<Rightarrow> s
           | Some (qc, rm) \<Rightarrow> s\<lparr>ry_mgr := rm, ry_pc := Took qc\<rparr>)
      | _ \<Rightarrow> s)"
| "rm_step cfg EvRelease s =
     (case ry_pc s of
        Took qc \<Rightarrow>
          (case worker_release qc (ry_mgr s) of
             (out, rm) \<Rightarrow> s\<lparr>ry_mgr := rm, ry_pc := Streaming qc, ry_posted := ry_posted s @ out,
                            ry_released := ry_released s @ [qc]\<rparr>)
      | _ \<Rightarrow> s)"
| "rm_step cfg EvStream s =
     (case ry_pc s of
        Streaming qc \<Rightarrow>
          (case worker_progress qc (ry_meta s) of
             (epoch, m) \<Rightarrow> s\<lparr>ry_meta := m, ry_pc := Waiting,
                             ry_sent := ry_sent s @ worker_stream qc epoch m (ry_mgr s)\<rparr>)
      | _ \<Rightarrow> s)"

definition rm_run :: "cluster_config \<Rightarrow> rm_event list \<Rightarrow> rm_sys \<Rightarrow> rm_sys" where
  "rm_run cfg evs s = fold (rm_step cfg) evs s"

section \<open>One entry at a time\<close>

definition tag :: "pending_ack \<Rightarrow> response" where
  "tag p = (pa_producer_fd p, pa_ack_response p)"

definition tagged :: "response \<Rightarrow> pending_ack list \<Rightarrow> pending_ack list" where
  "tagged t ps = filter (\<lambda>p. tag p = t) ps"

text \<open>What a loop body does to an entry: it sends the entry's response or nothing, and an entry that
  stays in the list keeps its response.\<close>

definition entry_fun :: "(pending_ack \<Rightarrow> response list \<times> pending_ack) \<Rightarrow> bool" where
  "entry_fun f = (\<forall>p. set (fst (f p)) \<subseteq> {tag p} \<and> (\<not> released (snd (f p)) \<longrightarrow> tag (snd (f p)) = tag p))"

lemma try_release_entry:
  "set (fst (try_release p)) \<subseteq> {tag p}" "released (snd (try_release p)) = released p"
  "\<not> released p \<Longrightarrow> try_release p = ([], p)"
  "released p \<Longrightarrow> pa_ack_response p \<noteq> [] \<Longrightarrow> fst (try_release p) = [tag p]"
  by (auto simp: try_release_def Let_def tag_def released_def split: if_splits)

lemma count_ack_entry: "entry_fun (count_ack fid acked)"
  unfolding entry_fun_def count_ack_def
  by (auto simp: try_release_entry(2,3) tag_def dest: subsetD [OF try_release_entry(1)])

lemma commit_one_entry: "entry_fun (commit_one qc)"
  unfolding entry_fun_def commit_one_def
  by (auto simp: try_release_entry(2,3) tag_def dest: subsetD [OF try_release_entry(1)])

text \<open>Hence the entries with a given response evolve by themselves.\<close>

lemma over_pending_tagged:
  assumes "entry_fun f" "over_pending f rm = (out, rm')"
  shows "tagged t (rm_pending rm') = filter (\<lambda>p. \<not> released p) (map (\<lambda>p. snd (f p)) (tagged t (rm_pending rm)))"
    and "count_list out t = sum_list (map (\<lambda>p. count_list (fst (f p)) t) (tagged t (rm_pending rm)))"
proof -
  have t: "tagged t (filter (\<lambda>p. \<not> released p) (map (\<lambda>p. snd (f p)) ps))
      = filter (\<lambda>p. \<not> released p) (map (\<lambda>p. snd (f p)) (tagged t ps))" for ps
    using assms(1) unfolding entry_fun_def tagged_def by (induction ps) auto
  have "count_list (fst (f p)) t = 0" if "tag p \<noteq> t" for p
    using assms(1) that unfolding entry_fun_def by (auto simp: count_list_0_iff)
  then have c: "count_list (concat (map (\<lambda>p. fst (f p)) ps)) t = sum_list (map (\<lambda>p. count_list (fst (f p)) t) (tagged t ps))" for ps
    unfolding tagged_def by (induction ps) auto
  show "tagged t (rm_pending rm') = filter (\<lambda>p. \<not> released p) (map (\<lambda>p. snd (f p)) (tagged t (rm_pending rm)))"
    "count_list out t = sum_list (map (\<lambda>p. count_list (fst (f p)) t) (tagged t (rm_pending rm)))"
    using assms(2) t [of "rm_pending rm"] c [of "rm_pending rm"] by (auto simp: over_pending_def Let_def comp_def)
qed

section \<open>The condition for an acknowledgement\<close>

text \<open>The followers that acknowledged a later offset, and the batches that cover the offset.\<close>

fun ackers :: "u64 \<Rightarrow> rm_event list \<Rightarrow> u32 set" where
  "ackers off [] = {}"
| "ackers off (EvAck fid acked # evs) = (if acked > off then insert fid (ackers off evs) else ackers off evs)"
| "ackers off (_ # evs) = ackers off evs"

definition covers :: "u64 \<Rightarrow> commit_batch \<Rightarrow> bool" where
  "covers off qc = (off \<ge> fst qc \<and> off < fst qc + of_nat (length (snd qc)))"

lemma ackers_append [simp]: "ackers off (xs @ ys) = ackers off xs \<union> ackers off ys"
  by (induction off xs rule: ackers.induct) auto

lemma card_ackers: "finite (ackers off evs) \<and> card (ackers off evs) \<le> length evs"
proof (induction off evs rule: ackers.induct)
  case (2 off fid acked evs)
  then show ?case by (cases "acked > off") (auto simp: card_insert_if)
qed auto

text \<open>How far one deferred acknowledgement has come after some events.\<close>

definition deferred_ok ::
  "response \<Rightarrow> u64 \<Rightarrow> u32 \<Rightarrow> rm_event list \<Rightarrow> commit_batch list \<Rightarrow> nat \<Rightarrow> pending_ack list \<Rightarrow> bool" where
  "deferred_ok t off req evs batches n ps =
     (if list_ex (covers off) batches \<and> unat req \<le> card (ackers off evs) then n = 1 \<and> tagged t ps = []
      else n = 0 \<and> (\<exists>pa. tagged t ps = [pa] \<and> pa_offset pa = off \<and> pa_isr_required pa = req
             \<and> pa_leader_committed pa = list_ex (covers off) batches
             \<and> distinct (pa_acked_followers pa) \<and> set (pa_acked_followers pa) = ackers off evs
             \<and> pa_isr_acked pa = of_nat (length (pa_acked_followers pa))))"

lemma tagged_single:
  assumes "tagged t ps = [pa]"
  shows "tag pa = t"
proof -
  have "pa \<in> set (tagged t ps)" using assms by simp
  then show ?thesis by (simp add: tagged_def)
qed

lemma released_iff:
  assumes "pa_isr_acked pa = of_nat n" "n < 2 ^ 32"
  shows "released pa \<longleftrightarrow> pa_leader_committed pa \<and> unat (pa_isr_required pa) \<le> n"
proof -
  have "unat (pa_isr_acked pa) = n" using assms by (simp only: unat_of_nat_u32)
  then show ?thesis by (simp add: released_def word_le_nat_alt)
qed

text \<open>A loop body that leaves an entry as it is, or brings it to a state in which \<open>try_release\<close> decides.\<close>

lemma deferred_ok_loop:
  assumes ok: "deferred_ok t off req evs bs n (rm_pending rm)" and t: "snd t \<noteq> []" and f: "entry_fun f"
    and o: "over_pending f rm = (out, rm')" and len: "length evs' < 2 ^ 32"
    and mono: "ackers off evs \<subseteq> ackers off evs'" "list_ex (covers off) bs \<Longrightarrow> list_ex (covers off) bs'"
    and upd: "\<And>pa. \<lbrakk>tag pa = t; pa_offset pa = off; pa_isr_required pa = req;
         pa_leader_committed pa = list_ex (covers off) bs; distinct (pa_acked_followers pa);
         set (pa_acked_followers pa) = ackers off evs; pa_isr_acked pa = of_nat (length (pa_acked_followers pa));
         \<not> released pa\<rbrakk>
       \<Longrightarrow> \<exists>pa'. f pa = try_release pa' \<and> tag pa' = t \<and> pa_offset pa' = off \<and> pa_isr_required pa' = req
             \<and> pa_leader_committed pa' = list_ex (covers off) bs' \<and> distinct (pa_acked_followers pa')
             \<and> set (pa_acked_followers pa') = ackers off evs' \<and> pa_isr_acked pa' = of_nat (length (pa_acked_followers pa'))"
  shows "deferred_ok t off req evs' bs' (n + count_list out t) (rm_pending rm')"
proof (cases "list_ex (covers off) bs \<and> unat req \<le> card (ackers off evs)")
  case True
  then have "n = 1" "tagged t (rm_pending rm) = []" using ok by (simp_all add: deferred_ok_def)
  moreover have "unat req \<le> card (ackers off evs')"
    using True card_mono [OF _ mono(1)] card_ackers [of off evs'] by auto
  ultimately show ?thesis
    using True mono(2) over_pending_tagged [OF f o, of t] by (simp add: deferred_ok_def)
next
  case False
  then obtain pa where pa: "n = 0" "tagged t (rm_pending rm) = [pa]" "pa_offset pa = off" "pa_isr_required pa = req"
      "pa_leader_committed pa = list_ex (covers off) bs" "distinct (pa_acked_followers pa)"
      "set (pa_acked_followers pa) = ackers off evs" "pa_isr_acked pa = of_nat (length (pa_acked_followers pa))"
    using ok by (auto simp: deferred_ok_def split: if_splits)
  have "card (ackers off evs) = length (pa_acked_followers pa)" using distinct_card [OF pa(6)] pa(7) by simp
  moreover from this have "length (pa_acked_followers pa) < 2 ^ 32"
    using card_mono [OF _ mono(1)] card_ackers [of off evs'] len by simp
  ultimately have nr: "\<not> released pa" using released_iff [OF pa(8)] pa(4,5) False by simp
  obtain q where q: "f pa = try_release q" "tag q = t" "pa_offset q = off" "pa_isr_required q = req"
      "pa_leader_committed q = list_ex (covers off) bs'" "distinct (pa_acked_followers q)"
      "set (pa_acked_followers q) = ackers off evs'" "pa_isr_acked q = of_nat (length (pa_acked_followers q))"
    using upd [OF tagged_single [OF pa(2)] pa(3-8) nr] by blast
  have c: "card (ackers off evs') = length (pa_acked_followers q)" using distinct_card [OF q(6)] q(7) by simp
  then have lq: "length (pa_acked_followers q) < 2 ^ 32" using card_ackers [of off evs'] len by simp
  have rel: "released q \<longleftrightarrow> list_ex (covers off) bs' \<and> unat req \<le> card (ackers off evs')"
    using released_iff [OF q(8) lq] q(4,5) c by simp
  have tg: "tagged t (rm_pending rm') = filter (\<lambda>p. \<not> released p) [snd (try_release q)]"
    "count_list out t = count_list (fst (try_release q)) t"
    using over_pending_tagged [OF f o, of t] by (simp_all add: pa(2) q(1))
  show ?thesis
  proof (cases "released q")
    case True
    moreover have "pa_ack_response q \<noteq> []" using q(2) t by (auto simp: tag_def)
    ultimately show ?thesis using tg rel try_release_entry(2,4) [of q] q(2) by (simp add: deferred_ok_def pa(1))
  next
    case False
    then show ?thesis using tg rel try_release_entry(3) [OF False] q pa(1) by (simp add: deferred_ok_def)
  qed
qed

lemma deferred_ok_ack:
  assumes ok: "deferred_ok t off req evs bs n (rm_pending rm)" and t: "snd t \<noteq> []"
    and len: "length (evs @ [EvAck fid acked]) < 2 ^ 32"
    and o: "over_pending (count_ack fid acked) rm = (out, rm')"
  shows "deferred_ok t off req (evs @ [EvAck fid acked]) bs (n + count_list out t) (rm_pending rm')"
proof (rule deferred_ok_loop [OF ok t count_ack_entry o len], goal_cases)
  case (3 pa)
  let ?q = "pa\<lparr>pa_acked_followers := fid # pa_acked_followers pa, pa_isr_acked := pa_isr_acked pa + 1\<rparr>"
  show ?case
  proof (cases "acked > off \<and> fid \<notin> set (pa_acked_followers pa)")
    case True
    then show ?thesis using 3 by (intro exI [of _ ?q]) (auto simp: count_ack_def tag_def add.commute)
  next
    case False
    then show ?thesis using 3 try_release_entry(3) [OF 3(8)] by (intro exI [of _ pa]) (auto simp: count_ack_def)
  qed
qed auto

lemma deferred_ok_release:
  assumes ok: "deferred_ok t off req evs bs n (rm_pending rm)" and t: "snd t \<noteq> []"
    and len: "length (evs @ [EvRelease]) < 2 ^ 32" and o: "over_pending (commit_one qc) rm = (out, rm')"
  shows "deferred_ok t off req (evs @ [EvRelease]) (bs @ [qc]) (n + count_list out t) (rm_pending rm')"
proof (rule deferred_ok_loop [OF ok t commit_one_entry o len], goal_cases)
  case (3 pa)
  let ?q = "pa\<lparr>pa_leader_committed := True\<rparr>"
  show ?case
  proof (cases "covers off qc")
    case True
    then show ?thesis using 3 by (intro exI [of _ ?q]) (auto simp: commit_one_def tag_def covers_def)
  next
    case False
    then show ?thesis using 3 try_release_entry(3) [OF 3(8)]
      by (intro exI [of _ pa]) (auto simp: commit_one_def covers_def)
  qed
qed auto

text \<open>The other events leave the entry alone, provided no event registers its response again.\<close>

definition registers :: "response \<Rightarrow> rm_event \<Rightarrow> bool" where
  "registers t e = (case e of EvRegister off resp fd \<Rightarrow> (fd, resp) = t | _ \<Rightarrow> False)"

lemma rm_step_entry:
  assumes ok: "deferred_ok t off req evs (drop k (ry_released s)) (count_list (drop j (ry_posted s)) t) (rm_pending (ry_mgr s))"
    and t: "snd t \<noteq> []" and len: "length (evs @ [e]) < 2 ^ 32" and reg: "\<not> registers t e"
    and kj: "k \<le> length (ry_released s)" "j \<le> length (ry_posted s)"
  shows "deferred_ok t off req (evs @ [e]) (drop k (ry_released (rm_step cfg e s)))
           (count_list (drop j (ry_posted (rm_step cfg e s))) t) (rm_pending (ry_mgr (rm_step cfg e s)))
     \<and> k \<le> length (ry_released (rm_step cfg e s)) \<and> j \<le> length (ry_posted (rm_step cfg e s))"
proof (cases e)
  case (EvAck fid acked)
  obtain out rm' where o: "over_pending (count_ack fid acked) (ry_mgr s) = (out, rm')" by fastforce
  show ?thesis using deferred_ok_ack [OF ok t _ o] len kj o by (simp add: EvAck rm_on_replica_ack_def Let_def)
next
  case EvRelease
  show ?thesis
  proof (cases "ry_pc s")
    case (Took qc)
    obtain out rm' where o: "over_pending (commit_one qc) (ry_mgr s) = (out, rm')" by fastforce
    show ?thesis using deferred_ok_release [OF ok t _ o] len kj o by (simp add: EvRelease Took worker_release_def)
  qed (use ok kj in \<open>simp_all add: EvRelease deferred_ok_def\<close>)
next
  case EvStream
  then show ?thesis using ok kj by (cases "ry_pc s") (simp_all add: deferred_ok_def split: prod.split)
next
  case (EvRegister off' resp fd)
  then have "tagged t (rm_pending (register_pending off' resp fd m rm)) = tagged t (rm_pending rm)" for m rm
    using reg by (auto simp: registers_def register_pending_def tagged_def tag_def)
  then show ?thesis using ok kj by (simp add: EvRegister deferred_ok_def)
next
  case EvPop
  then show ?thesis using ok kj
    by (cases "ry_pc s") (auto simp: deferred_ok_def worker_pop_def split: list.split)
qed (use ok kj in \<open>simp_all add: deferred_ok_def enqueue_committed_def set_follower_fd_def\<close>)

lemma rm_run_entry:
  assumes "deferred_ok t off req [] [] 0 (rm_pending (ry_mgr s))" "snd t \<noteq> []" "length evs < 2 ^ 32"
    "list_all (\<lambda>e. \<not> registers t e) evs"
  shows "deferred_ok t off req evs (drop (length (ry_released s)) (ry_released (rm_run cfg evs s)))
           (count_list (drop (length (ry_posted s)) (ry_posted (rm_run cfg evs s))) t)
           (rm_pending (ry_mgr (rm_run cfg evs s)))
     \<and> length (ry_released s) \<le> length (ry_released (rm_run cfg evs s))
     \<and> length (ry_posted s) \<le> length (ry_posted (rm_run cfg evs s))"
  using assms
proof (induction evs rule: rev_induct)
  case (snoc e evs)
  then have IH: "deferred_ok t off req evs (drop (length (ry_released s)) (ry_released (rm_run cfg evs s)))
           (count_list (drop (length (ry_posted s)) (ry_posted (rm_run cfg evs s))) t)
           (rm_pending (ry_mgr (rm_run cfg evs s)))"
    "length (ry_released s) \<le> length (ry_released (rm_run cfg evs s))"
    "length (ry_posted s) \<le> length (ry_posted (rm_run cfg evs s))" by auto
  have run: "rm_run cfg (evs @ [e]) s = rm_step cfg e (rm_run cfg evs s)" by (simp add: rm_run_def)
  show ?case unfolding run by (rule rm_step_entry [OF IH(1) snoc.prems(2,3) _ IH(2,3)]) (use snoc.prems(4) in simp)
qed (simp add: rm_run_def)

text \<open>Only batches that were queued are released.\<close>

definition enqueues :: "(commit_batch \<Rightarrow> bool) \<Rightarrow> rm_event \<Rightarrow> bool" where
  "enqueues P e = (case e of EvEnqueue base recs \<Rightarrow> P (base, recs) | _ \<Rightarrow> True)"

definition batches_in :: "(commit_batch \<Rightarrow> bool) \<Rightarrow> rm_sys \<Rightarrow> bool" where
  "batches_in P s = (list_all P (rm_commit_queue (ry_mgr s)) \<and> (case ry_pc s of Took qc \<Rightarrow> P qc | _ \<Rightarrow> True))"

lemma rm_step_batches:
  assumes "batches_in P s" "enqueues P e"
  shows "batches_in P (rm_step cfg e s) \<and>
    (\<exists>bs. ry_released (rm_step cfg e s) = ry_released s @ bs \<and> list_all P bs)"
  using assms
  by (cases e; cases "ry_pc s")
    (auto simp: batches_in_def enqueues_def register_pending_def enqueue_committed_def set_follower_fd_def
      rm_on_replica_ack_def over_pending_def worker_pop_def worker_release_def worker_progress_def Let_def
      split: list.splits)

lemma rm_run_batches:
  assumes "batches_in P s" "list_all (enqueues P) evs"
  shows "\<exists>bs. ry_released (rm_run cfg evs s) = ry_released s @ bs \<and> list_all P bs"
  using assms
proof (induction evs arbitrary: s)
  case (Cons e evs)
  obtain bs where b: "ry_released (rm_step cfg e s) = ry_released s @ bs" "list_all P bs" "batches_in P (rm_step cfg e s)"
    using rm_step_batches [OF Cons.prems(1), of e cfg] Cons.prems(2) by auto
  obtain cs where "ry_released (rm_run cfg evs (rm_step cfg e s)) = ry_released (rm_step cfg e s) @ cs" "list_all P cs"
    using Cons.IH [OF b(3)] Cons.prems(2) by auto
  then show ?case using b by (simp add: rm_run_def)
qed (simp add: rm_run_def)

section \<open>Properties\<close>

text \<open>C6. A producer's acknowledgement is registered, and then any interleaving of the threads follows:
  other registrations, commits, acknowledgements of followers, steps of the worker. The response is
  posted exactly once if in the meantime the worker released a batch that covers the record's offset
  and as many different followers acknowledged a later offset as there were in-sync followers at the
  registration; it is not posted otherwise. What happened before the registration does not count.\<close>

theorem deferred_ack_posted_iff_quorum:
  assumes "resp \<noteq> []" "length evs < 2 ^ 32" "length (isr_ids (ry_meta s)) \<le> 2 ^ 32"
    "(fd, resp) \<notin> tag ` set (rm_pending (ry_mgr s))" "list_all (\<lambda>e. \<not> registers (fd, resp) e) evs"
    and s': "s' = rm_run cfg (EvRegister off resp fd # evs) s"
  shows "count_list (drop (length (ry_posted s)) (ry_posted s')) (fd, resp) =
     (if list_ex (covers off) (drop (length (ry_released s)) (ry_released s'))
         \<and> length (isr_ids (ry_meta s)) - 1 \<le> card (ackers off evs) then 1 else 0)"
proof -
  let ?s = "rm_step cfg (EvRegister off resp fd) s" and ?req = "of_nat (length (isr_ids (ry_meta s)) - 1) :: u32"
  have "length (isr_ids (ry_meta s)) - 1 < 2 ^ 32" using assms(3) by simp
  then have req: "unat ?req = length (isr_ids (ry_meta s)) - 1" by (rule unat_of_nat_u32)
  have tg: "tagged (fd, resp) (rm_pending (ry_mgr s)) = []"
    using assms(4) by (force simp: tagged_def filter_empty_conv)
  have "deferred_ok (fd, resp) off ?req [] [] 0 (rm_pending (ry_mgr ?s))"
    using tg by (simp add: deferred_ok_def register_pending_def tagged_def tag_def)
  from rm_run_entry [OF this, of evs cfg] assms(1,2,5)
  have "deferred_ok (fd, resp) off ?req evs (drop (length (ry_released s)) (ry_released s'))
     (count_list (drop (length (ry_posted s)) (ry_posted s')) (fd, resp)) (rm_pending (ry_mgr s'))"
    unfolding s' by (simp add: rm_run_def)
  then show ?thesis unfolding deferred_ok_def req by (auto split: if_splits)
qed

theorem deferred_ack_posted_iff_quorum_witness:
  "ry_posted (rm_run config_defaults
      [EvRegister 7 [1, 2] 5, EvAck 1 8, EvEnqueue 7 [\<lparr>rec_offset = 7, rec_timestamp_ms = 0, rec_payload = [9]\<rparr>],
       EvAck 1 8, EvAck 2 9, EvPop, EvRelease]
      \<lparr>ry_meta = seeded 0 3 ''t'' 0 None, ry_mgr = ReplicaManager, ry_pc = Waiting, ry_posted = [], ry_released = [],
       ry_sent = []\<rparr>) = [(5, [1, 2])]"
proof -
  let ?s = "\<lparr>ry_meta = seeded 0 3 ''t'' 0 None, ry_mgr = ReplicaManager, ry_pc = Waiting, ry_posted = [], ry_released = [],
       ry_sent = []\<rparr>"
  let ?evs = "[EvAck 1 8, EvEnqueue 7 [\<lparr>rec_offset = 7, rec_timestamp_ms = 0, rec_payload = [9]\<rparr>], EvAck 1 8, EvAck 2 9,
     EvPop, EvRelease]"
  let ?s' = "rm_run config_defaults (EvRegister 7 [1, 2] 5 # ?evs) ?s"
  have isr: "isr_ids (seeded 0 3 ''t'' 0 None) = [0, 1, 2]"
    by (simp add: isr_ids_seeded upt_conv_Cons)
  note steps = rm_run_def register_pending_def isr enqueue_committed_def rm_on_replica_ack_def over_pending_def
    worker_pop_def worker_release_def commit_one_def count_ack_def try_release_def released_def Let_def
    ReplicaManager_def
  have "ry_released ?s' = [(7, [\<lparr>rec_offset = 7, rec_timestamp_ms = 0, rec_payload = [9]\<rparr>])]"
    "length (ry_posted ?s') \<le> 1"
    by (simp_all add: steps)
  moreover have "count_list (ry_posted ?s') (5, [1, 2]) = 1"
    using deferred_ack_posted_iff_quorum [of "[1, 2]" ?evs ?s 5 ?s' config_defaults 7] calculation(1)
    by (simp add: isr registers_def covers_def ReplicaManager_def)
  ultimately show ?thesis by (cases "ry_posted ?s'") (auto split: if_splits)
qed

text \<open>C39. The handler appends a record before it registers the acknowledgement. If the record is committed and
  its batch released in between, the producer is never answered, whatever the followers
  acknowledge, as long as the offset is not committed a second time.\<close>

theorem ack_lost_when_commit_precedes_registration:
  assumes "resp \<noteq> []" "length evs < 2 ^ 32"
    "list_all (\<lambda>e. \<not> registers (fd, resp) e \<and> enqueues (\<lambda>qc. \<not> covers off qc) e) evs"
  shows "(fd, resp) \<notin> set (ry_posted (rm_run cfg
     ([EvEnqueue off [r], EvPop, EvRelease, EvRegister off resp fd] @ evs)
     \<lparr>ry_meta = m, ry_mgr = ReplicaManager, ry_pc = Waiting, ry_posted = [], ry_released = [], ry_sent = []\<rparr>))"
proof -
  let ?s = "\<lparr>ry_meta = m, ry_mgr = register_pending off resp fd m ReplicaManager, ry_pc = Streaming (off, [r]),
     ry_posted = [], ry_released = [(off, [r])], ry_sent = []\<rparr>"
  have run: "rm_run cfg ([EvEnqueue off [r], EvPop, EvRelease, EvRegister off resp fd] @ evs)
     \<lparr>ry_meta = m, ry_mgr = ReplicaManager, ry_pc = Waiting, ry_posted = [], ry_released = [], ry_sent = []\<rparr>
     = rm_run cfg evs ?s"
    by (simp add: rm_run_def enqueue_committed_def worker_pop_def worker_release_def over_pending_def
        ReplicaManager_def register_pending_def)
  let ?req = "of_nat (length (isr_ids m) - 1) :: u32"
  have e: "deferred_ok (fd, resp) off ?req [] [] 0 (rm_pending (ry_mgr ?s))"
    by (simp add: deferred_ok_def register_pending_def tagged_def tag_def ReplicaManager_def)
  have reg: "list_all (\<lambda>e. \<not> registers (fd, resp) e) evs" "list_all (enqueues (\<lambda>qc. \<not> covers off qc)) evs"
    using assms(3) by (simp_all add: list_all_iff)
  have "batches_in (\<lambda>qc. \<not> covers off qc) ?s" by (simp add: batches_in_def register_pending_def ReplicaManager_def)
  from rm_run_batches [OF this reg(2)]
  obtain bs where bs: "ry_released (rm_run cfg evs ?s) = ry_released ?s @ bs" "list_all (\<lambda>qc. \<not> covers off qc) bs" by blast
  then have "\<not> list_ex (covers off) bs" by (simp add: list_all_iff list_ex_iff)
  then have "count_list (ry_posted (rm_run cfg evs ?s)) (fd, resp) = 0"
    using rm_run_entry [OF e, of evs cfg] assms(1,2) reg(1) bs(1) by (simp add: deferred_ok_def)
  then show ?thesis unfolding run by (simp add: count_list_0_iff)
qed

theorem ack_lost_when_commit_precedes_registration_witness:
  "(5, [1, 2]) \<notin> set (ry_posted (rm_run config_defaults
     ([EvEnqueue 7 [\<lparr>rec_offset = 7, rec_timestamp_ms = 0, rec_payload = [9]\<rparr>], EvPop, EvRelease, EvRegister 7 [1, 2] 5]
       @ [EvAck 1 8, EvAck 2 8, EvStream])
     \<lparr>ry_meta = seeded 0 3 ''t'' 0 None, ry_mgr = ReplicaManager, ry_pc = Waiting, ry_posted = [], ry_released = [],
      ry_sent = []\<rparr>))"
  by (rule ack_lost_when_commit_precedes_registration) (simp_all add: registers_def enqueues_def)

end
