(* ===== verification/Fell_Topic_Registry.thy ===== *)
theory Fell_Topic_Registry
  imports Fell_Store_Boot Fell_Partition_Meta
begin

text \<open>
  \<^verbatim>\<open>broker/topic_registry.cpp\<close>: the topics of a broker and their partitions. A \<^verbatim>\<open>Partition\<close> only forwards to its
  store and is the store here; an empty \<^verbatim>\<open>unique_ptr\<close> in a topic's vector is \<open>None\<close>. What the file system
  holds when the registry opens a partition is an argument. A topic's partitions are changed in place
  through the pointer that \<^verbatim>\<open>get_partition\<close> returns: \<open>set_partition\<close>.
\<close>

section \<open>Definitions\<close>

type_synonym 'cb topic_map = "(string \<times> 'cb store option list) list"

record 'cb topic_registry =
  tr_topics :: "'cb topic_map"
  tr_data_root :: string
  tr_storage_options :: storage_options

definition TopicRegistry :: "string \<Rightarrow> storage_options \<Rightarrow> 'cb topic_registry" where
  "TopicRegistry data_root opts = \<lparr>tr_topics = [], tr_data_root = data_root, tr_storage_options = opts\<rparr>"

text \<open>Insertion into \<^verbatim>\<open>topics_\<close>, whose iteration order is that of the list.\<close>

fun topics_put :: "'cb topic_map \<Rightarrow> string \<Rightarrow> 'cb store option list \<Rightarrow> 'cb topic_map" where
  "topics_put [] t ps = [(t, ps)]"
| "topics_put ((u, qs) # m) t ps = (if u = t then (t, ps) # m else (u, qs) # topics_put m t ps)"

subsection \<open>Lookups\<close>

definition get_partition :: "string \<Rightarrow> u16 \<Rightarrow> 'cb topic_registry \<Rightarrow> 'cb store option" where
  "get_partition topic part reg =
     (case map_of (tr_topics reg) topic of
        None \<Rightarrow> None
      | Some ps \<Rightarrow> if unat part \<ge> length ps then None else ps ! unat part)"

definition set_partition :: "string \<Rightarrow> u16 \<Rightarrow> 'cb store \<Rightarrow> 'cb topic_registry \<Rightarrow> 'cb topic_registry" where
  "set_partition topic part st reg =
     (case map_of (tr_topics reg) topic of
        None \<Rightarrow> reg
      | Some ps \<Rightarrow> reg\<lparr>tr_topics := topics_put (tr_topics reg) topic (ps[unat part := Some st])\<rparr>)"

definition num_partitions :: "string \<Rightarrow> 'cb topic_registry \<Rightarrow> u16" where
  "num_partitions topic reg =
     (case map_of (tr_topics reg) topic of None \<Rightarrow> 0 | Some ps \<Rightarrow> of_nat (length ps))"

definition list_topics :: "'cb topic_registry \<Rightarrow> (string \<times> u16) list" where
  "list_topics reg = map (\<lambda>(name, ps). (name, of_nat (length ps))) (tr_topics reg)"

subsection \<open>Creation\<close>

definition partition_dirname :: "nat \<Rightarrow> string" where
  "partition_dirname i = ''partition-'' @ to_string i"

text \<open>\<^verbatim>\<open>path / path\<close> on POSIX: an absolute right side replaces the left.\<close>

definition path_join :: "string \<Rightarrow> string \<Rightarrow> string" where
  "path_join a b =
     (if b \<noteq> [] \<and> hd b = CHR ''/'' then b
      else if a = [] \<or> last a = CHR ''/'' then a @ b else a @ ''/'' @ b)"

text \<open>\<open>files path\<close> is what the directory holds after \<^verbatim>\<open>create_directories\<close>. The loop runs for
  \<open>i, i + 1, \<dots>\<close>, \<open>k\<close> times.\<close>

fun create_partitions ::
  "(string \<Rightarrow> dir) \<Rightarrow> u64 \<Rightarrow> string \<Rightarrow> storage_options \<Rightarrow> nat \<Rightarrow> nat \<Rightarrow> fault + 'cb store option list" where
  "create_partitions files now topic_dir opts i 0 = Inr []"
| "create_partitions files now topic_dir opts i (Suc k) =
     (case PartitionStore (files (path_join topic_dir (partition_dirname i))) opts now of
        Inl e \<Rightarrow> Inl e
      | Inr st \<Rightarrow>
          (case create_partitions files now topic_dir opts (Suc i) k of
             Inl e \<Rightarrow> Inl e
           | Inr ps \<Rightarrow> Inr (Some st # ps)))"

definition create_topic ::
  "(string \<Rightarrow> dir) \<Rightarrow> u64 \<Rightarrow> string \<Rightarrow> u16 \<Rightarrow> 'cb topic_registry \<Rightarrow> fault + bool \<times> 'cb topic_registry" where
  "create_topic files now name n reg =
     (if map_of (tr_topics reg) name \<noteq> None then Inr (False, reg)
      else case create_partitions files now (path_join (tr_data_root reg) name) (tr_storage_options reg) 0 (unat n) of
             Inl e \<Rightarrow> Inl e
           | Inr ps \<Rightarrow> Inr (True, reg\<lparr>tr_topics := topics_put (tr_topics reg) name ps\<rparr>))"

subsection \<open>Recovery\<close>

text \<open>\<^verbatim>\<open>partitions.resize(idx + 1)\<close> when needed, then the assignment, which is out of bounds if the sum wraps. The partitions are opened with the
  default options: \<^verbatim>\<open>recover_all\<close> does not pass its own.\<close>

definition place :: "nat \<Rightarrow> 'a \<Rightarrow> 'a option list \<Rightarrow> 'a option list" where
  "place i x ps = (ps @ replicate (i + 1 - length ps) None)[i := Some x]"

fun recover_partitions ::
  "u64 \<Rightarrow> (string \<times> dir) list \<Rightarrow> 'cb store option list \<Rightarrow> fault + 'cb store option list" where
  "recover_partitions now [] ps = Inr ps"
| "recover_partitions now ((name, d) # ds) ps =
     (case stoull (drop 10 name) of
        Inl e \<Rightarrow> Inl e
      | Inr idx \<Rightarrow>
          if unat idx + 1 = size_max then Inl OutOfBounds
          else (case PartitionStore d default_options now of
             Inl e \<Rightarrow> Inl e
           | Inr st \<Rightarrow> recover_partitions now ds (place (unat idx) st ps)))"

text \<open>The listing of the data directory: topic directories, their subdirectories, the files in these;
  \<open>None\<close> when there is no data directory.\<close>

fun recover_topics ::
  "u64 \<Rightarrow> (string \<times> (string \<times> dir) list) list \<Rightarrow> 'cb topic_map \<Rightarrow> fault + 'cb topic_map" where
  "recover_topics now [] m = Inr m"
| "recover_topics now ((topic_name, subdirs) # ts) m =
     (let partition_dirs = filter (\<lambda>(n, _). take 10 n = ''partition-'') subdirs
      in if partition_dirs = [] then recover_topics now ts m
         else case recover_partitions now partition_dirs [] of
                Inl e \<Rightarrow> Inl e
              | Inr ps \<Rightarrow> recover_topics now ts (topics_put m topic_name ps))"

definition recover_all ::
  "u64 \<Rightarrow> (string \<times> (string \<times> dir) list) list option \<Rightarrow> 'cb topic_registry \<Rightarrow> fault + 'cb topic_registry" where
  "recover_all now listing reg =
     (case listing of
        None \<Rightarrow> Inr reg
      | Some ts \<Rightarrow>
          (case recover_topics now ts (tr_topics reg) of
             Inl e \<Rightarrow> Inl e
           | Inr m \<Rightarrow> Inr (reg\<lparr>tr_topics := m\<rparr>)))"

section \<open>Lookups after updates\<close>

lemma map_of_topics_put [simp]: "map_of (topics_put m t ps) = (map_of m)(t \<mapsto> ps)"
  by (induction m t ps rule: topics_put.induct) auto

lemma get_set_partition:
  assumes "get_partition t p reg = Some st"
  shows "get_partition u q (set_partition t p st' reg) = (if u = t \<and> q = p then Some st' else get_partition u q reg)"
  using assms by (auto simp: get_partition_def set_partition_def nth_list_update split: option.splits if_splits
      dest: word_unat_eq_iff [THEN iffD2])

lemma num_set_partition [simp]: "num_partitions u (set_partition t p st reg) = num_partitions u reg"
  by (auto simp: num_partitions_def set_partition_def split: option.splits)

section \<open>Recovery\<close>

definition slot :: "'a option list \<Rightarrow> nat \<Rightarrow> 'a option" where
  "slot ps i = (if i < length ps then ps ! i else None)"

lemma slot_place [simp]: "slot (place i x ps) j = (if j = i then Some x else slot ps j)"
  by (auto simp: slot_def place_def nth_list_update nth_append)

lemma length_place [simp]: "length (place i x ps) = max (length ps) (i + 1)"
  by (auto simp: place_def)

lemma list_eq_by_slot:
  assumes "length xs = length ys" "\<And>i. i < length xs \<Longrightarrow> slot xs i = slot ys i"
  shows "xs = ys"
  by (rule nth_equalityI) (use assms in \<open>auto simp: slot_def\<close>)

lemma slot_fold_place:
  assumes "distinct (map fst kvs)"
  shows "slot (fold (\<lambda>(i, x). place i x) kvs ps) j = (case map_of kvs j of None \<Rightarrow> slot ps j | Some x \<Rightarrow> Some x)"
  using assms
proof (induction kvs arbitrary: ps)
  case (Cons kv kvs)
  obtain i x where kv: "kv = (i, x)" by (cases kv)
  have "map_of kvs i = None" using Cons.prems kv by (auto simp: map_of_eq_None_iff)
  then show ?case using Cons kv by (auto split: option.split)
qed simp

lemma length_fold_place:
  "length (fold (\<lambda>(i, x). place i x) kvs ps) = fold max (map (\<lambda>(i, x). i + 1) kvs) (length ps)"
  by (induction kvs arbitrary: ps) (auto simp: max.commute)

lemma fold_max_perm: "mset xs = mset (map Suc [0..<n]) \<Longrightarrow> fold max xs 0 = n"
proof -
  assume m: "mset xs = mset (map Suc [0..<n])"
  then have s: "set xs = {1..n}" by (metis set_mset_mset atLeastLessThanSuc_atLeastAtMost image_Suc_atLeastLessThan list.set_map One_nat_def set_upt)
  have f: "fold max xs (0::nat) = Max (insert 0 (set xs))" by (simp add: Max.set_eq_fold [symmetric])
  show ?thesis unfolding f s by (cases "n = 0") (auto intro!: Max_eqI)
qed

text \<open>The vector is filled independently of the order in which the directory is listed.\<close>

lemma fold_place_perm:
  assumes m: "mset kvs = mset (map (\<lambda>i. (i, xs ! i)) [0..<length xs])"
  shows "fold (\<lambda>(i, x). place i x) kvs [] = map Some xs"
proof (rule list_eq_by_slot)
  have fst: "mset (map fst kvs) = mset [0..<length xs]"
    using arg_cong [OF m, of "image_mset fst"] by (simp add: multiset.map_comp comp_def)
  have d: "distinct (map fst kvs)" using fst by (metis distinct_upt mset_eq_imp_distinct_iff)
  have "mset (map (\<lambda>(i, x). i + 1) kvs) = mset (map Suc [0..<length xs])"
    using arg_cong [OF m, of "image_mset (\<lambda>(i, x). i + 1)"] by (simp add: multiset.map_comp comp_def)
  then show len: "length (fold (\<lambda>(i, x). place i x) kvs []) = length (map Some xs)"
    by (simp add: length_fold_place fold_max_perm)
  fix j assume "j < length (fold (\<lambda>(i, x). place i x) kvs [])"
  then have j: "j < length xs" using len by simp
  have "set kvs = set (map (\<lambda>i. (i, xs ! i)) [0..<length xs])" using m by (metis set_mset_mset)
  then have "map_of kvs j = Some (xs ! j)" using d j by (auto simp: map_of_eq_Some_iff)
  then show "slot (fold (\<lambda>(i, x). place i x) kvs []) j = slot (map Some xs) j"
    unfolding slot_fold_place [OF d] using j by (simp add: slot_def)
qed

lemma recover_partitions_eq:
  assumes "list_all (\<lambda>(name, d). \<exists>i st. i < 2 ^ 64 - 1 \<and> name = partition_dirname i
     \<and> PartitionStore d default_options now = Inr (st :: 'cb store)) ds"
  shows "recover_partitions now ds (ps :: 'cb store option list) =
     Inr (fold (\<lambda>(i, x). place i x) (map (\<lambda>(name, d). (dec_value (drop 10 name), projr (PartitionStore d default_options now))) ds) ps)"
  using assms
proof (induction ds arbitrary: ps)
  case (Cons nd ds)
  then obtain i d and st :: "'cb store" where nd: "nd = (partition_dirname i, d)" "i < 2 ^ 64 - 1"
      "PartitionStore d default_options now = Inr st"
    by (cases nd) auto
  have dr: "drop 10 (partition_dirname i) = to_string i" by (simp add: partition_dirname_def)
  have "i < 2 ^ 64" using nd(2) by simp
  then have st: "stoull (to_string i) = Inr (of_nat i)" "unat (of_nat i :: u64) = i"
    by (simp_all only: stoull_to_string unat_of_nat_u64)
  show ?case using Cons nd by (simp add: dr st dec_value_to_string size_max_def)
qed simp

text \<open>A restart after which the file system lists, in any order and among other entries, a directory
  \<open>partition-i\<close> with the files \<open>ds ! i\<close> for every partition of the topic.\<close>

lemma recover_partitions_perm:
  assumes m: "mset pds = mset (map (\<lambda>i. (partition_dirname i, ds ! i)) [0..<length ds])"
    and sts: "list_all2 (\<lambda>d st. PartitionStore d default_options now = Inr st) ds (sts :: 'cb store list)" and n: "length ds < 2 ^ 64"
  shows "recover_partitions now pds [] = Inr (map Some sts)"
proof -
  let ?f = "\<lambda>(name, d). (dec_value (drop 10 name), projr (PartitionStore d default_options now))"
  have len: "length ds = length sts" using sts by (rule list_all2_lengthD)
  have one: "PartitionStore (ds ! i) default_options now = Inr (sts ! i)" if "i < length ds" for i
    using sts that by (simp add: list_all2_conv_all_nth)
  have "set pds = set (map (\<lambda>i. (partition_dirname i, ds ! i)) [0..<length ds])" using m by (metis set_mset_mset)
  then have "list_all (\<lambda>(name, d). \<exists>i st. i < 2 ^ 64 - 1 \<and> name = partition_dirname i \<and> PartitionStore d default_options now = Inr (st :: 'cb store)) pds"
    unfolding list_all_iff
  proof (intro ballI)
    fix x assume "x \<in> set pds"
    then obtain i where i: "x = (partition_dirname i, ds ! i)" "i < length ds"
      using \<open>set pds = _\<close> by auto
    then have "i < 2 ^ 64 - 1" using n by simp
    then show "case x of (name, d) \<Rightarrow> \<exists>i st. i < 2 ^ 64 - 1 \<and> name = partition_dirname i \<and> PartitionStore d default_options now = Inr (st :: 'cb store)"
      using i one [OF i(2)] by auto
  qed
  moreover have "mset (map ?f pds) = mset (map (\<lambda>i. (i, sts ! i)) [0..<length sts])"
  proof -
    have "mset (map ?f pds) = mset (map (\<lambda>i. ?f (partition_dirname i, ds ! i)) [0..<length ds])"
      using arg_cong [OF m, of "image_mset ?f"] by (simp add: multiset.map_comp comp_def)
    also have "map (\<lambda>i. ?f (partition_dirname i, ds ! i)) [0..<length ds] = map (\<lambda>i. (i, sts ! i)) [0..<length sts]"
      unfolding len [symmetric]
      by (rule map_cong [OF refl]) (simp add: one partition_dirname_def dec_value_to_string)
    finally show ?thesis .
  qed
  ultimately show ?thesis by (simp add: recover_partitions_eq fold_place_perm)
qed

text \<open>The data directory of a broker that stopped with the topics \<open>topics\<close>, as the file system may list it.\<close>

definition listed :: "(string \<times> (string \<times> dir) list) \<Rightarrow> (string \<times> 'cb store list) \<Rightarrow> bool" where
  "listed l t = (fst l = fst t \<and> snd t \<noteq> [] \<and> length (snd t) < 2 ^ 16
     \<and> mset (filter (\<lambda>(n, _). take 10 n = ''partition-'') (snd l))
         = mset (map (\<lambda>i. (partition_dirname i, st_dir (snd t ! i))) [0..<length (snd t)])
     \<and> (\<forall>st \<in> set (snd t). \<exists>segs. log_ok segs [] st))"

text \<open>A store and the store that opens the same directory.\<close>

definition reopened :: "'cb store \<Rightarrow> 'cb store \<Rightarrow> bool" where
  "reopened st st' = ((\<forall>segs. log_ok segs [] st \<longrightarrow> log_ok segs [] st') \<and> options st' = default_options
     \<and> queue st' = [] \<and> st_committed_offset st' = sw_next_offset (writer st'))"

lemma reopen:
  assumes "\<exists>segs. log_ok segs [] (st :: 'cb store)"
  shows "\<exists>st'. PartitionStore (st_dir st) default_options now = Inr st' \<and> reopened st st'"
proof -
  obtain segs where "log_ok segs [] st" using assms by blast
  from PartitionStore_ok [OF log_ok_dir_holds [OF this], of default_options now]
  obtain st' :: "'cb store" where st': "PartitionStore (st_dir st) default_options now = Inr st'" "options st' = default_options" "queue st' = []"
    "st_committed_offset st' = sw_next_offset (writer st')" by metis
  have "log_ok segs' [] st'" if ok: "log_ok segs' [] st" for segs'
  proof -
    obtain st2 :: "'cb store" where "PartitionStore (st_dir st) default_options now = Inr st2" "log_ok segs' [] st2"
      using PartitionStore_ok [OF log_ok_dir_holds [OF ok], of default_options now] by metis
    then show ?thesis using st'(1) by simp
  qed
  then show ?thesis using st' by (auto simp: reopened_def)
qed

lemma recover_listed_topic:
  assumes "listed l (t :: string \<times> 'cb store list)"
  obtains sts where "list_all2 reopened (snd t) sts"
    "recover_partitions now (filter (\<lambda>(n, _). take 10 n = ''partition-'') (snd l)) [] = Inr (map Some sts)"
proof -
  have "\<forall>st \<in> set (snd t). \<exists>st'. PartitionStore (st_dir st) default_options now = Inr st' \<and> reopened st st'"
    using assms unfolding listed_def by (blast intro: reopen)
  then obtain f where f: "\<forall>st \<in> set (snd t). PartitionStore (st_dir st) default_options now = Inr (f st) \<and> reopened st (f st)"
    by metis
  have "list_all2 reopened (snd t) (map f (snd t))" using f by (auto simp: list_all2_conv_all_nth)
  moreover have "recover_partitions now (filter (\<lambda>(n, _). take 10 n = ''partition-'') (snd l)) [] = Inr (map Some (map f (snd t)))"
  proof (rule recover_partitions_perm)
    have eq: "map (\<lambda>i. (partition_dirname i, map st_dir (snd t) ! i)) [0..<length (map st_dir (snd t))]
        = map (\<lambda>i. (partition_dirname i, st_dir (snd t ! i))) [0..<length (snd t)]"
      by (auto intro: map_cong)
    show "mset (filter (\<lambda>(n, _). take 10 n = ''partition-'') (snd l))
      = mset (map (\<lambda>i. (partition_dirname i, map st_dir (snd t) ! i)) [0..<length (map st_dir (snd t))])"
      unfolding eq using assms unfolding listed_def by blast
    show "list_all2 (\<lambda>d st. PartitionStore d default_options now = Inr st) (map st_dir (snd t)) (map f (snd t))"
      using f by (auto simp: list_all2_conv_all_nth)
    show "length (map st_dir (snd t)) < 2 ^ 64" using assms by (simp add: listed_def)
  qed
  ultimately show thesis by (rule that)
qed

lemma recover_listed_topics:
  assumes "list_all2 listed ls ts" "distinct (map fst ts)"
  shows "\<exists>m'. recover_topics now ls m = Inr m'
     \<and> (\<forall>(t, sts) \<in> set ts. \<exists>sts'. map_of m' t = Some (map Some sts') \<and> list_all2 reopened sts sts')
     \<and> (\<forall>t. t \<notin> fst ` set ts \<longrightarrow> map_of m' t = map_of m t)"
  using assms
proof (induction ls ts arbitrary: m rule: list_all2_induct)
  case (Cons l ls t ts)
  obtain sts where sts: "list_all2 reopened (snd t) sts"
    "recover_partitions now (filter (\<lambda>(n, _). take 10 n = ''partition-'') (snd l)) [] = Inr (map Some sts)"
    using recover_listed_topic [OF Cons.hyps(1)] .
  have ne: "filter (\<lambda>(n, _). take 10 n = ''partition-'') (snd l) \<noteq> []"
  proof
    assume "filter (\<lambda>(n, _). take 10 n = ''partition-'') (snd l) = []"
    then have "sts = []" using sts(2) by simp
    then have "snd t = []" using sts(1) by simp
    then show False using Cons.hyps(1) by (simp add: listed_def)
  qed
  have "recover_topics now (l # ls) m = recover_topics now ls (topics_put m (fst t) (map Some sts))"
    using sts(2) ne Cons.hyps(1) by (cases l) (simp add: listed_def Let_def)
  moreover obtain m' where m': "recover_topics now ls (topics_put m (fst t) (map Some sts)) = Inr m'"
    "\<forall>(t, sts) \<in> set ts. \<exists>sts'. map_of m' t = Some (map Some sts') \<and> list_all2 reopened sts sts'"
    "\<forall>u. u \<notin> fst ` set ts \<longrightarrow> map_of m' u = map_of (topics_put m (fst t) (map Some sts)) u"
    using Cons.IH [of "topics_put m (fst t) (map Some sts)"] Cons.prems by auto
  moreover have "map_of m' (fst t) = Some (map Some sts)" using m'(3) Cons.prems by simp
  ultimately show ?case using sts(1) by (intro exI [of _ m']) (auto intro!: exI [of _ sts])
qed auto

section \<open>Properties\<close>

text \<open>C24. A broker stops with some topics, each of whose partitions has a consistent log. Whatever the
  order in which the file system lists the directories, and whatever else it lists,
  \<^verbatim>\<open>recover_all\<close> brings back every topic with its partitions in their places, each with the log it
  had, nothing queued and every record committed. (The partitions are opened with the default
  options, not with the options the registry was given.)\<close>

theorem restart_recovers_topics:
  assumes "list_all2 listed listing topics" "distinct (map fst topics)"
  shows "\<exists>reg. recover_all now (Some listing) (TopicRegistry root opts) = Inr reg
     \<and> (\<forall>(t, sts) \<in> set topics. unat (num_partitions t reg) = length sts
          \<and> (\<forall>i < length sts. \<exists>st. get_partition t (of_nat i) reg = Some st \<and> reopened (sts ! i) st))
     \<and> (\<forall>t. t \<notin> fst ` set topics \<longrightarrow> num_partitions t reg = 0)"
proof -
  obtain m where m: "recover_topics now listing [] = Inr m"
    "\<forall>(t, sts) \<in> set topics. \<exists>sts'. map_of m t = Some (map Some sts') \<and> list_all2 reopened sts sts'"
    "\<forall>t. t \<notin> fst ` set topics \<longrightarrow> map_of m t = map_of [] t"
    using recover_listed_topics [OF assms, of now "[]"] by (elim exE conjE)
  let ?reg = "TopicRegistry root opts\<lparr>tr_topics := m\<rparr>"
  have len: "length sts < 2 ^ 16" if mem: "(t, sts) \<in> set topics" for t sts
  proof -
    obtain l where "listed l (t, sts)" using assms(1) mem by (metis list_all2_conv_all_nth in_set_conv_nth)
    then show ?thesis by (simp add: listed_def)
  qed
  have "unat (num_partitions t ?reg) = length sts
      \<and> (\<forall>i < length sts. \<exists>st. get_partition t (of_nat i) ?reg = Some st \<and> reopened (sts ! i) st)"
    if mem: "(t, sts) \<in> set topics" for t sts
  proof -
    obtain sts' where s: "map_of m t = Some (map Some sts')" "list_all2 reopened sts sts'" using m(2) mem by blast
    have l: "length sts' = length sts" using s(2) by (simp add: list_all2_lengthD)
    have u: "unat (of_nat i :: u16) = i" if "i \<le> length sts" for i using len [OF mem] that by simp
    have "get_partition t (of_nat i) ?reg = Some (sts' ! i) \<and> reopened (sts ! i) (sts' ! i)" if "i < length sts" for i
      using s that l u [of i] by (simp add: get_partition_def list_all2_conv_all_nth)
    then show ?thesis using s(1) l u [of "length sts"] by (auto simp: num_partitions_def)
  qed
  then show ?thesis using m(1,3) by (auto simp: recover_all_def TopicRegistry_def num_partitions_def)
qed

text \<open>Two empty partitions, listed out of order and next to another directory.\<close>

definition example_listing :: "(string \<times> (string \<times> dir) list) list" where
  "example_listing = [(''t'', [(''partition-1'', open_files [] 0), (''tmp'', []), (''partition-0'', open_files [] 0)])]"

theorem restart_recovers_topics_witness:
  "\<exists>reg. recover_all 9 (Some example_listing) (TopicRegistry ''data'' default_options) = Inr reg
     \<and> num_partitions ''t'' reg = 2 \<and> (\<exists>st :: unit store. get_partition ''t'' 1 reg = Some st \<and> log_ok [(0, [])] [] st)
     \<and> num_partitions ''u'' reg = 0"
proof -
  let ?st = "empty_store default_options 3 :: unit store" and ?l = "hd example_listing"
  have d: "partition_dirname 0 = ''partition-0''" "partition_dirname (Suc 0) = ''partition-1''"
    by (simp_all add: partition_dirname_def to_string.simps digit_def char_of_def bit_Suc_0_iff)
  have st: "st_dir ?st = open_files [] 0" by (simp add: empty_store_def)
  have "listed ?l (''t'', [?st, ?st])"
    using empty_store_ok(1) [of default_options 3] by (auto simp: listed_def example_listing_def d st)
  then have "list_all2 listed example_listing [(''t'', [?st, ?st])]" by (simp add: example_listing_def)
  from restart_recovers_topics [OF this, of 9 "''data''" default_options]
  obtain reg :: "unit topic_registry" where reg: "recover_all 9 (Some example_listing) (TopicRegistry ''data'' default_options) = Inr reg"
    "unat (num_partitions ''t'' reg) = 2" "\<exists>st. get_partition ''t'' 1 reg = Some st \<and> reopened ?st st"
    "num_partitions ''u'' reg = 0"
    by (auto simp: less_Suc_eq)
  have "num_partitions ''t'' reg = 2" using reg(2) by (metis of_nat_numeral of_nat_unat ucast_id)
  then show ?thesis using reg empty_store_ok(1) [of default_options 3] unfolding reopened_def by blast
qed

end
