(* ===== verification/Fell_Request_Handler.thy ===== *)
theory Fell_Request_Handler
  imports Fell_Protocol Fell_Topic_Registry Fell_Cluster_Config
begin

text \<open>
  \<^verbatim>\<open>broker/request_handler.cpp\<close> and \<^verbatim>\<open>broker/include/broker/connection_state.hpp\<close>: one definition per
  handler, each with all its checks in their order. A handler takes the frame, the connection and the
  handler's state, and gives the response bytes, the acknowledgement it defers (the call of
  \<^verbatim>\<open>defer_cb_\<close>), and the new states; exceptions of the storage layer are faults. The clock and the
  contents of directories that are opened are arguments.
\<close>

section \<open>Definitions\<close>

unbundle bit_operations_syntax

subsection \<open>State\<close>

record conn_state =
  cn_fd :: int
  cn_decoder :: frame_decoder
  cn_sub_topic :: string
  cn_sub_partition :: u16
  cn_fetch_offset :: u64
  cn_subscribed :: bool
  cn_rr_counter :: u16
  cn_out_data :: bytes
  cn_write_offset :: nat
  cn_read_disabled :: bool

definition ConnectionState :: "nat \<Rightarrow> int \<Rightarrow> conn_state" where
  "ConnectionState max_frame_size fd =
     \<lparr>cn_fd = fd, cn_decoder = FrameDecoder max_frame_size, cn_sub_topic = [], cn_sub_partition = 0,
      cn_fetch_offset = 0, cn_subscribed = False, cn_rr_counter = 0, cn_out_data = [], cn_write_offset = 0,
      cn_read_disabled = False\<rparr>"

record 'cb handler =
  rh_registry :: "'cb topic_registry"
  rh_cfg :: "cluster_config option"
  rh_meta :: "meta_registry option"
  rh_has_defer :: bool
  rh_publish_requests_total :: u64
  rh_publish_busy_total :: u64
  rh_bytes_published_total :: u64

record deferred_ack =
  da_topic :: string
  da_partition :: u16
  da_offset :: u64
  da_response :: bytes
  da_fd :: int

record env =
  env_now :: u64
  env_files :: "string \<Rightarrow> dir"

type_synonym 'cb reply = "bytes \<times> deferred_ack option \<times> conn_state \<times> 'cb handler"

definition reply :: "bytes \<Rightarrow> conn_state \<Rightarrow> 'cb handler \<Rightarrow> fault + 'cb reply" where
  "reply resp conn h = Inr (resp, None, conn, h)"

definition fail :: "err_code \<Rightarrow> string \<Rightarrow> conn_state \<Rightarrow> 'cb handler \<Rightarrow> fault + 'cb reply" where
  "fail code msg conn h = reply (encode_error code msg) conn h"

subsection \<open>Leadership\<close>

text \<open>\<^verbatim>\<open>meta_reg_->get\<close> creates missing entries and does not throw, so the handlers' fallback to the
  partition number is never taken.\<close>

definition meta_of :: "string \<Rightarrow> u16 \<Rightarrow> 'cb handler \<Rightarrow> partition_meta option \<times> 'cb handler" where
  "meta_of topic part h =
     (case rh_meta h of
        None \<Rightarrow> (None, h)
      | Some reg \<Rightarrow> (case meta_get topic part reg of (m, reg') \<Rightarrow> (Some m, h\<lparr>rh_meta := Some reg'\<rparr>)))"

definition check_leader :: "string \<Rightarrow> u16 \<Rightarrow> 'cb handler \<Rightarrow> bool \<times> 'cb handler" where
  "check_leader topic part h =
     (case meta_of topic part h of
        (None, h') \<Rightarrow> (True, h')
      | (Some m, h') \<Rightarrow> (pm_role m = Leader, h'))"

subsection \<open>METADATA\_REQ\<close>

definition add_broker :: "u32 \<Rightarrow> string \<Rightarrow> u16 \<Rightarrow> bytes" where
  "add_broker i host client_port =
     write_be32 i @ [of_nat (length host)] @ bytes_of host @ write_be16 client_port"

fun leader_ids :: "string \<Rightarrow> nat \<Rightarrow> nat \<Rightarrow> 'cb handler \<Rightarrow> u32 list \<times> 'cb handler" where
  "leader_ids topic i 0 h = ([], h)"
| "leader_ids topic i (Suc k) h =
     (case meta_of topic (of_nat i) h of
        (m, h1) \<Rightarrow>
          (case leader_ids topic (Suc i) k h1 of
             (ids, h2) \<Rightarrow> ((case m of None \<Rightarrow> 0 | Some m \<Rightarrow> pm_leader_id m) # ids, h2)))"

definition metadata_body :: "cluster_config \<Rightarrow> u32 list \<Rightarrow> bytes" where
  "metadata_body cfg leaders =
     write_be16 (of_nat (1 + length (cfg_peers cfg)))
     @ add_broker (cfg_broker_id cfg) ''127.0.0.1'' (cfg_client_port cfg)
     @ concat (map (\<lambda>p. add_broker (ba_broker_id p) (ba_host p) (ba_client_port p)) (cfg_peers cfg))
     @ write_be16 (of_nat (length leaders))
     @ concat (map (\<lambda>(i, l). write_be16 (of_nat i) @ write_be32 l) (zip [0..<length leaders] leaders))"

definition handle_metadata_req :: "frame \<Rightarrow> conn_state \<Rightarrow> 'cb handler \<Rightarrow> fault + 'cb reply" where
  "handle_metadata_req f conn h =
     (if length (frame_payload f) < sizeof_MetadataReq
      then fail MALFORMED_REQUEST ''payload too small for METADATA_REQ'' conn h
      else let topic_name = md_topic (decode_metadata_req (frame_payload f))
           in case (rh_cfg h, rh_meta h) of
                (Some cfg, Some _) \<Rightarrow>
                  (case leader_ids topic_name 0 (unat (num_partitions topic_name (rh_registry h))) h of
                     (ids, h') \<Rightarrow>
                       reply (encode_frame \<lparr>frame_op = METADATA_RESP, frame_payload = metadata_body cfg ids\<rparr>) conn h')
              | _ \<Rightarrow> fail METADATA_UNAVAILABLE ''Cluster metadata unavailable'' conn h)"

subsection \<open>CREATE\_TOPIC\<close>

definition handle_create_topic :: "env \<Rightarrow> frame \<Rightarrow> conn_state \<Rightarrow> 'cb handler \<Rightarrow> fault + 'cb reply" where
  "handle_create_topic e f conn h =
     (if length (frame_payload f) < sizeof_CreateTopicReq
      then fail MALFORMED_REQUEST ''payload too small for CREATE_TOPIC'' conn h
      else let req = decode_create_topic_req (frame_payload f); topic_name = ct_name req
           in if topic_name = [] then fail MALFORMED_REQUEST ''Topic name cannot be empty'' conn h
              else if ct_num_partitions req = 0
              then fail MALFORMED_REQUEST ''Partition count must be at least 1'' conn h
              else case create_topic (env_files e) (env_now e) topic_name (ct_num_partitions req) (rh_registry h) of
                     Inl err \<Rightarrow> Inl err
                   | Inr (False, reg) \<Rightarrow> fail MALFORMED_REQUEST ''Topic already exists'' conn (h\<lparr>rh_registry := reg\<rparr>)
                   | Inr (True, reg) \<Rightarrow>
                       (case (rh_cfg h, rh_meta h) of
                          (Some cfg, Some m) \<Rightarrow>
                            reply (encode_ack 0) conn
                              (h\<lparr>rh_registry := reg,
                                 rh_meta := Some (assign_roles (cfg_broker_id cfg) (num_brokers cfg) [topic_name]
                                                    [ct_num_partitions req] m)\<rparr>)
                        | _ \<Rightarrow> reply (encode_ack 0) conn (h\<lparr>rh_registry := reg\<rparr>)))"

subsection \<open>PUBLISH and PUBLISH\_V2\<close>

text \<open>The common end of both handlers: leadership, lookup, append, acknowledgement.\<close>

definition publish_to :: "env \<Rightarrow> string \<Rightarrow> u16 \<Rightarrow> bytes \<Rightarrow> conn_state \<Rightarrow> 'cb handler \<Rightarrow> fault + 'cb reply" where
  "publish_to e topic_name part payload conn h =
     (case check_leader topic_name part h of
        (False, h1) \<Rightarrow> fail NOT_LEADER ''Not leader for partition'' conn h1
      | (True, h1) \<Rightarrow>
          (case get_partition topic_name part (rh_registry h1) of
             None \<Rightarrow> fail UNKNOWN_PARTITION ''Partition registry lookup failed'' conn h1
           | Some p \<Rightarrow>
               (case store_append (env_now e) payload p of
                  (result, p') \<Rightarrow>
                    let h2 = h1\<lparr>rh_registry := set_partition topic_name part p' (rh_registry h1)\<rparr>
                    in if \<not> ar_accepted result
                       then let h3 = h2\<lparr>rh_publish_busy_total := rh_publish_busy_total h2 + 1\<rparr>
                            in if ar_error result = Closed
                               then fail INTERNAL_ERROR ''Partition is closed'' conn h3
                               else fail BUSY ''Partition append queue is full'' conn h3
                       else let h3 = h2\<lparr>rh_bytes_published_total := rh_bytes_published_total h2 + of_nat (length payload)\<rparr>;
                                ack = encode_ack (ar_offset result)
                            in if (case rh_cfg h3 of None \<Rightarrow> False | Some cfg \<Rightarrow> cfg_acks cfg = -1) \<and> rh_has_defer h3
                               then Inr ([], Some \<lparr>da_topic = topic_name, da_partition = part, da_offset = ar_offset result,
                                                   da_response = ack, da_fd = cn_fd conn\<rparr>, conn, h3)
                               else reply ack conn h3)))"

definition handle_publish :: "env \<Rightarrow> frame \<Rightarrow> conn_state \<Rightarrow> 'cb handler \<Rightarrow> fault + 'cb reply" where
  "handle_publish e f conn h0 =
     (let h = h0\<lparr>rh_publish_requests_total := rh_publish_requests_total h0 + 1\<rparr>
      in if length (frame_payload f) < sizeof_PublishReq
         then fail MALFORMED_REQUEST ''payload too small for PUBLISH header'' conn h
         else let req = decode_publish_req (frame_payload f)
              in if length (frame_payload f) \<noteq> sizeof_PublishReq + unat (pr_payload_size req)
                 then fail MALFORMED_REQUEST ''Payload size mismatch in PUBLISH'' conn h
                 else if pr_topic req = [] then fail MALFORMED_REQUEST ''Topic name cannot be empty'' conn h
                 else let total = num_partitions (pr_topic req) (rh_registry h);
                          payload = drop sizeof_PublishReq (frame_payload f)
                      in if total = 0 then fail UNKNOWN_TOPIC ''Topic does not exist'' conn h
                         else if pr_partition req = 0xFFFF
                         then publish_to e (pr_topic req) (cn_rr_counter conn mod total) payload
                                (conn\<lparr>cn_rr_counter := cn_rr_counter conn + 1\<rparr>) h
                         else if pr_partition req \<ge> total
                         then fail UNKNOWN_PARTITION ''Partition index out of bounds'' conn h
                         else publish_to e (pr_topic req) (pr_partition req) payload conn h)"

definition fnv1a :: "bytes \<Rightarrow> u64" where
  "fnv1a data = foldl (\<lambda>hash b. (hash XOR ucast b) * 1099511628211) 14695981039346656037 data"

definition handle_publish_v2 :: "env \<Rightarrow> frame \<Rightarrow> conn_state \<Rightarrow> 'cb handler \<Rightarrow> fault + 'cb reply" where
  "handle_publish_v2 e f conn h0 =
     (let h = h0\<lparr>rh_publish_requests_total := rh_publish_requests_total h0 + 1\<rparr>
      in if length (frame_payload f) < sizeof_PublishV2Req
         then fail MALFORMED_REQUEST ''payload too small for PUBLISH_V2 header'' conn h
         else let req = decode_publish_v2_req (frame_payload f)
              in if length (frame_payload f) \<noteq> sizeof_PublishV2Req + unat (pv_payload_size req)
                 then fail MALFORMED_REQUEST ''Payload size mismatch in PUBLISH_V2'' conn h
                 else if pv_topic req = [] then fail MALFORMED_REQUEST ''Topic name cannot be empty'' conn h
                 else let total = num_partitions (pv_topic req) (rh_registry h);
                          payload = drop sizeof_PublishV2Req (frame_payload f)
                      in if total = 0 then fail UNKNOWN_TOPIC ''Topic does not exist'' conn h
                         else if pv_key req \<noteq> []
                         then publish_to e (pv_topic req) (ucast (fnv1a (bytes_of (pv_key req)) mod ucast total)) payload conn h
                         else if pv_partition req = 0xFFFF
                         then publish_to e (pv_topic req) (cn_rr_counter conn mod total) payload
                                (conn\<lparr>cn_rr_counter := cn_rr_counter conn + 1\<rparr>) h
                         else if pv_partition req \<ge> total
                         then fail UNKNOWN_PARTITION ''Partition index out of bounds'' conn h
                         else publish_to e (pv_topic req) (pv_partition req) payload conn h)"

subsection \<open>SUBSCRIBE\<close>

definition LATEST :: u64 where
  "LATEST = 0xFFFFFFFFFFFFFFFF"

definition handle_subscribe :: "frame \<Rightarrow> conn_state \<Rightarrow> 'cb handler \<Rightarrow> fault + 'cb reply" where
  "handle_subscribe f conn h =
     (if length (frame_payload f) < sizeof_SubscribeReq
      then fail MALFORMED_REQUEST ''Payload too small for SUBSCRIBE'' conn h
      else let req = decode_subscribe_req (frame_payload f);
               topic_name = sb_topic req; part = sb_partition req; start_offset = sb_start_offset req;
               total = num_partitions topic_name (rh_registry h)
           in if topic_name = [] then fail MALFORMED_REQUEST ''Topic name cannot be empty'' conn h
              else if total = 0 then fail UNKNOWN_TOPIC ''Topic does not exist'' conn h
              else if part \<ge> total then fail UNKNOWN_PARTITION ''Partition index out of bounds'' conn h
              else case check_leader topic_name part h of
                     (False, h1) \<Rightarrow> fail NOT_LEADER ''Not leader for partition'' conn h1
                   | (True, h1) \<Rightarrow>
                       (case get_partition topic_name part (rh_registry h1) of
                          None \<Rightarrow> fail UNKNOWN_PARTITION ''Partition registry lookup failed'' conn h1
                        | Some p \<Rightarrow>
                            if start_offset \<noteq> LATEST \<and> start_offset > next_offset p
                            then fail INVALID_OFFSET ''Start offset lies in the future'' conn h1
                            else let off = (if start_offset = LATEST then next_offset p else start_offset)
                                 in reply (encode_ack off)
                                      (conn\<lparr>cn_sub_topic := topic_name, cn_sub_partition := part,
                                            cn_fetch_offset := off, cn_subscribed := True\<rparr>) h1))"

subsection \<open>FETCH\<close>

definition message_frame :: "stored_message \<Rightarrow> frame" where
  "message_frame msg =
     \<lparr>frame_op = FETCH_RESPONSE,
      frame_payload = encode_fetch_response_header
        \<lparr>fh_offset = rec_offset msg, fh_timestamp_ms = rec_timestamp_ms msg,
         fh_payload_size = of_nat (length (rec_payload msg))\<rparr> @ rec_payload msg\<rparr>"

definition handle_fetch :: "frame \<Rightarrow> conn_state \<Rightarrow> 'cb handler \<Rightarrow> fault + 'cb reply" where
  "handle_fetch f conn h =
     (if length (frame_payload f) < sizeof_FetchReq
      then fail MALFORMED_REQUEST ''Payload too small for FETCH'' conn h
      else let req = decode_fetch_req (frame_payload f);
               topic_name = fr_topic req; part = fr_partition req;
               total = num_partitions topic_name (rh_registry h)
           in if topic_name = [] then fail MALFORMED_REQUEST ''Topic name cannot be empty'' conn h
              else if total = 0 then fail UNKNOWN_TOPIC ''Topic does not exist'' conn h
              else if part \<ge> total then fail UNKNOWN_PARTITION ''Partition index out of bounds'' conn h
              else case check_leader topic_name part h of
                     (False, h1) \<Rightarrow> fail NOT_LEADER ''Not leader for partition'' conn h1
                   | (True, h1) \<Rightarrow>
                       (case get_partition topic_name part (rh_registry h1) of
                          None \<Rightarrow> fail UNKNOWN_PARTITION ''Partition registry lookup failed'' conn h1
                        | Some p \<Rightarrow>
                            (case store_fetch (fr_offset req) (fr_max_messages req) p of
                               Inl err \<Rightarrow> Inl err
                             | Inr (messages, p') \<Rightarrow>
                                 let h2 = h1\<lparr>rh_registry := set_partition topic_name part p' (rh_registry h1)\<rparr>
                                 in if messages = [] then reply (encode_ack 0) conn h2
                                    else reply (encode_frames (map message_frame messages))
                                           (conn\<lparr>cn_fetch_offset := rec_offset (last messages) + 1\<rparr>) h2)))"

subsection \<open>Dispatch\<close>

definition handle :: "env \<Rightarrow> frame \<Rightarrow> conn_state \<Rightarrow> 'cb handler \<Rightarrow> fault + 'cb reply" where
  "handle e f conn h =
     (if frame_op f = METADATA_REQ then handle_metadata_req f conn h
      else if frame_op f = CREATE_TOPIC then handle_create_topic e f conn h
      else if frame_op f = PUBLISH then handle_publish e f conn h
      else if frame_op f = PUBLISH_V2 then handle_publish_v2 e f conn h
      else if frame_op f = SUBSCRIBE then handle_subscribe f conn h
      else if frame_op f = FETCH then handle_fetch f conn h
      else fail UNKNOWN_OP ''Unknown operation'' conn h)"

lemmas handler_defs [handler_simps] = handle_metadata_req_def handle_create_topic_def handle_publish_def
  handle_publish_v2_def handle_subscribe_def handle_fetch_def fail_def reply_def

end
