(* ===== verification/Fell_Partition_Interface.thy ===== *)
theory Fell_Partition_Interface
  imports Fell_Store_System
begin

text \<open>
  What the broker and the replication layer rely on when they use a \<^verbatim>\<open>Partition\<close>: a locale whose
  operations are append and fetch, and whose laws relate them to the abstract log of a partition. The store, in
  any state its I/O thread can be in, is an instance. Request handlers and the replication
  server use the partition through these laws only.
\<close>

section \<open>Definitions\<close>

definition log_end :: "spec_log \<Rightarrow> nat" where
  "log_end a = sl_base a + length (sl_log a) + length (sl_pending a)"

definition spec_put :: "u64 \<Rightarrow> bytes \<Rightarrow> spec_log \<Rightarrow> spec_log" where
  "spec_put ts payload a =
     a\<lparr>sl_pending := sl_pending a @ [\<lparr>rec_offset = of_nat (log_end a), rec_timestamp_ms = ts, rec_payload = payload\<rparr>]\<rparr>"

text \<open>A store at some point of its I/O thread, standing for an abstract log.\<close>

definition serves :: "'cb store \<Rightarrow> spec_log \<Rightarrow> bool" where
  "serves st a = (\<exists>opts segs s. sys_inv opts segs s \<and> sys_store s = st \<and> a = abs_of segs s \<and> max_batch_bytes opts < 2 ^ 60)"

section \<open>The contract\<close>

locale partition_log =
  fixes rel :: "'p \<Rightarrow> spec_log \<Rightarrow> bool"
    and app :: "u64 \<Rightarrow> bytes \<Rightarrow> 'p \<Rightarrow> append_result \<times> 'p"
    and fet :: "u64 \<Rightarrow> u16 \<Rightarrow> 'p \<Rightarrow> fault + stored_message list \<times> 'p"
    and whole :: "'p \<Rightarrow> bool"  \<comment> \<open>no segment is sealed yet\<close>
  assumes rel_offsets: "rel p a \<Longrightarrow> offsets_from (of_nat (sl_base a)) (sl_log a @ sl_pending a) \<and> log_end a < 2 ^ 64"
    and app_law: "\<lbrakk>rel p a; length payload < 2 ^ 32; log_end a + 1 < 2 ^ 64; app now payload p = (r, p')\<rbrakk> \<Longrightarrow>
       if ar_accepted r then ar_offset r = of_nat (log_end a) \<and> (\<exists>ts. rel p' (spec_put ts payload a)) else rel p' a"
    and fet_law: "rel p a \<Longrightarrow> \<exists>rs p'. fet off n p = Inr (rs, p') \<and> rel p' a \<and> length rs \<le> unat n
       \<and> prefix rs (drop (unat off - sl_base a) (sl_log a)) \<and> whole p' = whole p
       \<and> (whole p \<and> 0 < n \<and> sl_base a \<le> unat off \<and> unat off < sl_base a + length (sl_log a) \<longrightarrow> rs \<noteq> [])"
begin

text \<open>What a fetch gives starts at the offset asked for and has no gap.\<close>

lemma fet_offsets:
  assumes "rel p a" "fet off n p = Inr (rs, p')" "sl_base a \<le> unat off"
  shows "offsets_from off rs" "unat off + length rs \<le> sl_base a + length (sl_log a) \<or> rs = []"
proof -
  let ?k = "unat off - sl_base a"
  have p: "prefix rs (drop ?k (sl_log a))" using fet_law [OF assms(1), of off n] assms(2) by auto
  have o: "offsets_from (of_nat (sl_base a)) (sl_log a)" using rel_offsets [OF assms(1)] by simp
  have "length rs \<le> length (sl_log a) - ?k" using prefix_length_le [OF p] by simp
  then show "unat off + length rs \<le> sl_base a + length (sl_log a) \<or> rs = []" using assms(3) by (cases rs) auto
  show "offsets_from off rs"
  proof (cases "?k \<le> length (sl_log a)")
    case True
    have "offsets_from (of_nat (sl_base a)) (take ?k (sl_log a) @ drop ?k (sl_log a))" using o by simp
    then have "offsets_from (of_nat (sl_base a) + of_nat ?k) (drop ?k (sl_log a))"
      unfolding offsets_from_append using True by (simp add: min_absorb2)
    moreover have "of_nat (sl_base a) + of_nat ?k = off"
      using assms(3) by (metis le_add_diff_inverse of_nat_add of_nat_unat ucast_id)
    ultimately show ?thesis using p by (auto simp: prefix_def)
  next
    case False then show ?thesis using p by simp
  qed
qed

end

section \<open>The store provides it\<close>

lemma seg_chain_offsets: "seg_chain n segs \<Longrightarrow> offsets_from (of_nat n) (all_records segs)"
  by (induction n segs rule: seg_chain.induct) auto

lemma sys_inv_end:
  assumes "sys_inv opts segs s"
  shows "unat (sw_next_offset (writer (sys_store s))) = sl_base (abs_of segs s) + length (sl_log (abs_of segs s))"
    and "log_end (abs_of segs s) < 2 ^ 64"
    and "st_next_offset (sys_store s) = of_nat (log_end (abs_of segs s))"
proof -
  note ok = sys_invD(2,3) [OF assms]
  from ok(1) obtain pre b rs where w: "segs = pre @ [(b, rs)]" by (rule log_ok_lastE)
  have chain: "seg_chain (unat (fst (hd segs))) segs" using ok(1) by (simp add: log_ok_def)
  have lt: "unat (fst (hd segs)) + length (all_records segs) < 2 ^ 64"
    using seg_chain_split [OF chain [unfolded w]] w by simp
  then show n: "unat (sw_next_offset (writer (sys_store s))) = sl_base (abs_of segs s) + length (sl_log (abs_of segs s))"
    unfolding log_ok_next [OF ok(1)] by (simp only: unat_of_nat_u64 abs_of_def spec_log.simps)
  show "log_end (abs_of segs s) < 2 ^ 64"
    using ok(2) n by (simp add: log_end_def queue_ok_def abs_of_def)
  show "st_next_offset (sys_store s) = of_nat (log_end (abs_of segs s))"
    using ok(2) log_ok_next [OF ok(1)] by (simp add: log_end_def queue_ok_def abs_of_def ac_simps)
qed

lemma serves_offsets:
  assumes "serves st a"
  shows "offsets_from (of_nat (sl_base a)) (sl_log a @ sl_pending a) \<and> log_end a < 2 ^ 64"
proof -
  obtain opts segs s where s: "sys_inv opts segs s" "sys_store s = st" "a = abs_of segs s"
    using assms by (auto simp: serves_def)
  note ok = sys_invD(2,3) [OF s(1)]
  have "offsets_from (of_nat (sl_base a)) (sl_log a)"
    using ok(1) seg_chain_offsets [of "unat (fst (hd segs))" segs] by (simp add: s(3) abs_of_def log_ok_def)
  moreover have "offsets_from (of_nat (sl_base a) + of_nat (length (sl_log a))) (sl_pending a)"
    using ok(2) log_ok_next [OF ok(1)] by (simp add: s(3) abs_of_def queue_ok_def)
  ultimately show ?thesis using sys_inv_end(2) [OF s(1)] s(3) by simp
qed

lemma serves_append:
  assumes "serves st a" "length payload < 2 ^ 32" "log_end a + 1 < 2 ^ 64" "store_append now payload st = (r, st')"
  shows "if ar_accepted r then ar_offset r = of_nat (log_end a) \<and> (\<exists>ts. serves st' (spec_put ts payload a)) else serves st' a"
proof -
  obtain opts segs s where s: "sys_inv opts segs s" "sys_store s = st" "a = abs_of segs s" "max_batch_bytes opts < 2 ^ 60"
    using assms(1) by (auto simp: serves_def)
  let ?s' = "sys_emit st' (sys_pc s) [] s"
  have st': "st' = snd (store_append now payload (sys_store s))" using assms(4) s(2) by simp
  have same: "same_log (sys_store s) st'" unfolding st' by (rule store_append_same_log)
  have nxt: "st_next_offset st = of_nat (log_end a)" using sys_inv_end(3) [OF s(1)] s(2,3) by simp
  have "log_end a < 2 ^ 64" using assms(3) by simp
  then have "unat (st_next_offset (sys_store s)) + 1 < 2 ^ 64"
    using assms(3) nxt s(2) by (simp only: unat_of_nat_u64)
  then have "client_step s ?s'" using append [of now payload s r st'] assms(2,4) s(2) by simp
  then have "counters_ok ?s'" using sys_invD(8) [OF s(1)] by (rule client_counters)
  moreover have "log_inv opts segs ?s'"
    using s(1) same log_ok_same_log [OF same] by (simp add: sys_inv_def log_inv_def Let_def same_log_def)
  ultimately have inv: "sys_inv opts segs ?s'" by (simp add: sys_inv_def)
  show ?thesis
  proof (cases "ar_accepted r")
    case True
    then obtain ts where r: "ar_offset r = st_next_offset st"
      "queue st' = queue st @ [\<lparr>rec_offset = st_next_offset st, rec_timestamp_ms = ts, rec_payload = payload\<rparr>]"
      using assms(4) by (cases rule: store_append_cases [of st now payload])
        (auto simp: append_ok_def append_busy_def append_closed_def)
    have "abs_of segs ?s' = spec_put ts payload a"
      using r(2) s(2,3) nxt by (simp add: abs_of_def spec_put_def)
    then have "serves st' (spec_put ts payload a)"
      using inv s(4) unfolding serves_def by (intro exI [of _ opts] exI [of _ segs] exI [of _ ?s']) simp
    then show ?thesis using True r(1) nxt by auto
  next
    case False
    then have "queue st' = queue st"
      using assms(4) by (cases rule: store_append_cases [of st now payload])
        (auto simp: append_ok_def append_busy_def append_closed_def)
    then have "abs_of segs ?s' = a" using s(2,3) by (simp add: abs_of_def)
    then have "serves st' a"
      using inv s(4) unfolding serves_def by (intro exI [of _ opts] exI [of _ segs] exI [of _ ?s']) simp
    then show ?thesis using False by simp
  qed
qed

lemma serves_fetch:
  assumes "serves st a"
  shows "\<exists>rs st'. store_fetch off n st = Inr (rs, st') \<and> serves st' a \<and> length rs \<le> unat n
     \<and> prefix rs (drop (unat off - sl_base a) (sl_log a)) \<and> (sealed_segments st' = []) = (sealed_segments st = [])
     \<and> (sealed_segments st = [] \<and> 0 < n \<and> sl_base a \<le> unat off \<and> unat off < sl_base a + length (sl_log a) \<longrightarrow> rs \<noteq> [])"
proof -
  obtain opts segs s where s: "sys_inv opts segs s" "sys_store s = st" "a = abs_of segs s" "max_batch_bytes opts < 2 ^ 60"
    using assms by (auto simp: serves_def)
  let ?k = "length (sealed_segments st)"
  obtain c where c: "store_fetch off n (sys_store s) =
      Inr (fetch_result (length (sealed_segments (sys_store s))) segs off n, (sys_store s)\<lparr>segment_cache := c\<rparr>)"
    "\<And>s'. sys_store s' = (sys_store s)\<lparr>segment_cache := c\<rparr> \<Longrightarrow> sys_pc s' = sys_pc s \<Longrightarrow>
       sys_inv opts segs s' \<and> abs_of segs s' = abs_of segs s"
    by (rule fetch_inv [OF s(1), of off n]) (rule that)
  let ?st' = "st\<lparr>segment_cache := c\<rparr>" and ?s' = "s\<lparr>sys_store := st\<lparr>segment_cache := c\<rparr>\<rparr>"
  have "sys_inv opts segs ?s' \<and> abs_of segs ?s' = a" using c(2) [of ?s'] s(2,3) by simp
  then have sv: "serves ?st' a" using s(4) unfolding serves_def by (intro exI [of _ opts] exI [of _ segs] exI [of _ ?s']) simp
  note ok = sys_invD(2) [OF s(1)]
  have segs: "segs \<noteq> []" "seg_chain (unat (fst (hd segs))) segs" using ok by (simp_all add: log_ok_def)
  obtain k where k: "k \<le> unat n"
    "fetch_result ?k segs off n = take k (drop (unat off - unat (fst (hd segs))) (all_records segs))"
    using fetch_result_slice [OF segs, of n ?k off] by metis
  have "fetch_result ?k segs off n \<noteq> []"
    if "sealed_segments st = []" "0 < n" "sl_base a \<le> unat off" "unat off < sl_base a + length (sl_log a)"
    using fetch_result_nonempty [OF ok that(2)] that s(2,3) by (simp add: abs_of_def)
  then show ?thesis using c(1) k sv s(2,3)
    by (intro exI [of _ "fetch_result ?k segs off n"] exI [of _ ?st']) (auto simp: abs_of_def take_is_prefix)
qed

interpretation store: partition_log serves store_append store_fetch "\<lambda>st. sealed_segments st = []"
  by unfold_locales (fact serves_offsets, fact serves_append, fact serves_fetch)

section \<open>An example\<close>

text \<open>A partition directory that holds one record.\<close>

definition first_record :: log_record where
  "first_record = \<lparr>rec_offset = 0, rec_timestamp_ms = 5, rec_payload = [10, 11]\<rparr>"

definition one_record_dir :: dir where
  "one_record_dir = [(log_name 0, encode_records [first_record]), (idx_name 0, encode_index [\<lparr>ie_offset = 0, ie_file_position = 0\<rparr>])]"

lemma one_record_holds: "dir_holds [(0, [first_record])] [] one_record_dir"
proof -
  have put: "file_put one_record_dir (log_name 0) (encode_records [first_record]) = one_record_dir"
    by (rule file_put_same) (simp add: one_record_dir_def)
  have "entry_ok [first_record] \<lparr>ie_offset = 0, ie_file_position = 0\<rparr>"
    unfolding entry_ok_def by (intro exI [of _ 0]) (simp add: first_record_def)
  then have "seg_files_ok one_record_dir [] (0, [first_record])"
    by (intro seg_files_okI [where es = "[\<lparr>ie_offset = 0, ie_file_position = 0\<rparr>]"])
      (simp_all add: one_record_dir_def first_record_def wf_record_def)
  moreover have "dir_ok [(0, [first_record])] one_record_dir"
    by (auto simp: dir_ok_def one_record_dir_def split: if_splits)
  ultimately show ?thesis using put by (simp add: dir_holds_def one_record_dir_def first_record_def)
qed

lemma one_record_store:
  obtains st :: "'cb store" where "PartitionStore one_record_dir default_options now = Inr st"
    "serves st \<lparr>sl_base = 0, sl_log = [first_record], sl_pending = []\<rparr>" "sealed_segments st = []"
    "st_committed_offset st = 1" "sw_next_offset (writer st) = 1" "once_callbacks st = []" "queue st = []"
proof (rule PartitionStore_ok [OF one_record_holds, of default_options now, where ?'cb = 'cb])
  fix st :: "'cb store"
  assume st: "PartitionStore one_record_dir default_options now = Inr st" "log_ok [(0, [first_record])] [] st" "queue st = []"
    "st_committed_offset st = sw_next_offset (writer st)" "once_callbacks st = []"
    "length [(0 :: u64, [first_record])] = Suc (length (sealed_segments st))"
  have inv: "sys_inv default_options [(0, [first_record])] (boot st)"
    using one_record_holds _ st(1) by (rule boot_dir_inv) (simp add: first_record_def)
  have "abs_of [(0, [first_record])] (boot st) = \<lparr>sl_base = 0, sl_log = [first_record], sl_pending = []\<rparr>"
    using st(3) by (simp add: abs_of_def boot_def)
  then have "serves st \<lparr>sl_base = 0, sl_log = [first_record], sl_pending = []\<rparr>"
    using inv unfolding serves_def
    by (intro exI [of _ default_options] exI [of _ "[(0, [first_record])]"] exI [of _ "boot st"])
      (simp add: boot_def default_options_def)
  with st show thesis by (intro that [of st]) (simp_all add: log_ok_def writer_ok_def)
qed

end
