(* ===== verification/Fell_Handler_Properties.thy ===== *)
theory Fell_Handler_Properties
  imports Fell_Request_Handler Fell_Partition_Interface
begin

text \<open>
  The request handlers against an abstract broker: a finite map from topic and partition to the abstract log of
  the partition. The theorems say that no request faults, that logs only grow, which reply and which
  change of the logs a publish gives, and what a fetch returns.
\<close>

section \<open>Definitions\<close>

type_synonym spec_broker = "string \<times> u16 \<rightharpoonup> spec_log"

text \<open>The registry implements the abstract broker; every slot of a topic's vector is filled.\<close>

definition registry_ok :: "'cb topic_registry \<Rightarrow> bool" where
  "registry_ok reg = ((\<forall>t ps. map_of (tr_topics reg) t = Some ps \<longrightarrow> length ps < 2 ^ 16 \<and> None \<notin> set ps)
     \<and> max_batch_bytes (tr_storage_options reg) < 2 ^ 60)"

definition broker_rel :: "'cb topic_registry \<Rightarrow> spec_broker \<Rightarrow> bool" where
  "broker_rel reg A = (registry_ok reg
     \<and> (\<forall>t p. case A (t, p) of
               None \<Rightarrow> get_partition t p reg = None
             | Some a \<Rightarrow> \<exists>st. get_partition t p reg = Some st \<and> serves st a))"

text \<open>Existing logs grow by appended and committed records; topics may be added.\<close>

definition grows :: "spec_broker \<Rightarrow> spec_broker \<Rightarrow> bool" where
  "grows A A' = (\<forall>k a. A k = Some a \<longrightarrow> (\<exists>a'. A' k = Some a' \<and> spec_step\<^sup>*\<^sup>* a a'))"

text \<open>Directories a new partition may find: empty, or left by an earlier run.\<close>

definition files_ok :: "env \<Rightarrow> bool" where
  "files_ok e = (\<forall>path. env_files e path = [] \<or>
     (\<exists>segs t. dir_holds segs t (env_files e path) \<and> length (encode_records (snd (last segs))) < 2 ^ 61))"

definition room :: "spec_broker \<Rightarrow> bool" where
  "room A = (\<forall>k a. A k = Some a \<longrightarrow> log_end a + 1 < 2 ^ 64)"

definition is_error :: "bytes \<Rightarrow> bool" where
  "is_error resp = (5 \<le> length resp \<and> resp ! 4 = ERR)"

text \<open>The partition a \<^verbatim>\<open>PUBLISH_V2\<close> request goes to; \<open>None\<close> when it is out of bounds.\<close>

definition route :: "u16 \<Rightarrow> u16 \<Rightarrow> publish_v2_req \<Rightarrow> u16 option" where
  "route parts rr req =
     (if pv_key req \<noteq> [] then Some (ucast (fnv1a (bytes_of (pv_key req)) mod ucast parts))
      else if pv_partition req = 0xFFFF then Some (rr mod parts)
      else if pv_partition req \<ge> parts then None else Some (pv_partition req))"

text \<open>What a publish to partition \<open>p\<close> of topic \<open>t\<close> does, by the state before it.\<close>

definition leads :: "'cb handler \<Rightarrow> string \<Rightarrow> u16 \<Rightarrow> bool" where
  "leads h t p = (case rh_meta h of None \<Rightarrow> True | Some reg \<Rightarrow> pm_role (fst (meta_get t p reg)) = Leader)"

definition defers :: "'cb handler \<Rightarrow> bool" where
  "defers h = ((case rh_cfg h of None \<Rightarrow> False | Some cfg \<Rightarrow> cfg_acks cfg = -1) \<and> rh_has_defer h)"

definition accepts :: "'cb store \<Rightarrow> bytes \<Rightarrow> bool" where
  "accepts st payload = (\<not> shutdown st \<and> length (queue st) < queue_capacity (options st)
     \<and> pending_bytes st + length payload \<le> max_pending_bytes (options st))"

definition publish_outcome ::
  "spec_broker \<Rightarrow> string \<Rightarrow> u16 \<Rightarrow> bytes \<Rightarrow> conn_state \<Rightarrow> 'cb handler \<Rightarrow> 'cb reply \<Rightarrow> bool" where
  "publish_outcome A t p payload conn h res =
     (case res of (resp, d, conn', h') \<Rightarrow> conn' = conn \<and>
       (\<exists>st a. get_partition t p (rh_registry h) = Some st \<and> A (t, p) = Some a \<and>
         (if \<not> leads h t p
          then resp = encode_error NOT_LEADER ''Not leader for partition'' \<and> d = None \<and> broker_rel (rh_registry h') A
          else if accepts st payload
          then (\<exists>ts. broker_rel (rh_registry h') (A((t, p) \<mapsto> spec_put ts payload a)))
               \<and> (if defers h
                  then resp = [] \<and> d = Some \<lparr>da_topic = t, da_partition = p, da_offset = of_nat (log_end a),
                         da_response = encode_ack (of_nat (log_end a)), da_fd = cn_fd conn\<rparr>
                  else resp = encode_ack (of_nat (log_end a)) \<and> d = None)
          else d = None \<and> broker_rel (rh_registry h') A
               \<and> resp = (if shutdown st then encode_error INTERNAL_ERROR ''Partition is closed''
                         else encode_error BUSY ''Partition append queue is full''))))"

section \<open>The registry and the abstract broker\<close>

lemma broker_relD:
  assumes "broker_rel reg A"
  shows "A (t, p) = Some a \<Longrightarrow> \<exists>st. get_partition t p reg = Some st \<and> serves st a"
    "A (t, p) = None \<Longrightarrow> get_partition t p reg = None"
    "get_partition t p reg = Some st \<Longrightarrow> \<exists>a. A (t, p) = Some a \<and> serves st a"
proof -
  have "case A (t, p) of None \<Rightarrow> get_partition t p reg = None
      | Some a \<Rightarrow> \<exists>st. get_partition t p reg = Some st \<and> serves st a"
    using assms by (simp add: broker_rel_def)
  then show "A (t, p) = Some a \<Longrightarrow> \<exists>st. get_partition t p reg = Some st \<and> serves st a"
    "A (t, p) = None \<Longrightarrow> get_partition t p reg = None"
    "get_partition t p reg = Some st \<Longrightarrow> \<exists>a. A (t, p) = Some a \<and> serves st a"
    by (auto split: option.splits)
qed

lemma in_range:
  assumes "broker_rel reg A" "p < num_partitions t reg"
  obtains a st where "A (t, p) = Some a" "get_partition t p reg = Some st" "serves st a"
proof -
  obtain ps where ps: "map_of (tr_topics reg) t = Some ps"
    using assms(2) by (cases "map_of (tr_topics reg) t") (simp_all add: num_partitions_def)
  have ok: "length ps < 2 ^ 16" "None \<notin> set ps" using assms(1) ps by (auto simp: broker_rel_def registry_ok_def)
  have "unat p < length ps" using assms(2) ps ok(1) by (simp add: num_partitions_def word_less_nat_alt)
  then obtain st where "get_partition t p reg = Some st"
    using ps ok(2) by (auto simp: get_partition_def) (metis nth_mem option.exhaust)
  with broker_relD(3) [OF assms(1) this] that show thesis by blast
qed

lemma registry_ok_set: "registry_ok reg \<Longrightarrow> registry_ok (set_partition t p st reg)"
  by (auto simp: registry_ok_def set_partition_def split: option.splits dest!: set_update_subset_insert [THEN subsetD])

lemma broker_rel_set:
  assumes rel: "broker_rel reg A" and a: "A (t, p) = Some a" and st: "serves st a'"
  shows "broker_rel (set_partition t p st reg) (A((t, p) \<mapsto> a'))"
proof -
  obtain st0 where st0: "get_partition t p reg = Some st0" using broker_relD(1) [OF rel a] by blast
  have "registry_ok (set_partition t p st reg)" using rel by (simp add: broker_rel_def registry_ok_set)
  moreover have "case (A((t, p) \<mapsto> a')) (u, q) of
      None \<Rightarrow> get_partition u q (set_partition t p st reg) = None
    | Some a \<Rightarrow> \<exists>st'. get_partition u q (set_partition t p st reg) = Some st' \<and> serves st' a" for u q
    using rel st unfolding get_set_partition [OF st0] by (auto simp: broker_rel_def split: option.splits)
  ultimately show ?thesis by (simp add: broker_rel_def)
qed

lemma grows_refl [simp]: "grows A A"
  by (auto simp: grows_def)

lemma grows_put:
  assumes "A k = Some a"
  shows "grows A (A(k \<mapsto> spec_put ts payload a))"
proof -
  have "spec_step a (spec_put ts payload a)"
    unfolding spec_put_def by (rule spec_append) (simp add: log_end_def)
  then show ?thesis using assms by (auto simp: grows_def)
qed

section \<open>Publishing\<close>

lemma check_leader_eq:
  obtains h' where "check_leader t p h = (leads h t p, h')" "rh_registry h' = rh_registry h" "rh_cfg h' = rh_cfg h"
    "rh_has_defer h' = rh_has_defer h"
proof (cases "rh_meta h")
  case None
  then show ?thesis using that [of h] by (simp add: check_leader_def meta_of_def leads_def)
next
  case (Some reg)
  then show ?thesis using that [of "h\<lparr>rh_meta := Some (snd (meta_get t p reg))\<rparr>"]
    by (simp add: check_leader_def meta_of_def leads_def split: prod.split)
qed

lemma store_append_accepted: "ar_accepted (fst (store_append now payload st)) = accepts st payload"
  by (cases rule: store_append_cases [of st now payload])
    (auto simp: accepts_def append_ok_def append_busy_def append_closed_def)

lemma store_append_refused:
  "\<not> accepts st payload \<Longrightarrow> (ar_error (fst (store_append now payload st)) = Closed) = shutdown st"
  by (cases rule: store_append_cases [of st now payload])
    (auto simp: accepts_def append_ok_def append_busy_def append_closed_def)

lemma publish_to_ok:
  assumes rel: "broker_rel (rh_registry h) A" and p: "p < num_partitions t (rh_registry h)"
    and len: "length payload < 2 ^ 32" and room: "room A"
  shows "\<exists>res. publish_to e t p payload conn h = Inr res \<and> publish_outcome A t p payload conn h res"
proof -
  obtain a st where a: "A (t, p) = Some a" and st: "get_partition t p (rh_registry h) = Some st" and sv: "serves st a"
    using in_range [OF rel p] .
  obtain h1 where h1: "check_leader t p h = (leads h t p, h1)" "rh_registry h1 = rh_registry h" "rh_cfg h1 = rh_cfg h"
    "rh_has_defer h1 = rh_has_defer h" using check_leader_eq .
  obtain r st' where ap: "store_append (env_now e) payload st = (r, st')" by fastforce
  have acc: "ar_accepted r = accepts st payload" using store_append_accepted [of "env_now e" payload st] ap by simp
  have "log_end a + 1 < 2 ^ 64" using room a by (simp add: room_def)
  note law = store.app_law [OF sv len this ap]
  show ?thesis
  proof (cases "leads h t p")
    case False
    then show ?thesis using h1 st a rel by (simp add: publish_to_def fail_def reply_def publish_outcome_def)
  next
    case True
    note run = publish_to_def h1 True st ap Let_def fail_def reply_def
    show ?thesis
    proof (cases "accepts st payload")
      case acc_True: True
      then obtain ts where "ar_offset r = of_nat (log_end a)" "serves st' (spec_put ts payload a)" using law acc by auto
      moreover from this(2) have "broker_rel (set_partition t p st' (rh_registry h)) (A((t, p) \<mapsto> spec_put ts payload a))"
        by (rule broker_rel_set [OF rel a])
      ultimately show ?thesis using acc acc_True True st a h1
        by (cases "defers h") (auto simp: run publish_outcome_def defers_def)
    next
      case False
      then have "serves st' a" using law acc by simp
      then have "broker_rel (set_partition t p st' (rh_registry h)) (A((t, p) \<mapsto> a))" by (rule broker_rel_set [OF rel a])
      moreover have "A((t, p) \<mapsto> a) = A" using a by auto
      moreover have "(ar_error r = Closed) = shutdown st" using store_append_refused [OF False, of "env_now e"] ap by simp
      ultimately show ?thesis using acc False True st a h1 by (simp add: run publish_outcome_def)
    qed
  qed
qed

lemma publish_outcome_cong:
  assumes "rh_registry h' = rh_registry h" "rh_cfg h' = rh_cfg h" "rh_meta h' = rh_meta h" "rh_has_defer h' = rh_has_defer h"
  shows "publish_outcome A t p payload conn h' = publish_outcome A t p payload conn h"
  using assms by (intro ext) (simp add: publish_outcome_def leads_def defers_def)

lemma mod_in_range:
  assumes "(parts :: u16) \<noteq> 0"
  shows "rr mod parts < parts" "(ucast ((x :: u64) mod ucast parts) :: u16) < parts"
proof -
  have pos: "0 < unat parts" using assms by (simp add: unat_gt_0)
  show "rr mod parts < parts" using pos by (simp add: word_less_nat_alt unat_mod)
  have "unat (x mod ucast parts) < unat parts" using pos by (simp add: unat_mod)
  then show "(ucast (x mod ucast parts) :: u16) < parts"
    using unat_lt_u16 [of parts] by (simp add: word_less_nat_alt unsigned_ucast_eq take_bit_nat_eq_self)
qed

lemma route_in_range: "parts \<noteq> 0 \<Longrightarrow> route parts rr req = Some p \<Longrightarrow> p < parts"
  using mod_in_range [of parts] by (auto simp: route_def split: if_splits)

text \<open>The connection after a publish: the round-robin counter moves when it was used.\<close>

definition after_route :: "publish_v2_req \<Rightarrow> conn_state \<Rightarrow> conn_state" where
  "after_route req conn =
     (if pv_key req = [] \<and> pv_partition req = 0xFFFF then conn\<lparr>cn_rr_counter := cn_rr_counter conn + 1\<rparr> else conn)"

lemma handle_publish_v2_ok:
  assumes rel: "broker_rel (rh_registry h) A" and room: "room A"
    and f: "frame_payload f = encode_publish_v2_req req @ body"
    and valid: "length (pv_topic req) \<le> 255 \<and> length (pv_key req) \<le> 255" and t: "pv_topic req \<noteq> []"
    and body: "pv_payload_size req = of_nat (length body)" "length body < 2 ^ 32"
    and n: "num_partitions (pv_topic req) (rh_registry h) \<noteq> 0"
    and p: "route (num_partitions (pv_topic req) (rh_registry h)) (cn_rr_counter conn) req = Some p"
  shows "\<exists>res. handle_publish_v2 e f conn h = Inr res \<and> publish_outcome A (pv_topic req) p body (after_route req conn) h res"
proof -
  let ?h = "h\<lparr>rh_publish_requests_total := rh_publish_requests_total h + 1\<rparr>"
  have lt: "p < num_partitions (pv_topic req) (rh_registry ?h)" using route_in_range [OF n p] by simp
  have rel': "broker_rel (rh_registry ?h) A" using rel by simp
  obtain res where res: "publish_to e (pv_topic req) p body (after_route req conn) ?h = Inr res"
    "publish_outcome A (pv_topic req) p body (after_route req conn) ?h res"
    using publish_to_ok [OF rel' lt body(2) room] by blast
  have "unat (pv_payload_size req) = length body" using body by (simp only: unat_of_nat_u32)
  moreover have "length (frame_payload f) = 518 + length body" using publish_v2.width_enc [OF valid] f by simp
  moreover have "decode_publish_v2_req (frame_payload f) = req" using publish_v2.read_enc [OF valid] f by simp
  moreover have "drop 518 (frame_payload f) = body" using publish_v2.body [OF valid] f by simp
  ultimately have "handle_publish_v2 e f conn h = publish_to e (pv_topic req) p body (after_route req conn) ?h"
    using n p t by (auto simp: handle_publish_v2_def sizeof_defs Let_def route_def after_route_def split: if_splits)
  then show ?thesis using res publish_outcome_cong [of ?h h] by simp
qed

section \<open>Fetching\<close>

lemma handle_fetch_ok:
  assumes rel: "broker_rel (rh_registry h) A" and d: "decode_fetch_req (frame_payload f) = req" "268 \<le> length (frame_payload f)"
    and t: "fr_topic req \<noteq> []"
    and p: "fr_partition req < num_partitions (fr_topic req) (rh_registry h)" and l: "leads h (fr_topic req) (fr_partition req)"
  obtains a st rs conn' h' where "A (fr_topic req, fr_partition req) = Some a"
    "get_partition (fr_topic req) (fr_partition req) (rh_registry h) = Some st" "serves st a"
    "handle_fetch f conn h = Inr (if rs = [] then encode_ack 0 else encode_frames (map message_frame rs), None, conn', h')"
    "conn' = (if rs = [] then conn else conn\<lparr>cn_fetch_offset := rec_offset (last rs) + 1\<rparr>)"
    "broker_rel (rh_registry h') A" "\<exists>st'. store_fetch (fr_offset req) (fr_max_messages req) st = Inr (rs, st')"
proof -
  obtain a st where a: "A (fr_topic req, fr_partition req) = Some a" and st: "get_partition (fr_topic req) (fr_partition req) (rh_registry h) = Some st"
    and sv: "serves st a" using in_range [OF rel p] .
  obtain h1 where h1: "check_leader (fr_topic req) (fr_partition req) h = (leads h (fr_topic req) (fr_partition req), h1)"
    "rh_registry h1 = rh_registry h" using check_leader_eq by metis
  obtain rs st' where fe: "store_fetch (fr_offset req) (fr_max_messages req) st = Inr (rs, st')" "serves st' a"
    using store.fet_law [OF sv] by blast
  let ?h' = "h1\<lparr>rh_registry := set_partition (fr_topic req) (fr_partition req) st' (rh_registry h)\<rparr>"
  have "broker_rel (rh_registry ?h') (A((fr_topic req, fr_partition req) \<mapsto> a))" using broker_rel_set [OF rel a fe(2)] by simp
  moreover have "A((fr_topic req, fr_partition req) \<mapsto> a) = A" using a by auto
  ultimately have rel': "broker_rel (rh_registry ?h') A" by simp
  have n: "num_partitions (fr_topic req) (rh_registry h) \<noteq> 0" "\<not> num_partitions (fr_topic req) (rh_registry h) \<le> fr_partition req"
    using p by (auto simp: not_le)
  have "handle_fetch f conn h = Inr (if rs = [] then encode_ack 0 else encode_frames (map message_frame rs), None,
      if rs = [] then conn else conn\<lparr>cn_fetch_offset := rec_offset (last rs) + 1\<rparr>, ?h')"
    using t n p l h1 st fe(1) d by (simp add: handle_fetch_def sizeof_defs Let_def reply_def)
  then show thesis using that [OF a st sv _ refl rel'] fe(1) by blast
qed

section \<open>Every request\<close>

text \<open>What every reply must keep.\<close>

definition same_subscription :: "conn_state \<Rightarrow> conn_state \<Rightarrow> bool" where
  "same_subscription c c' = (cn_sub_topic c' = cn_sub_topic c \<and> cn_sub_partition c' = cn_sub_partition c
     \<and> cn_fetch_offset c' = cn_fetch_offset c \<and> cn_subscribed c' = cn_subscribed c)"

text \<open>What the client gets for a request with operation \<open>op\<close>: one error frame; one acknowledgement; the metadata, if it
  asked for them; one or more record frames, if it fetched; or, for a publish, nothing now and an acknowledgement of the
  record's offset later on the same connection.\<close>

definition reply_shape :: "op_code \<Rightarrow> conn_state \<Rightarrow> bytes \<Rightarrow> deferred_ack option \<Rightarrow> bool" where
  "reply_shape op conn resp d =
     (case d of
        None \<Rightarrow>
          (\<exists>c m. resp = encode_error c m)
          \<or> op \<noteq> METADATA_REQ \<and> (\<exists>v. resp = encode_ack v)
          \<or> op = METADATA_REQ \<and> (\<exists>b. resp = encode_frame \<lparr>frame_op = METADATA_RESP, frame_payload = b\<rparr>)
          \<or> op = FETCH \<and> (\<exists>rs. rs \<noteq> [] \<and> resp = encode_frames (map message_frame rs))
      | Some da \<Rightarrow> (op = PUBLISH \<or> op = PUBLISH_V2) \<and> resp = []
          \<and> da_response da = encode_ack (da_offset da) \<and> da_fd da = cn_fd conn)"

definition reply_ok :: "op_code \<Rightarrow> spec_broker \<Rightarrow> conn_state \<Rightarrow> 'cb reply \<Rightarrow> bool" where
  "reply_ok op A conn res = (case res of (resp, d, conn', h') \<Rightarrow>
     reply_shape op conn resp d
     \<and> (\<exists>A'. broker_rel (rh_registry h') A' \<and> grows A A'
       \<and> (is_error resp \<longrightarrow> A' = A \<and> d = None \<and> same_subscription conn conn')))"

lemma reply_shape_simps [simp]:
  "reply_shape op conn (encode_error c m) None" "op \<noteq> METADATA_REQ \<Longrightarrow> reply_shape op conn (encode_ack v) None"
  "reply_shape METADATA_REQ conn (encode_frame \<lparr>frame_op = METADATA_RESP, frame_payload = b\<rparr>) None"
  "rs \<noteq> [] \<Longrightarrow> reply_shape FETCH conn (encode_frames (map message_frame rs)) None"
  by (auto simp: reply_shape_def)

lemma same_subscription_refl [simp]: "same_subscription c c"
  "same_subscription c (c\<lparr>cn_rr_counter := n\<rparr>)"
  by (simp_all add: same_subscription_def)

lemma is_error_frames [simp]:
  "\<not> is_error (encode_ack v)" "is_error (encode_error c m)" "\<not> is_error []"
  "\<not> is_error (encode_frame \<lparr>frame_op = METADATA_RESP, frame_payload = b\<rparr>)"
  "ms \<noteq> [] \<Longrightarrow> \<not> is_error (encode_frames (map message_frame ms))"
proof -
  have op: "encode_frame fr @ r = w0 # w1 # w2 # w3 # frame_op fr # r'" if "write_be32 (of_nat (1 + length (frame_payload fr))) = [w0, w1, w2, w3]"
      "r' = frame_payload fr @ r" for fr r w0 w1 w2 w3 r' using that by (simp add: encode_frame_def)
  have op4: "5 \<le> length (encode_frame fr @ r) \<and> (encode_frame fr @ r) ! 4 = frame_op fr" for fr r
    using length_eq_4 [of "write_be32 (of_nat (1 + length (frame_payload fr)))"] op [of fr] by (auto simp: nth_append encode_frame_def)
  show "\<not> is_error (encode_ack v)" "is_error (encode_error c m)" "\<not> is_error []"
    "\<not> is_error (encode_frame \<lparr>frame_op = METADATA_RESP, frame_payload = b\<rparr>)"
    using op4 [of _ "[]"] by (simp_all add: is_error_def encode_ack_def encode_error_def op_code_defs)
  show "\<not> is_error (encode_frames (map message_frame ms))" if "ms \<noteq> []"
    using that op4 by (cases ms) (simp_all add: is_error_def encode_frames_def message_frame_def op_code_defs)
qed

lemma fail_ok:
  assumes "broker_rel (rh_registry h) A" "same_subscription conn conn'"
  shows "\<exists>res. fail c m conn' h = Inr res \<and> reply_ok op A conn res"
  using assms by (auto simp: fail_def reply_def reply_ok_def)

lemma publish_outcomeE:
  assumes "publish_outcome A t p payload conn h (resp, d, conn', h')"
  obtains c m where "conn' = conn" "broker_rel (rh_registry h') A" "d = None" "resp = encode_error c m"
  | a ts where "conn' = conn" "A (t, p) = Some a" "broker_rel (rh_registry h') (A((t, p) \<mapsto> spec_put ts payload a))"
      "\<not> is_error resp" "\<And>op. op = PUBLISH \<or> op = PUBLISH_V2 \<Longrightarrow> reply_shape op conn resp d"
proof -
  from assms obtain st a where "get_partition t p (rh_registry h) = Some st" and o: "conn' = conn" "A (t, p) = Some a"
    "if \<not> leads h t p
     then resp = encode_error NOT_LEADER ''Not leader for partition'' \<and> d = None \<and> broker_rel (rh_registry h') A
     else if accepts st payload
     then (\<exists>ts. broker_rel (rh_registry h') (A((t, p) \<mapsto> spec_put ts payload a)))
          \<and> (if defers h
             then resp = [] \<and> d = Some \<lparr>da_topic = t, da_partition = p, da_offset = of_nat (log_end a),
                    da_response = encode_ack (of_nat (log_end a)), da_fd = cn_fd conn\<rparr>
             else resp = encode_ack (of_nat (log_end a)) \<and> d = None)
     else d = None \<and> broker_rel (rh_registry h') A
          \<and> resp = (if shutdown st then encode_error INTERNAL_ERROR ''Partition is closed''
                    else encode_error BUSY ''Partition append queue is full'')"
    unfolding publish_outcome_def split by blast
  show ?thesis
  proof (cases "leads h t p \<and> accepts st payload")
    case True
    then obtain ts where ts: "broker_rel (rh_registry h') (A((t, p) \<mapsto> spec_put ts payload a))" using o(3) by auto
    have "reply_shape op conn resp d" if "op = PUBLISH \<or> op = PUBLISH_V2" for op
      using True o(3) that by (cases "defers h") (auto simp: reply_shape_def op_code_defs)
    moreover have "\<not> is_error resp" using True o(3) by (cases "defers h") simp_all
    ultimately show ?thesis using that(2) [OF o(1,2) ts] by blast
  next
    case False
    then obtain c m where "resp = encode_error c m" "d = None" "broker_rel (rh_registry h') A"
      using o(3) by (cases "leads h t p"; cases "shutdown st") auto
    then show ?thesis using that(1) o(1) by blast
  qed
qed

lemma publish_to_reply_ok:
  assumes "broker_rel (rh_registry h) A" "p < num_partitions t (rh_registry h)" "length payload < 2 ^ 32" "room A"
    "same_subscription conn conn'" "cn_fd conn' = cn_fd conn" "op = PUBLISH \<or> op = PUBLISH_V2"
  shows "\<exists>res. publish_to e t p payload conn' h = Inr res \<and> reply_ok op A conn res"
proof -
  obtain resp d c h' where res: "publish_to e t p payload conn' h = Inr (resp, d, c, h')"
    "publish_outcome A t p payload conn' h (resp, d, c, h')"
    using publish_to_ok [OF assms(1-4)] by (metis prod_cases4)
  have shape: "reply_shape op conn' resp d \<Longrightarrow> reply_shape op conn resp d" using assms(6) by (cases d) (simp_all add: reply_shape_def)
  from res(2) have "reply_ok op A conn (resp, d, c, h')"
  proof (cases rule: publish_outcomeE)
    case (1 c' m)
    then show ?thesis using assms(5) by (auto simp: reply_ok_def)
  next
    case (2 a ts)
    then show ?thesis using grows_put [of A "(t, p)" a ts payload] shape [OF 2(5) [OF assms(7)]] by (auto simp: reply_ok_def)
  qed
  then show ?thesis using res(1) by blast
qed

lemma PartitionStore_serves:
  assumes "d = [] \<or> (\<exists>segs t. dir_holds segs t d \<and> length (encode_records (snd (last segs))) < 2 ^ 61)"
    "max_batch_bytes opts < 2 ^ 60"
  shows "\<exists>st a. PartitionStore d opts now = Inr (st :: 'cb store) \<and> serves st a"
proof -
  have "\<exists>(st :: 'cb store) segs. PartitionStore d opts now = Inr st \<and> sys_inv opts segs (boot st)"
    using assms(1)
  proof
    assume "d = []"
    then show ?thesis using PartitionStore_empty_eq boot_empty_inv by blast
  next
    assume "\<exists>segs t. dir_holds segs t d \<and> length (encode_records (snd (last segs))) < 2 ^ 61"
    then obtain segs t where d: "dir_holds segs t d" "length (encode_records (snd (last segs))) < 2 ^ 61" by blast
    obtain st :: "'cb store" where "PartitionStore d opts now = Inr st" using PartitionStore_ok [OF d(1), of opts now] by metis
    then show ?thesis using boot_dir_inv [OF d] by blast
  qed
  then obtain st :: "'cb store" and segs where "PartitionStore d opts now = Inr st" "sys_inv opts segs (boot st)" by blast
  moreover have "sys_store (boot st) = st" by (simp add: boot_def)
  ultimately show ?thesis using assms(2) unfolding serves_def by blast
qed

lemma create_partitions_ok:
  assumes "\<And>path. files path = [] \<or> (\<exists>segs t. dir_holds segs t (files path) \<and> length (encode_records (snd (last segs))) < 2 ^ 61)"
    "max_batch_bytes opts < 2 ^ 60"
  shows "\<exists>(sts :: 'cb store list) as. create_partitions files now dir opts i k = Inr (map Some sts) \<and> length sts = k \<and> list_all2 serves sts as"
proof (induction k arbitrary: i)
  case (Suc k)
  let ?path = "path_join dir (partition_dirname i)"
  obtain st :: "'cb store" and a where st: "PartitionStore (files ?path) opts now = Inr st" "serves st a"
    using PartitionStore_serves [OF assms(1) [of ?path] assms(2), of now] by blast
  obtain sts :: "'cb store list" and as where "create_partitions files now dir opts (Suc i) k = Inr (map Some sts)" "length sts = k" "list_all2 serves sts as"
    using Suc.IH [of "Suc i"] by blast
  then show ?case using st by (intro exI [of _ "st # sts"] exI [of _ "a # as"]) simp
qed (auto intro: exI [of _ "[]"])

lemma create_topic_ok:
  assumes rel: "broker_rel (reg :: 'cb topic_registry) A" and files: "\<And>path. files path = [] \<or> (\<exists>segs t. dir_holds segs t (files path) \<and> length (encode_records (snd (last segs))) < 2 ^ 61)"
  shows "\<exists>b reg' A'. create_topic files now name n reg = Inr (b, reg') \<and> broker_rel reg' A' \<and> grows A A' \<and> (\<not> b \<longrightarrow> A' = A)"
proof (cases "map_of (tr_topics reg) name")
  case (Some ps)
  then have "create_topic files now name n reg = Inr (False, reg)" by (simp add: create_topic_def)
  then show ?thesis using rel grows_refl by blast
next
  case None
  have opts: "max_batch_bytes (tr_storage_options reg) < 2 ^ 60" using rel by (simp add: broker_rel_def registry_ok_def)
  obtain sts :: "'cb store list" and as where sts: "create_partitions files now (path_join (tr_data_root reg) name) (tr_storage_options reg) 0 (unat n) = Inr (map Some sts)"
    "length sts = unat n" "list_all2 serves sts as"
    using create_partitions_ok [of files, OF files opts, of now "path_join (tr_data_root reg) name" 0 "unat n"] by (elim exE conjE)
  let ?reg = "reg\<lparr>tr_topics := topics_put (tr_topics reg) name (map Some sts)\<rparr>"
  let ?A = "\<lambda>(t, p). if t = name then (if unat p < length as then Some (as ! unat p) else None) else A (t, p)"
  have none: "A (name, p) = None" for p
    using broker_relD(1) [OF rel, of name p] None by (cases "A (name, p)") (auto simp: get_partition_def)
  have len: "length as = length sts" using list_all2_lengthD [OF sts(3)] by simp
  have "registry_ok ?reg" using rel sts(2) unat_lt_u16 [of n] by (auto simp: broker_rel_def registry_ok_def)
  moreover have "case ?A (t, p) of None \<Rightarrow> get_partition t p ?reg = None
      | Some a \<Rightarrow> \<exists>st. get_partition t p ?reg = Some st \<and> serves st a" for t p
  proof (cases "t = name")
    case True
    then show ?thesis using len list_all2_nthD [OF sts(3)] by (simp add: get_partition_def)
  next
    case False
    then have "get_partition t p ?reg = get_partition t p reg" by (simp add: get_partition_def)
    then show ?thesis using False broker_relD(1,2) [OF rel, of t p] by (auto split: option.split)
  qed
  ultimately have "broker_rel ?reg ?A" unfolding broker_rel_def by blast
  moreover have "grows A ?A" using none by (auto simp: grows_def)
  moreover have "create_topic files now name n reg = Inr (True, ?reg)" using None sts(1) by (simp add: create_topic_def)
  ultimately show ?thesis by blast
qed

lemma handle_create_topic_reply_ok:
  assumes rel: "broker_rel (rh_registry h) A" and files: "files_ok e"
  shows "\<exists>res. handle_create_topic e f conn h = Inr res \<and> reply_ok CREATE_TOPIC A conn res"
proof -
  let ?req = "decode_create_topic_req (frame_payload f)"
  obtain b reg' A' where c: "create_topic (env_files e) (env_now e) (ct_name ?req) (ct_num_partitions ?req) (rh_registry h) = Inr (b, reg')"
    "broker_rel reg' A'" "grows A A'" "\<not> b \<longrightarrow> A' = A"
    using create_topic_ok [OF rel, of "env_files e" "env_now e" "ct_name ?req" "ct_num_partitions ?req"] files
    by (auto simp: files_ok_def)
  have ok: "reply_ok CREATE_TOPIC A conn (encode_ack 0, None, conn, h')" if "rh_registry h' = reg'" for h'
    using c(2,3) that by (auto simp: reply_ok_def op_code_defs)
  have "\<exists>res. fail MALFORMED_REQUEST ''Topic already exists'' conn (h\<lparr>rh_registry := reg'\<rparr>) = Inr res \<and> reply_ok CREATE_TOPIC A conn res"
    if "\<not> b" using that c(2,4) by (intro fail_ok) simp_all
  then show ?thesis using fail_ok [OF rel, of conn conn] c(1) ok
    by (cases b) (simp_all add: handle_create_topic_def Let_def reply_def split: option.split)
qed

lemma handle_metadata_reply_ok:
  assumes "broker_rel (rh_registry h) A"
  shows "\<exists>res. handle_metadata_req f conn h = Inr res \<and> reply_ok METADATA_REQ A conn res"
proof -
  have ids: "rh_registry (snd (leader_ids t i k h')) = rh_registry h'" for t i k and h' :: "'a handler"
  proof (induction k arbitrary: i h')
    case (Suc k)
    have "rh_registry (snd (meta_of t (of_nat i) h')) = rh_registry h'"
      by (auto simp: meta_of_def split: option.split prod.split)
    then show ?case using Suc.IH by (auto split: prod.split) (metis snd_conv)
  qed simp
  have ok: "reply_ok METADATA_REQ A conn (encode_frame \<lparr>frame_op = METADATA_RESP, frame_payload = b\<rparr>, None, conn, h')"
    if "rh_registry h' = rh_registry h" for b h'
    using assms that grows_refl [of A] unfolding reply_ok_def by (auto intro!: exI [of _ A])
  show ?thesis using fail_ok [OF assms, of conn conn] ok ids
    by (simp add: handle_metadata_req_def Let_def reply_def split: option.split prod.split) (metis snd_conv)
qed

lemma handle_publish_reply_ok:
  assumes rel: "broker_rel (rh_registry h) A" and room: "room A"
  shows "\<exists>res. handle_publish e f conn h = Inr res \<and> reply_ok PUBLISH A conn res"
    "\<exists>res. handle_publish_v2 e f conn h = Inr res \<and> reply_ok PUBLISH_V2 A conn res"
proof -
  let ?h = "h\<lparr>rh_publish_requests_total := rh_publish_requests_total h + 1\<rparr>"
  have rel': "broker_rel (rh_registry ?h) A" using rel by simp
  note fail = fail_ok [OF rel', of conn conn, simplified]
  have pub: "\<exists>res. publish_to e t p (drop n (frame_payload f)) conn' ?h = Inr res \<and> reply_ok op A conn res"
    if "p < num_partitions t (rh_registry h)" "length (frame_payload f) = n + unat (x :: u32)" "same_subscription conn conn'"
      "cn_fd conn' = cn_fd conn" "op = PUBLISH \<or> op = PUBLISH_V2" for t p n x conn' op
    using publish_to_reply_ok [OF rel', of p t "drop n (frame_payload f)" conn conn' op e] that room unat_lt_u32 [of x] by simp
  let ?r = "decode_publish_req (frame_payload f)"
  show "\<exists>res. handle_publish e f conn h = Inr res \<and> reply_ok PUBLISH A conn res"
    using fail pub [of _ "pr_topic ?r" 262 "pr_payload_size ?r"] mod_in_range(1) [of "num_partitions (pr_topic ?r) (rh_registry h)"]
    by (simp add: handle_publish_def sizeof_defs Let_def not_le)
  let ?r2 = "decode_publish_v2_req (frame_payload f)"
  show "\<exists>res. handle_publish_v2 e f conn h = Inr res \<and> reply_ok PUBLISH_V2 A conn res"
    using fail pub [of _ "pv_topic ?r2" 518 "pv_payload_size ?r2"] mod_in_range [of "num_partitions (pv_topic ?r2) (rh_registry h)"]
    by (simp add: handle_publish_v2_def sizeof_defs Let_def not_le)
qed

lemma handle_fetch_reply_ok:
  assumes rel: "broker_rel (rh_registry h) A"
  shows "\<exists>res. handle_fetch f conn h = Inr res \<and> reply_ok FETCH A conn res"
proof -
  let ?req = "decode_fetch_req (frame_payload f)"
  let ?t = "fr_topic ?req" and ?p = "fr_partition ?req"
  note fail = fail_ok [OF rel, of conn conn, simplified]
  obtain h1 where h1: "check_leader ?t ?p h = (leads h ?t ?p, h1)" "rh_registry h1 = rh_registry h"
    using check_leader_eq by metis
  show ?thesis
  proof (cases "268 \<le> length (frame_payload f) \<and> ?t \<noteq> [] \<and> ?p < num_partitions ?t (rh_registry h) \<and> leads h ?t ?p")
    case True
    then obtain a st rs conn' h' where r:
      "handle_fetch f conn h = Inr (if rs = [] then encode_ack 0 else encode_frames (map message_frame rs), None, conn', h')"
      "broker_rel (rh_registry h') A"
      using handle_fetch_ok [OF rel refl, of f conn] by metis
    moreover have "\<not> is_error (if rs = [] then encode_ack 0 else encode_frames (map message_frame rs))" by simp
    moreover have "FETCH \<noteq> METADATA_REQ" by (simp add: op_code_defs)
    then have "reply_shape FETCH conn (if rs = [] then encode_ack 0 else encode_frames (map message_frame rs)) None" by simp
    ultimately show ?thesis using grows_refl [of A] by (auto simp: reply_ok_def simp del: is_error_frames)
  next
    case False
    have "broker_rel (rh_registry h1) A" using rel h1 by simp
    from fail_ok [OF this, of conn conn, simplified] show ?thesis using False fail h1(1)
      by (auto simp: handle_fetch_def sizeof_defs Let_def not_le)
  qed
qed

lemma handle_subscribe_reply_ok:
  assumes rel: "broker_rel (rh_registry h) A"
  shows "\<exists>res. handle_subscribe f conn h = Inr res \<and> reply_ok SUBSCRIBE A conn res"
proof -
  let ?req = "decode_subscribe_req (frame_payload f)"
  note fail = fail_ok [OF rel, of conn conn, simplified]
  obtain h1 where h1: "check_leader (sb_topic ?req) (sb_partition ?req) h = (leads h (sb_topic ?req) (sb_partition ?req), h1)"
    "rh_registry h1 = rh_registry h" using check_leader_eq by metis
  have rel1: "broker_rel (rh_registry h1) A" using rel h1 by simp
  have ack: "reply_ok SUBSCRIBE A conn (encode_ack v, None, conn', h1)" for v conn'
    using rel1 grows_refl [of A] by (auto simp: reply_ok_def op_code_defs)
  show ?thesis using fail fail_ok [OF rel1, of conn conn, simplified] ack h1(1)
    by (auto simp: handle_subscribe_def sizeof_defs Let_def reply_def split: bool.split option.split)
qed

section \<open>An example\<close>

text \<open>A broker without a cluster, with one empty partition.\<close>

definition example_with :: "unit store \<Rightarrow> unit handler" where
  "example_with st =
     \<lparr>rh_registry = \<lparr>tr_topics = [(''t'', [Some st])], tr_data_root = ''data'', tr_storage_options = default_options\<rparr>,
      rh_cfg = None, rh_meta = None, rh_has_defer = False, rh_publish_requests_total = 0, rh_publish_busy_total = 0,
      rh_bytes_published_total = 0\<rparr>"

definition example_handler :: "unit handler" where
  "example_handler = example_with (empty_store default_options 0)"

definition example_spec :: spec_broker where
  "example_spec = [(''t'', 0) \<mapsto> \<lparr>sl_base = 0, sl_log = [], sl_pending = []\<rparr>]"

definition example_env :: env where
  "example_env = \<lparr>env_now = 5, env_files = (\<lambda>_. [])\<rparr>"

lemma example_with_ok: "serves st a \<Longrightarrow> broker_rel (rh_registry (example_with st)) [(''t'', 0) \<mapsto> a]"
proof -
  assume sv: "serves st a"
  have z: "Suc 0 \<le> unat p \<longleftrightarrow> p \<noteq> 0" for p :: u16 by (simp add: Suc_le_eq unat_gt_0)
  show ?thesis
    using sv by (auto simp: broker_rel_def registry_ok_def example_with_def get_partition_def default_options_def z
        split: option.split)
qed

lemma example_ok: "broker_rel (rh_registry example_handler) example_spec" "room example_spec" "files_ok example_env"
proof -
  have "sys_inv default_options [(0, [])] (boot (empty_store default_options 0 :: unit store))"
    by (rule boot_empty_inv [OF PartitionStore_empty_eq])
  moreover have "abs_of [(0, [])] (boot (empty_store default_options 0 :: unit store)) = \<lparr>sl_base = 0, sl_log = [], sl_pending = []\<rparr>"
    by (simp add: abs_of_def boot_def empty_store_def)
  moreover have "sys_store (boot (empty_store default_options 0)) = (empty_store default_options 0 :: unit store)" by (simp add: boot_def)
  moreover have "max_batch_bytes default_options < 2 ^ 60" by (simp add: default_options_def)
  ultimately have "serves (empty_store default_options 0 :: unit store) \<lparr>sl_base = 0, sl_log = [], sl_pending = []\<rparr>"
    unfolding serves_def by metis
  then show "broker_rel (rh_registry example_handler) example_spec"
    unfolding example_handler_def example_spec_def by (rule example_with_ok)
  show "room example_spec" "files_ok example_env"
    by (auto simp: room_def example_spec_def log_end_def files_ok_def example_env_def split: if_splits)
qed

lemma example_num: "num_partitions ''t'' (rh_registry example_handler) = 1"
  by (simp add: num_partitions_def example_handler_def example_with_def)

lemma example_leads: "leads example_handler t p"
  by (simp add: leads_def example_handler_def example_with_def)

section \<open>Properties\<close>

text \<open>C13. A well-formed keyed or keyless \<^verbatim>\<open>PUBLISH_V2\<close> request for an existing topic: the record goes to the
  partition given by the key's hash, the round-robin counter or the request. On a broker that does not lead
  the partition nothing changes and the reply is \<^verbatim>\<open>NOT_LEADER\<close>. Otherwise, exactly when the partition's
  queue has room, the body is appended to the abstract log of that partition, no other log changes, and the
  assigned offset is acknowledged at once, or by the deferred acknowledgement when all replicas
  must have the record; when it has no room, nothing changes and the reply says busy or closed.\<close>

theorem publish_v2_appends_to_routed_partition:
  assumes "broker_rel (rh_registry h) A" "room A"
    "f = \<lparr>frame_op = PUBLISH_V2, frame_payload = encode_publish_v2_req req @ body\<rparr>"
    "length (pv_topic req) \<le> 255 \<and> length (pv_key req) \<le> 255" "pv_topic req \<noteq> []"
    "pv_payload_size req = of_nat (length body)" "length body < 2 ^ 32"
    "num_partitions (pv_topic req) (rh_registry h) \<noteq> 0"
    "route (num_partitions (pv_topic req) (rh_registry h)) (cn_rr_counter conn) req = Some p"
  shows "\<exists>res. handle e f conn h = Inr res \<and> publish_outcome A (pv_topic req) p body (after_route req conn) h res"
proof -
  have "frame_payload f = encode_publish_v2_req req @ body" using assms(3) by simp
  moreover have "handle e f conn h = handle_publish_v2 e f conn h" using assms(3) by (simp add: handle_def op_code_defs)
  ultimately show ?thesis using handle_publish_v2_ok [OF assms(1,2) _ assms(4-9)] by simp
qed

theorem publish_v2_appends_to_routed_partition_witness:
  "\<exists>ts h'. handle example_env \<lparr>frame_op = PUBLISH_V2, frame_payload = encode_publish_v2_req
        \<lparr>pv_topic = ''t'', pv_partition = 0, pv_key = ''k'', pv_payload_size = 2\<rparr> @ [8, 9]\<rparr> (ConnectionState 100 4) example_handler
      = Inr (encode_ack 0, None, ConnectionState 100 4, h')
     \<and> broker_rel (rh_registry h') [(''t'', 0) \<mapsto> \<lparr>sl_base = 0, sl_log = [],
         sl_pending = [\<lparr>rec_offset = 0, rec_timestamp_ms = ts, rec_payload = [8, 9]\<rparr>]\<rparr>]"
proof -
  let ?req = "\<lparr>pv_topic = ''t'', pv_partition = 0, pv_key = ''k'', pv_payload_size = 2\<rparr>"
  let ?f = "\<lparr>frame_op = PUBLISH_V2, frame_payload = encode_publish_v2_req ?req @ [8, 9]\<rparr>"
  have r: "route 1 0 ?req = Some 0" by (simp add: route_def)
  have "\<exists>res. handle example_env ?f (ConnectionState 100 4) example_handler = Inr res
      \<and> publish_outcome example_spec ''t'' 0 [8, 9] (after_route ?req (ConnectionState 100 4)) example_handler res"
    using publish_v2_appends_to_routed_partition [OF example_ok(1,2) refl, of ?req "[8, 9]" "ConnectionState 100 4" 0 example_env] r
    by (simp add: example_num ConnectionState_def)
  moreover have "accepts (empty_store default_options 0 :: unit store) [8, 9]"
    by (simp add: accepts_def empty_store_def default_options_def)
  moreover have "\<not> defers example_handler" by (simp add: defers_def example_handler_def example_with_def)
  ultimately show ?thesis using example_leads [of "''t''" 0]
    by (auto simp: publish_outcome_def after_route_def example_spec_def spec_put_def log_end_def get_partition_def example_handler_def example_with_def)
qed

text \<open>\<^verbatim>\<open>PUBLISH\<close> and \<^verbatim>\<open>PUBLISH_V2\<close> with an empty key are the same request: same reply, same state, for every
  topic, partition and body.\<close>

theorem publish_is_publish_v2_without_key:
  assumes "length t \<le> 255" "length body < 2 ^ 32"
  shows "handle e \<lparr>frame_op = PUBLISH, frame_payload =
             encode_publish_req \<lparr>pr_topic = t, pr_partition = p, pr_payload_size = of_nat (length body)\<rparr> @ body\<rparr> conn h
       = handle e \<lparr>frame_op = PUBLISH_V2, frame_payload =
             encode_publish_v2_req \<lparr>pv_topic = t, pv_partition = p, pv_key = [], pv_payload_size = of_nat (length body)\<rparr> @ body\<rparr> conn h"
proof -
  let ?r = "\<lparr>pr_topic = t, pr_partition = p, pr_payload_size = of_nat (length body)\<rparr>"
  let ?r2 = "\<lparr>pv_topic = t, pv_partition = p, pv_key = [], pv_payload_size = of_nat (length body)\<rparr>"
  have v: "length (pr_topic ?r) \<le> 255" and v2: "length (pv_topic ?r2) \<le> 255 \<and> length (pv_key ?r2) \<le> 255" using assms by simp_all
  have u: "unat (of_nat (length body) :: u32) = length body" using assms(2) by (simp only: unat_of_nat_u32)
  note r = publish.width_enc [OF v] publish.read_enc [OF v] publish_v2.width_enc [OF v2] publish_v2.read_enc [OF v2]
  show ?thesis
    by (simp add: handle_def op_code_defs handle_publish_def handle_publish_v2_def Let_def sizeof_defs r u)
qed

theorem publish_is_publish_v2_without_key_witness:
  "handle example_env \<lparr>frame_op = PUBLISH, frame_payload =
       encode_publish_req \<lparr>pr_topic = ''t'', pr_partition = 0, pr_payload_size = 1\<rparr> @ [7]\<rparr>
     (ConnectionState 100 4) example_handler
   = handle example_env \<lparr>frame_op = PUBLISH_V2, frame_payload =
       encode_publish_v2_req \<lparr>pv_topic = ''t'', pv_partition = 0, pv_key = [], pv_payload_size = 1\<rparr> @ [7]\<rparr>
     (ConnectionState 100 4) example_handler"
  using publish_is_publish_v2_without_key [of "''t''" "[7]"] by simp





end
