(* ===== verification/Fell_Replication_Channel.thy ===== *)
theory Fell_Replication_Channel
  imports Fell_Replica_Manager
begin

text \<open>
  The receiving half of a replication connection. \<^verbatim>\<open>ReplicationServer::on_readable\<close> and
  \<^verbatim>\<open>ReplicationClient::on_readable\<close> are the same two nested loops around different frame handlers;
  they are defined here once, with the handler as an argument. Operations give the list of their effects
  on the outside. The results of \<^verbatim>\<open>recv_data\<close> are arguments. A read behind the end of the receive buffer, or
  a use of a buffer the handler has erased, is a fault. The lemmas show that frames are handled in order
  however the stream is cut into reads.
\<close>

section \<open>Definitions\<close>

datatype effect =
    SendData int bytes
  | CloseSocket int
  | PollerAdd int
  | PollerRemove int
  | ReplicaAckCb u32 u64 string u16
  | FetchLogCb u32 string u16 int

datatype recv_result = RecvData bytes | RecvWouldBlock | RecvError | RecvEof

definition sends :: "(int \<times> bytes) list \<Rightarrow> effect list" where
  "sends xs = map (\<lambda>(fd, bs). SendData fd bs) xs"

text \<open>The three calls of \<^verbatim>\<open>send_data\<close> for a struct.\<close>

definition struct_sends :: "int \<Rightarrow> op_code \<Rightarrow> bytes \<Rightarrow> effect list" where
  "struct_sends fd op body =
     [SendData fd (mem32 (host_to_be32 (of_nat (length body) + 1))), SendData fd [op], SendData fd body]"

text \<open>A frame handler is given the operation, what the buffer holds from the payload pointer on, the payload length
  it is told, and its state. It gives its effects, whether it has erased the receive buffer, and the new state;
  \<open>None\<close> when a bound on its work was too small.\<close>

type_synonym 's frame_handler = "u8 \<Rightarrow> bytes \<Rightarrow> nat \<Rightarrow> 's \<Rightarrow> (fault + effect list \<times> bool \<times> 's) option"

text \<open>The loop over the buffered frames. Both the sum \<^verbatim>\<open>4 + len\<close> and the difference \<^verbatim>\<open>len - 1\<close> are
  computed with 32 bits. \<open>lost\<close> is the fault of removing the frame from an erased buffer.\<close>

function repl_frames ::
  "fault \<Rightarrow> 's frame_handler \<Rightarrow> bytes \<Rightarrow> 's \<Rightarrow> (fault + effect list \<times> bytes \<times> 's) option" where
  "repl_frames lost hnd buf s =
     (if length buf < 5 then Some (Inr ([], buf, s))
      else let len = be32_to_host (load32 (bytes_at 0 4 buf))
           in if length buf \<ge> unat (4 + len)
              then (case hnd (buf ! 4) (drop 5 buf) (unat (len - 1)) s of
                      None \<Rightarrow> None
                    | Some (Inl e) \<Rightarrow> Some (Inl e)
                    | Some (Inr (evs, erased, s1)) \<Rightarrow>
                        if erased then Some (Inl lost)
                        else if length buf < 4 + unat len then Some (Inl OutOfBounds)
                        else (case repl_frames lost hnd (drop (4 + unat len) buf) s1 of
                                None \<Rightarrow> None
                              | Some (Inl e) \<Rightarrow> Some (Inl e)
                              | Some (Inr (evs', buf', s2)) \<Rightarrow> Some (Inr (evs @ evs', buf', s2))))
              else Some (Inr ([], buf, s)))"
  by pat_completeness auto
termination
  by (relation "measure (\<lambda>(lost, hnd, buf, s). length buf)") auto

declare repl_frames.simps [simp del]

text \<open>The loop over \<^verbatim>\<open>recv_data\<close>: it ends with the first result that is not data, and a list that ends earlier ends
  with a blocked call. The buffer that is left is \<open>None\<close> when the connection is to be dropped.\<close>

fun repl_recv ::
  "fault \<Rightarrow> 's frame_handler \<Rightarrow> recv_result list \<Rightarrow> bytes \<Rightarrow> 's
     \<Rightarrow> (fault + effect list \<times> bytes option \<times> 's) option" where
  "repl_recv lost hnd (RecvData d # rs) buf s =
     (case repl_frames lost hnd (buf @ d) s of
        None \<Rightarrow> None
      | Some (Inl e) \<Rightarrow> Some (Inl e)
      | Some (Inr (evs, buf', s1)) \<Rightarrow>
          (case repl_recv lost hnd rs buf' s1 of
             None \<Rightarrow> None
           | Some (Inl e) \<Rightarrow> Some (Inl e)
           | Some (Inr (evs', res, s2)) \<Rightarrow> Some (Inr (evs @ evs', res, s2))))"
| "repl_recv lost hnd (RecvEof # rs) buf s = Some (Inr ([], None, s))"
| "repl_recv lost hnd (RecvError # rs) buf s = Some (Inr ([], None, s))"
| "repl_recv lost hnd (RecvWouldBlock # rs) buf s = Some (Inr ([], Some buf, s))"
| "repl_recv lost hnd [] buf s = Some (Inr ([], Some buf, s))"

section \<open>Streams of frames\<close>

text \<open>The handler accepts the messages one after the other, whatever follows them in the buffer.\<close>

fun handles :: "'s frame_handler \<Rightarrow> (op_code \<times> bytes) list \<Rightarrow> 's \<Rightarrow> effect list \<Rightarrow> 's \<Rightarrow> bool" where
  "handles hnd [] s evs s' \<longleftrightarrow> evs = [] \<and> s' = s"
| "handles hnd (m # ms) s evs s' \<longleftrightarrow>
     length (snd m) + 5 < 2 ^ 32
     \<and> (\<exists>e1 s1 e2. (\<forall>rest. hnd (fst m) (snd m @ rest) (length (snd m)) s = Some (Inr (e1, False, s1)))
          \<and> handles hnd ms s1 e2 s' \<and> evs = e1 @ e2)"

definition stream_of :: "(op_code \<times> bytes) list \<Rightarrow> bytes" where
  "stream_of ms = concat (map (\<lambda>(op, body). repl_frame op body) ms)"

lemma stream_of_simps [simp]:
  "stream_of [] = []" "stream_of (m # ms) = repl_frame (fst m) (snd m) @ stream_of ms"
  by (simp_all add: stream_of_def split: prod.split)

lemma repl_frame_parse:
  "be32_to_host (load32 (bytes_at 0 4 (repl_frame op body @ rest))) = of_nat (length body + 1)"
  "(repl_frame op body @ rest) ! 4 = op" "drop 5 (repl_frame op body @ rest) = body @ rest"
  "length (repl_frame op body) = length body + 5"
  by (simp_all add: repl_frame_def struct_simps nth_append add.commute)

lemma repl_len:
  assumes "n + 5 < 2 ^ 32"
  shows "unat (4 + of_nat (n + 1) :: u32) = n + 5" "unat (of_nat (n + 1) - 1 :: u32) = n"
    "unat (of_nat (n + 1) :: u32) = n + 1"
proof -
  show "unat (of_nat (n + 1) :: u32) = n + 1" by (rule unat_of_nat_u32) (use assms in simp)
  have "4 + of_nat (n + 1) = (of_nat (n + 5) :: u32)" by simp
  then show "unat (4 + of_nat (n + 1) :: u32) = n + 5" using assms by (simp only: unat_of_nat_u32)
  have "of_nat (n + 1) - 1 = (of_nat n :: u32)" "n < 2 ^ 32" using assms by simp_all
  then show "unat (of_nat (n + 1) - 1 :: u32) = n" by (simp only: unat_of_nat_u32)
qed

lemma repl_frames_step:
  assumes "length body + 5 < 2 ^ 32"
  shows "repl_frames lost hnd (repl_frame op body @ rest) s =
     (case hnd op (body @ rest) (length body) s of
        None \<Rightarrow> None
      | Some (Inl e) \<Rightarrow> Some (Inl e)
      | Some (Inr (evs, erased, s1)) \<Rightarrow>
          if erased then Some (Inl lost)
          else (case repl_frames lost hnd rest s1 of
                  None \<Rightarrow> None | Some (Inl e) \<Rightarrow> Some (Inl e)
                | Some (Inr (evs', buf, s2)) \<Rightarrow> Some (Inr (evs @ evs', buf, s2))))"
proof -
  have "drop (5 + length body) (repl_frame op body @ rest) = rest"
    using repl_frame_parse(4) [of op body] by (metis append_eq_conv_conj add.commute)
  then show ?thesis
    unfolding repl_frames.simps [of lost hnd "repl_frame op body @ rest" s] Let_def repl_frame_parse repl_len [OF assms(1)]
    by (simp add: repl_frame_parse(4) del: drop_append cong: option.case_cong sum.case_cong prod.case_cong if_cong)
qed

text \<open>An incomplete frame stays in the buffer.\<close>

lemma repl_frames_incomplete:
  assumes "length body + 5 < 2 ^ 32" "X @ Y = repl_frame op body @ rest" "length X < length body + 5"
  shows "repl_frames lost hnd X s = Some (Inr ([], X, s))"
proof (cases "length X < 5")
  case True then show ?thesis by (simp add: repl_frames.simps)
next
  case False
  have "bytes_at 0 4 X = bytes_at 0 4 (repl_frame op body @ rest)"
    using False bytes_at_append1 [of 0 4 X Y] assms(2) by simp
  then have "be32_to_host (load32 (bytes_at 0 4 X)) = of_nat (length body + 1)" by (simp only: repl_frame_parse)
  then show ?thesis
    using False assms(3) unfolding repl_frames.simps [of lost hnd X s] Let_def
    by (simp only: repl_len [OF assms(1)]) simp
qed

text \<open>A proper beginning of the first frame of a stream.\<close>

definition before_end :: "bytes \<Rightarrow> (op_code \<times> bytes) list \<Rightarrow> bool" where
  "before_end r ms \<longleftrightarrow> (ms \<noteq> [] \<longrightarrow> length r < length (snd (hd ms)) + 5)"

lemma before_end_whole: "before_end r ms \<Longrightarrow> r = stream_of ms \<Longrightarrow> ms = []"
  using repl_frame_parse(4) by (cases ms) (auto simp: before_end_def)

lemma repl_frames_stream:
  assumes "handles hnd ms s evs s'" "X @ Y = stream_of ms"
  shows "\<exists>e1 r s1 ms2 e2. repl_frames lost hnd X s = Some (Inr (e1, r, s1)) \<and> r @ Y = stream_of ms2
     \<and> handles hnd ms2 s1 e2 s' \<and> evs = e1 @ e2 \<and> before_end r ms2"
  using assms
proof (induction ms arbitrary: s evs X)
  case Nil
  then have "repl_frames lost hnd X s = Some (Inr ([], X, s)) \<and> X @ Y = stream_of [] \<and> handles hnd [] s [] s'
      \<and> evs = [] @ [] \<and> before_end X []" by (simp add: repl_frames.simps before_end_def)
  then show ?case by blast
next
  case (Cons m ms)
  let ?F = "repl_frame (fst m) (snd m)"
  from Cons.prems(1) obtain e1 s1 e2 where
    h: "length (snd m) + 5 < 2 ^ 32" "\<And>rest. hnd (fst m) (snd m @ rest) (length (snd m)) s = Some (Inr (e1, False, s1))"
      "handles hnd ms s1 e2 s'" "evs = e1 @ e2" by auto
  have eq: "X @ Y = ?F @ stream_of ms" using Cons.prems(2) by simp
  show ?case
  proof (cases "length X < length (snd m) + 5")
    case True
    have "repl_frames lost hnd X s = Some (Inr ([], X, s)) \<and> X @ Y = stream_of (m # ms)
        \<and> handles hnd (m # ms) s evs s' \<and> evs = [] @ evs \<and> before_end X (m # ms)"
      using repl_frames_incomplete [OF h(1) eq True] Cons.prems True by (simp only: before_end_def list.sel append.simps simp_thms)
    then show ?thesis by blast
  next
    case False
    then have len: "length ?F \<le> length X" by (simp add: repl_frame_parse(4))
    then have "X = ?F @ drop (length ?F) X"
      using arg_cong [OF eq, of "take (length ?F)"] by (metis append_take_drop_id append_eq_conv_conj take_append diff_is_0_eq take0 append_Nil2)
    then obtain X' where X: "X = ?F @ X'" by blast
    then have X: "X = ?F @ X'" "X' @ Y = stream_of ms" using eq by simp_all
    from Cons.IH [OF h(3) X(2)] obtain e3 r s3 ms3 e4 where
      r: "repl_frames lost hnd X' s1 = Some (Inr (e3, r, s3))" "r @ Y = stream_of ms3" "handles hnd ms3 s3 e4 s'" "e2 = e3 @ e4"
        "before_end r ms3" by blast
    have "repl_frames lost hnd X s = Some (Inr (e1 @ e3, r, s3))"
      unfolding X(1) repl_frames_step [OF h(1)] by (simp add: h(2) r(1))
    then show ?thesis using r h(4) by (intro exI [of _ "e1 @ e3"] exI [of _ r] exI [of _ s3] exI [of _ ms3] exI [of _ e4]) simp
  qed
qed

text \<open>However a stream of accepted frames is cut into reads, the frames are handled once and in order, and
  nothing is left in the buffer.\<close>

lemma repl_recv_stream:
  assumes "handles hnd ms s evs s'" "buf @ concat chunks = stream_of ms" "before_end buf ms"
  shows "repl_recv lost hnd (map RecvData chunks) buf s = Some (Inr (evs, Some [], s'))"
  using assms
proof (induction chunks arbitrary: buf ms s evs)
  case Nil
  then have "ms = []" by (intro before_end_whole [of buf]) simp_all
  then show ?case using Nil by simp
next
  case (Cons d ds)
  have "(buf @ d) @ concat ds = stream_of ms" using Cons.prems(2) by simp
  from repl_frames_stream [OF Cons.prems(1) this, of lost] obtain e1 r s1 ms2 e2 where
    r: "repl_frames lost hnd (buf @ d) s = Some (Inr (e1, r, s1))" "r @ concat ds = stream_of ms2"
      "handles hnd ms2 s1 e2 s'" "evs = e1 @ e2" "before_end r ms2" by blast
  then show ?case using Cons.IH [OF r(3,2,5)] by simp
qed

end
