(* ===== verification/Fell_Replication_Server.thy ===== *)
theory Fell_Replication_Server
  imports Fell_Replication_Channel Fell_Topic_Registry Fell_Partition_Interface Fell_Store_Progress
begin

text \<open>
  \<^verbatim>\<open>replication/replication_server.cpp\<close>: the leader's listener for followers. What \<^verbatim>\<open>recv\<close>, \<^verbatim>\<open>accept\<close> and the
  poller report are arguments. The theorems say what a follower is sent, that acknowledgements reach
  the broker however the stream is cut, how leadership claims are ordered by their epoch, and which requests make
  the server touch memory it must not.
\<close>

section \<open>Definitions\<close>

record 'cb repl_server =
  rv_cfg :: cluster_config
  rv_meta :: meta_registry
  rv_registry :: "'cb topic_registry"
  rv_recv_buffers :: "int \<rightharpoonup> bytes"
  rv_has_replica_ack_cb :: bool
  rv_has_fetch_log_cb :: bool
  rv_running :: bool

definition ReplicationServer :: "cluster_config \<Rightarrow> meta_registry \<Rightarrow> 'cb topic_registry \<Rightarrow> 'cb repl_server" where
  "ReplicationServer cfg meta reg =
     \<lparr>rv_cfg = cfg, rv_meta = meta, rv_registry = reg, rv_recv_buffers = Map.empty, rv_has_replica_ack_cb = False,
      rv_has_fetch_log_cb = False, rv_running = False\<rparr>"

definition forget_connection :: "int \<Rightarrow> 'cb repl_server \<Rightarrow> effect list \<times> 'cb repl_server" where
  "forget_connection fd srv =
     ([PollerRemove fd, CloseSocket fd], srv\<lparr>rv_recv_buffers := (rv_recv_buffers srv)(fd := None)\<rparr>)"

subsection \<open>handle\_fetch\_log\<close>

text \<open>The catch-up loop, with a bound on its rounds: \<open>None\<close> when the bound is reached. The records it sends
  are collected; the partition only changes in its cache.\<close>

fun catch_up ::
  "(u64 \<Rightarrow> u16 \<Rightarrow> 'p \<Rightarrow> fault + stored_message list \<times> 'p) \<Rightarrow> ('p \<Rightarrow> u64) \<Rightarrow> nat \<Rightarrow> u64 \<Rightarrow> 'p
     \<Rightarrow> (fault + stored_message list \<times> 'p) option" where
  "catch_up fet com 0 offset p = None"
| "catch_up fet com (Suc k) offset p =
     (if offset < com p
      then (case fet offset 128 p of
              Inl e \<Rightarrow> Some (Inl e)
            | Inr (msgs, p') \<Rightarrow>
                if msgs = [] then Some (Inr ([], p'))
                else (case catch_up fet com k (offset + of_nat (length msgs)) p' of
                        None \<Rightarrow> None
                      | Some (Inl e) \<Rightarrow> Some (Inl e)
                      | Some (Inr (rest, p'')) \<Rightarrow> Some (Inr (msgs @ rest, p''))))
      else Some (Inr ([], p)))"

definition sync_end_sends :: "string \<Rightarrow> u16 \<Rightarrow> int \<Rightarrow> effect list" where
  "sync_end_sends topic part fd =
     struct_sends fd REPLICA_SYNC_END
       (encode_replica_sync_header
          \<lparr>sy_topic = topic, sy_partition = part, sy_epoch = 0, sy_offset = 0, sy_timestamp_ms = 0, sy_payload_size = 0\<rparr>)"

text \<open>The boolean says whether the connection and its buffer are gone.\<close>

definition handle_fetch_log ::
  "nat \<Rightarrow> int \<Rightarrow> fetch_log_req \<Rightarrow> 'cb repl_server \<Rightarrow> (fault + effect list \<times> bool \<times> 'cb repl_server) option" where
  "handle_fetch_log fuel fd req srv =
     (let topic = fl_topic req; part = fl_partition req
      in case get_partition topic part (rv_registry srv) of
           None \<Rightarrow> (case forget_connection fd srv of (evs, srv') \<Rightarrow> Some (Inr (evs, True, srv')))
         | Some p \<Rightarrow>
             let cb = (if rv_has_fetch_log_cb srv then [FetchLogCb (fl_follower_id req) topic part fd] else [])
             in case catch_up store_fetch committed_offset fuel (fl_start_offset req) p of
                  None \<Rightarrow> None
                | Some (Inl e) \<Rightarrow> Some (Inl e)
                | Some (Inr (msgs, p')) \<Rightarrow>
                    (case (if msgs = [] then (0, rv_meta srv) else meta_epoch topic part (rv_meta srv)) of
                       (epoch, meta) \<Rightarrow>
                         Some (Inr (cb @ sends (concat (map (sync_sends topic part epoch fd) msgs)) @ sync_end_sends topic part fd,
                               False,
                               srv\<lparr>rv_meta := meta, rv_registry := set_partition topic part p' (rv_registry srv)\<rparr>))))"

subsection \<open>The other handlers\<close>

definition handle_replica_ack :: "replica_ack \<Rightarrow> 'cb repl_server \<Rightarrow> effect list" where
  "handle_replica_ack req srv =
     (if \<not> rv_has_replica_ack_cb srv then []
      else [ReplicaAckCb (ra_follower_id req) (ra_acked_offset req) (ra_topic req) (ra_partition req)])"

definition handle_heartbeat :: "int \<Rightarrow> heartbeat \<Rightarrow> 'cb repl_server \<Rightarrow> 'cb repl_server" where
  "handle_heartbeat fd hb srv = srv"

definition handle_leader_election :: "leader_election \<Rightarrow> 'cb repl_server \<Rightarrow> 'cb repl_server" where
  "handle_leader_election le srv =
     (case meta_get (le_topic le) (le_partition le) (rv_meta srv) of
        (m, meta) \<Rightarrow>
          let srv1 = srv\<lparr>rv_meta := meta\<rparr>
          in if le_epoch le \<le> pm_epoch m then srv1
             else if (case get_partition (le_topic le) (le_partition le) (rv_registry srv) of
                        None \<Rightarrow> False | Some p \<Rightarrow> le_committed_offset le < committed_offset p) then srv1
             else srv1\<lparr>rv_meta := meta(make_key (le_topic le) (le_partition le) \<mapsto>
                    m\<lparr>pm_epoch := le_epoch le, pm_leader_id := le_new_leader_id le,
                      pm_role := (if le_new_leader_id le = cfg_broker_id (rv_cfg srv) then Leader else Follower)\<rparr>)\<rparr>)"

text \<open>\<open>avail\<close> is what the buffer holds from the payload pointer on; \<open>n\<close> is the length the handler is told.\<close>

definition server_handle_frame :: "nat \<Rightarrow> int \<Rightarrow> 'cb repl_server frame_handler" where
  "server_handle_frame fuel fd opcode avail n srv =
     (if opcode = FETCH_LOG \<and> n \<ge> sizeof_FetchLogReq then
        (if length avail < sizeof_FetchLogReq then Some (Inl OutOfBounds)
         else handle_fetch_log fuel fd (decode_fetch_log_req avail) srv)
      else if opcode = REPLICA_ACK \<and> n \<ge> sizeof_ReplicaAck then
        (if length avail < sizeof_ReplicaAck then Some (Inl OutOfBounds)
         else Some (Inr (handle_replica_ack (decode_replica_ack avail) srv, False, srv)))
      else if opcode = HEARTBEAT \<and> n \<ge> sizeof_Heartbeat then
        (if length avail < sizeof_Heartbeat then Some (Inl OutOfBounds)
         else Some (Inr ([], False, handle_heartbeat fd (decode_heartbeat avail) srv)))
      else if opcode = LEADER_ELECTION \<and> n \<ge> sizeof_LeaderElection then
        (if length avail < sizeof_LeaderElection then Some (Inl OutOfBounds)
         else Some (Inr ([], False, handle_leader_election (decode_leader_election avail) srv)))
      else Some (Inr ([], False, srv)))"

subsection \<open>on\_readable\<close>

text \<open>\<^verbatim>\<open>buf\<close> is a reference into \<^verbatim>\<open>recv_buffers_\<close>, so it dangles once \<^verbatim>\<open>handle_fetch_log\<close> has erased the entry.\<close>

definition server_on_readable ::
  "nat \<Rightarrow> int \<Rightarrow> recv_result list \<Rightarrow> 'cb repl_server \<Rightarrow> (fault + effect list \<times> 'cb repl_server) option" where
  "server_on_readable fuel fd rs srv =
     (case repl_recv Dangling (server_handle_frame fuel fd) rs
             (case rv_recv_buffers srv fd of None \<Rightarrow> [] | Some b \<Rightarrow> b) srv of
        None \<Rightarrow> None
      | Some (Inl e) \<Rightarrow> Some (Inl e)
      | Some (Inr (evs, Some buf, srv1)) \<Rightarrow>
          Some (Inr (evs, srv1\<lparr>rv_recv_buffers := (rv_recv_buffers srv1)(fd \<mapsto> buf)\<rparr>))
      | Some (Inr (evs, None, srv1)) \<Rightarrow>
          (case forget_connection fd srv1 of (evs', srv2) \<Rightarrow> Some (Inr (evs @ evs', srv2))))"

subsection \<open>event\_loop\<close>

text \<open>What the poller reports: the wake-up pipe, the listening socket with the connections that \<^verbatim>\<open>accept\<close>
  then gives, or a connection.\<close>

datatype poll_event =
    PollNotify
  | PollAccept "int list"
  | PollClient int bool bool "recv_result list"  \<comment> \<open>socket, \<^verbatim>\<open>PF_HUP\<close>, \<^verbatim>\<open>PF_READ\<close>\<close>

fun server_poll_event :: "nat \<Rightarrow> poll_event \<Rightarrow> 'cb repl_server \<Rightarrow> (fault + effect list \<times> 'cb repl_server) option" where
  "server_poll_event fuel PollNotify srv = Some (Inr ([], srv))"
| "server_poll_event fuel (PollAccept fds) srv = Some (Inr (map PollerAdd fds, srv))"
| "server_poll_event fuel (PollClient fd hup readable rs) srv =
     (if hup then Some (Inr (forget_connection fd srv))
      else if readable then server_on_readable fuel fd rs srv
      else Some (Inr ([], srv)))"

text \<open>The events the poller reports one after the other.\<close>

fun server_event_loop ::
  "nat \<Rightarrow> poll_event list \<Rightarrow> 'cb repl_server \<Rightarrow> (fault + effect list \<times> 'cb repl_server) option" where
  "server_event_loop fuel [] srv = Some (Inr ([], srv))"
| "server_event_loop fuel (ev # evs) srv =
     (case server_poll_event fuel ev srv of
        None \<Rightarrow> None
      | Some (Inl e) \<Rightarrow> Some (Inl e)
      | Some (Inr (es, srv1)) \<Rightarrow>
          (case server_event_loop fuel evs srv1 of
             None \<Rightarrow> None
           | Some (Inl e) \<Rightarrow> Some (Inl e)
           | Some (Inr (es', srv2)) \<Rightarrow> Some (Inr (es @ es', srv2))))"

definition server_claims :: "leader_election list \<Rightarrow> 'cb repl_server \<Rightarrow> 'cb repl_server" where
  "server_claims les srv = fold handle_leader_election les srv"

definition server_start :: "int \<Rightarrow> int \<Rightarrow> 'cb repl_server \<Rightarrow> effect list \<times> 'cb repl_server" where
  "server_start listen_fd notify_read_fd srv =
     (if rv_running srv then ([], srv)
      else ([PollerAdd listen_fd, PollerAdd notify_read_fd], srv\<lparr>rv_running := True\<rparr>))"

definition server_stop :: "int \<Rightarrow> 'cb repl_server \<Rightarrow> effect list \<times> 'cb repl_server" where
  "server_stop notify_write_fd srv =
     (if \<not> rv_running srv then ([], srv) else ([SendData notify_write_fd [1]], srv\<lparr>rv_running := False\<rparr>))"

section \<open>Streaming a log\<close>

text \<open>What the server needs of a partition beyond the contract of its log: a committed offset that lies in the
  log and that reading does not change.\<close>

locale replica_source = partition_log rel app fet whole
  for rel :: "'p \<Rightarrow> spec_log \<Rightarrow> bool" and app fet whole +
  fixes com :: "'p \<Rightarrow> u64"
  assumes com_law: "rel p a \<Longrightarrow> unat (com p) \<le> sl_base a + length (sl_log a)"
    and fet_com: "fet off n p = Inr (rs, p') \<Longrightarrow> com p' = com p"
begin

lemma catch_up_streams:
  assumes "rel p a" "sl_base a \<le> unat off" "unat (com p) - unat off < k"
  shows "\<exists>rs p'. catch_up fet com k off p = Some (Inr (rs, p')) \<and> rel p' a
     \<and> prefix rs (drop (unat off - sl_base a) (sl_log a)) \<and> (whole p \<longrightarrow> unat (com p) \<le> unat off + length rs)"
  using assms
proof (induction k arbitrary: off p)
  case (Suc k)
  show ?case
  proof (cases "off < com p")
    case True
    obtain rs p' where f: "fet off 128 p = Inr (rs, p')" "rel p' a"
      "prefix rs (drop (unat off - sl_base a) (sl_log a))" "whole p' = whole p"
      "whole p \<and> unat off < sl_base a + length (sl_log a) \<longrightarrow> rs \<noteq> []"
      using fet_law [OF Suc.prems(1), of off 128] Suc.prems(2) by auto
    have lt: "unat off < unat (com p)" using True by (simp add: word_less_nat_alt)
    then have lt': "unat off < sl_base a + length (sl_log a)" using com_law [OF Suc.prems(1)] by simp
    show ?thesis
    proof (cases "rs = []")
      case True then show ?thesis using f lt lt' \<open>off < com p\<close> by simp
    next
      case False
      have le: "length rs \<le> length (sl_log a) - (unat off - sl_base a)" using prefix_length_le [OF f(3)] by simp
      have "unat off + length rs < 2 ^ 64"
        using le lt' rel_offsets [OF Suc.prems(1), THEN conjunct2] Suc.prems(2) unfolding log_end_def by linarith
      then have off': "unat (off + of_nat (length rs)) = unat off + length rs" by (rule unat_add_u64)
      have "unat (com p') - unat (off + of_nat (length rs)) < k"
        using Suc.prems(3) lt False unfolding off' fet_com [OF f(1)] by (cases rs) auto
      with Suc.IH [OF f(2), of "off + of_nat (length rs)"] obtain rs2 p2 where
        r: "catch_up fet com k (off + of_nat (length rs)) p' = Some (Inr (rs2, p2))" "rel p2 a"
        "prefix rs2 (drop (unat off + length rs - sl_base a) (sl_log a))"
        "whole p \<longrightarrow> unat (com p) \<le> unat off + length rs + length rs2"
        using Suc.prems(2) f(4) unfolding off' fet_com [OF f(1)] by auto
      obtain t where t: "drop (unat off - sl_base a) (sl_log a) = rs @ t" using f(3) by (auto simp: prefix_def)
      have "drop (length rs + (unat off - sl_base a)) (sl_log a) = t"
        using arg_cong [OF t, of "drop (length rs)"] by simp
      then have "prefix rs2 t" using r(3) Suc.prems(2) by (simp add: add.commute)
      then have "prefix (rs @ rs2) (drop (unat off - sl_base a) (sl_log a))" using t by simp
      then show ?thesis using f(1) r(1,2,4) True False by (simp add: add.assoc)
    qed
  qed (use Suc.prems in \<open>simp add: word_less_nat_alt not_less\<close>)
qed simp

end

lemma serves_committed: "serves st a \<Longrightarrow> unat (committed_offset st) \<le> sl_base a + length (sl_log a)"
  using committed_le_next [where j = 0] sys_inv_end(1)
  by (fastforce simp: serves_def committed_offset_def word_le_nat_alt)

lemma store_fetch_committed: "store_fetch off n st = Inr (rs, st') \<Longrightarrow> committed_offset st' = committed_offset st"
  by (auto simp: store_fetch_def cached_segment_def committed_offset_def Let_def split: option.splits sum.splits)

interpretation source: replica_source serves store_append store_fetch "\<lambda>st. sealed_segments st = []" committed_offset
  by unfold_locales (fact serves_committed, fact store_fetch_committed)

section \<open>Handling single frames\<close>

lemma fetch_log_handled:
  assumes "get_partition (fl_topic req) (fl_partition req) (rv_registry srv) = Some st" "serves st a"
    and "sl_base a \<le> unat (fl_start_offset req)" "unat (committed_offset st) - unat (fl_start_offset req) < fuel"
    and "length (fl_topic req) \<le> 255"
  shows "\<exists>rs epoch meta st'. (\<forall>rest. server_handle_frame fuel fd FETCH_LOG (encode_fetch_log_req req @ rest) 270 srv
       = Some (Inr ((if rv_has_fetch_log_cb srv then [FetchLogCb (fl_follower_id req) (fl_topic req) (fl_partition req) fd] else [])
            @ sends (concat (map (sync_sends (fl_topic req) (fl_partition req) epoch fd) rs))
            @ sync_end_sends (fl_topic req) (fl_partition req) fd, False,
            srv\<lparr>rv_meta := meta, rv_registry := set_partition (fl_topic req) (fl_partition req) st' (rv_registry srv)\<rparr>)))
     \<and> serves st' a \<and> prefix rs (drop (unat (fl_start_offset req) - sl_base a) (sl_log a))
     \<and> (sealed_segments st = [] \<longrightarrow> unat (committed_offset st) \<le> unat (fl_start_offset req) + length rs)
     \<and> (rs \<noteq> [] \<longrightarrow> (epoch, meta) = meta_epoch (fl_topic req) (fl_partition req) (rv_meta srv))"
proof -
  obtain rs st' where r: "catch_up store_fetch committed_offset fuel (fl_start_offset req) st = Some (Inr (rs, st'))" "serves st' a"
    "prefix rs (drop (unat (fl_start_offset req) - sl_base a) (sl_log a))"
    "sealed_segments st = [] \<longrightarrow> unat (committed_offset st) \<le> unat (fl_start_offset req) + length rs"
    using source.catch_up_streams [OF assms(2-4)] by blast
  obtain epoch meta where m: "(if rs = [] then (0, rv_meta srv)
      else meta_epoch (fl_topic req) (fl_partition req) (rv_meta srv)) = (epoch, meta)" by fastforce
  have "server_handle_frame fuel fd FETCH_LOG (encode_fetch_log_req req @ rest) 270 srv = handle_fetch_log fuel fd req srv" for rest
    using fetch_log.read_enc [OF assms(5)] fetch_log.width_enc [OF assms(5)]
    by (simp add: server_handle_frame_def sizeof_repl_defs)
  moreover have "handle_fetch_log fuel fd req srv = Some (Inr (
        (if rv_has_fetch_log_cb srv then [FetchLogCb (fl_follower_id req) (fl_topic req) (fl_partition req) fd] else [])
        @ sends (concat (map (sync_sends (fl_topic req) (fl_partition req) epoch fd) rs)) @ sync_end_sends (fl_topic req) (fl_partition req) fd,
        False, srv\<lparr>rv_meta := meta, rv_registry := set_partition (fl_topic req) (fl_partition req) st' (rv_registry srv)\<rparr>))"
    unfolding handle_fetch_log_def Let_def assms(1) by (simp add: r(1) m)
  moreover have "rs \<noteq> [] \<longrightarrow> (epoch, meta) = meta_epoch (fl_topic req) (fl_partition req) (rv_meta srv)"
    using m by (auto split: if_splits)
  ultimately show ?thesis using r(2-4)
    by (intro exI [of _ rs] exI [of _ epoch] exI [of _ meta] exI [of _ st']) simp
qed

lemma ack_handled:
  assumes "length (ra_topic ack) \<le> 255"
  shows "server_handle_frame fuel fd REPLICA_ACK (encode_replica_ack ack @ rest) 274 srv = Some (Inr (handle_replica_ack ack srv, False, srv))"
  using repl_ack.read_enc [OF assms] repl_ack.width_enc [OF assms]
  by (simp add: server_handle_frame_def sizeof_repl_defs REPLICA_ACK_def FETCH_LOG_def)

lemma acks_handled:
  assumes "\<forall>ack \<in> set acks. length (ra_topic ack) \<le> 255"
  shows "handles (server_handle_frame fuel fd) (map (\<lambda>ack. (REPLICA_ACK, encode_replica_ack ack)) acks) srv
           (concat (map (\<lambda>ack. handle_replica_ack ack srv) acks)) srv"
  using assms
proof (induction acks)
  case (Cons ack acks)
  then show ?case
    using ack_handled [of ack fuel fd _ srv] repl_ack.width_enc [of ack]
    by (auto intro!: exI [of _ "handle_replica_ack ack srv"] exI [of _ srv])
qed simp

text \<open>The bytes given to \<^verbatim>\<open>send_data\<close> for a socket, and the messages of a sync stream.\<close>

fun sent_to :: "int \<Rightarrow> effect list \<Rightarrow> bytes" where
  "sent_to fd (SendData fd' bs # evs) = (if fd' = fd then bs else []) @ sent_to fd evs"
| "sent_to fd (_ # evs) = sent_to fd evs"
| "sent_to fd [] = []"

definition sync_msg :: "string \<Rightarrow> u16 \<Rightarrow> u32 \<Rightarrow> log_record \<Rightarrow> op_code \<times> bytes" where
  "sync_msg topic part epoch r =
     (REPLICA_SYNC, encode_replica_sync_header (sync_header_of topic part epoch r) @ rec_payload r)"

definition sync_end_msg :: "string \<Rightarrow> u16 \<Rightarrow> op_code \<times> bytes" where
  "sync_end_msg topic part =
     (REPLICA_SYNC_END, encode_replica_sync_header
        \<lparr>sy_topic = topic, sy_partition = part, sy_epoch = 0, sy_offset = 0, sy_timestamp_ms = 0, sy_payload_size = 0\<rparr>)"

lemma sent_to_append [simp]: "sent_to fd (xs @ ys) = sent_to fd xs @ sent_to fd ys"
  by (induction fd xs rule: sent_to.induct) simp_all

lemma sent_to_struct [simp]: "sent_to fd (struct_sends fd op body) = repl_frame op body"
  by (simp add: struct_sends_def repl_frame_def)

lemma length_sync_header: "length topic \<le> 255 \<Longrightarrow> length (encode_replica_sync_header (sync_header_of topic part epoch r)) = 282"
  by (rule sync_header.width_enc) (simp add: sync_header_of_def)

lemma sent_to_sync:
  "length topic \<le> 255 \<Longrightarrow> sent_to fd (sends (sync_sends topic part epoch fd r)) = stream_of [sync_msg topic part epoch r]"
  using length_sync_header [of topic part epoch r]
  by (simp add: sends_def sync_sends_def sync_msg_def repl_frame_def sizeof_repl_defs)

lemma stream_of_append [simp]: "stream_of (xs @ ys) = stream_of xs @ stream_of ys"
  by (induction xs) simp_all

lemma sent_to_syncs:
  assumes "length topic \<le> 255"
  shows "sent_to fd (sends (concat (map (sync_sends topic part epoch fd) rs))) = stream_of (map (sync_msg topic part epoch) rs)"
proof (induction rs)
  case (Cons r rs)
  have "sends (concat (map (sync_sends topic part epoch fd) (r # rs)))
      = sends (sync_sends topic part epoch fd r) @ sends (concat (map (sync_sends topic part epoch fd) rs))"
    by (simp add: sends_def)
  then show ?case using Cons sent_to_sync [OF assms, of fd part epoch r] by simp
qed (simp add: sends_def)

section \<open>Leadership claims\<close>

definition meta_at :: "string \<Rightarrow> u16 \<Rightarrow> 'cb repl_server \<Rightarrow> partition_meta" where
  "meta_at t p srv = fst (meta_get t p (rv_meta srv))"

text \<open>Claims for a partition that do not come from a broker behind this one.\<close>

definition eligible :: "string \<Rightarrow> u16 \<Rightarrow> 'cb repl_server \<Rightarrow> leader_election \<Rightarrow> bool" where
  "eligible t p srv le = (le_topic le = t \<and> le_partition le = p
     \<and> (case get_partition t p (rv_registry srv) of None \<Rightarrow> True | Some st \<Rightarrow> committed_offset st \<le> le_committed_offset le))"

definition adopt :: "u32 \<Rightarrow> leader_election \<Rightarrow> partition_meta \<Rightarrow> partition_meta" where
  "adopt me le m = m\<lparr>pm_epoch := le_epoch le, pm_leader_id := le_new_leader_id le,
     pm_role := (if le_new_leader_id le = me then Leader else Follower)\<rparr>"

lemma fst_meta_get_update:
  "fst (meta_get t p (reg(make_key u q \<mapsto> m))) = (if t = u \<and> p = q then m else fst (meta_get t p reg))"
  by (simp add: meta_get_def Let_def split: option.split)

lemma fst_meta_get_get: "fst (meta_get t p (snd (meta_get u q reg))) = fst (meta_get t p reg)"
  by (auto simp: meta_get_def Let_def split: option.split)

lemma fst_meta_get_put:
  "fst (meta_get t p ((snd (meta_get u q reg))(make_key u q \<mapsto> m))) = (if t = u \<and> p = q then m else fst (meta_get t p reg))"
  unfolding fst_meta_get_update fst_meta_get_get by simp

lemma handle_leader_election_alt:
  "handle_leader_election le srv =
     srv\<lparr>rv_meta := (let m = meta_at (le_topic le) (le_partition le) srv;
                        meta = snd (meta_get (le_topic le) (le_partition le) (rv_meta srv))
        in if eligible (le_topic le) (le_partition le) srv le \<and> pm_epoch m < le_epoch le
           then meta(make_key (le_topic le) (le_partition le) \<mapsto> adopt (cfg_broker_id (rv_cfg srv)) le m) else meta)\<rparr>"
  by (simp add: handle_leader_election_def split_beta Let_def eligible_def meta_at_def adopt_def not_le not_less split: option.split)

lemma claim_meta:
  "rv_registry (handle_leader_election le srv) = rv_registry srv" "rv_cfg (handle_leader_election le srv) = rv_cfg srv"
  "meta_at t p (handle_leader_election le srv) =
     (if eligible t p srv le \<and> pm_epoch (meta_at t p srv) < le_epoch le
      then adopt (cfg_broker_id (rv_cfg srv)) le (meta_at t p srv) else meta_at t p srv)"
proof -
  show "meta_at t p (handle_leader_election le srv) =
     (if eligible t p srv le \<and> pm_epoch (meta_at t p srv) < le_epoch le
      then adopt (cfg_broker_id (rv_cfg srv)) le (meta_at t p srv) else meta_at t p srv)"
  proof (cases "le_topic le = t \<and> le_partition le = p")
    case True
    then show ?thesis unfolding handle_leader_election_alt meta_at_def
      by (simp add: Let_def fst_meta_get_put fst_meta_get_get)
  next
    case False
    then have "\<not> eligible t p srv le" by (auto simp: eligible_def)
    then show ?thesis using False unfolding handle_leader_election_alt meta_at_def
      by (auto simp add: Let_def fst_meta_get_put fst_meta_get_get)
  qed
qed (simp_all add: handle_leader_election_alt)

lemma claims_keep:
  "rv_registry (server_claims les srv) = rv_registry srv" "rv_cfg (server_claims les srv) = rv_cfg srv"
  by (induction les arbitrary: srv) (simp_all add: server_claims_def claim_meta)

lemma adopt_twice [simp]: "adopt me le' (adopt me le m) = adopt me le' m" "pm_epoch (adopt me le m) = le_epoch le"
  by (simp_all add: adopt_def)

lemma find_append: "find P (xs @ ys) = (case find P xs of None \<Rightarrow> find P ys | Some x \<Rightarrow> Some x)"
  by (induction xs) simp_all

lemma claims_meta:
  fixes srv :: "'cb repl_server" and t p
  defines "m0 \<equiv> meta_at t p srv" and "ok \<equiv> eligible t p srv"
  shows "pm_epoch m0 \<le> pm_epoch (meta_at t p (server_claims les srv))
    \<and> (\<forall>le \<in> set (filter ok les). le_epoch le \<le> pm_epoch (meta_at t p (server_claims les srv)))
    \<and> meta_at t p (server_claims les srv) =
        (case find (\<lambda>le. pm_epoch m0 < le_epoch le \<and> le_epoch le = pm_epoch (meta_at t p (server_claims les srv))) (filter ok les) of
           None \<Rightarrow> m0 | Some le \<Rightarrow> adopt (cfg_broker_id (rv_cfg srv)) le m0)"
proof (induction les rule: rev_induct)
  case Nil then show ?case by (simp add: server_claims_def m0_def)
next
  case (snoc le les)
  let ?s = "server_claims les srv" and ?m = "meta_at t p (server_claims les srv)"
  have step: "meta_at t p (server_claims (les @ [le]) srv) =
      (if ok le \<and> pm_epoch ?m < le_epoch le then adopt (cfg_broker_id (rv_cfg srv)) le ?m else ?m)"
    using claim_meta(3) [of t p le ?s] claims_keep [of les srv]
    by (simp add: server_claims_def ok_def eligible_def)
  show ?case
  proof (cases "ok le \<and> pm_epoch ?m < le_epoch le")
    case True
    then have "find (\<lambda>x. pm_epoch m0 < le_epoch x \<and> le_epoch x = le_epoch le) (filter ok les) = None"
      using snoc.IH by (auto simp: find_None_iff)
    moreover have "adopt (cfg_broker_id (rv_cfg srv)) le ?m = adopt (cfg_broker_id (rv_cfg srv)) le m0"
      using snoc.IH by (auto split: option.splits)
    ultimately show ?thesis using True snoc.IH unfolding step by (auto simp: find_append)
  next
    case False
    then show ?thesis using snoc.IH unfolding step by (auto simp: find_append split: option.splits)
  qed
qed

lemma serve_fetch_log:
  assumes "get_partition (fl_topic req) (fl_partition req) (rv_registry srv) = Some st" "serves st a"
    and "sl_base a \<le> unat (fl_start_offset req)" "unat (committed_offset st) - unat (fl_start_offset req) < fuel"
    and "length (fl_topic req) \<le> 255" "rv_recv_buffers srv fd = None"
    and "concat chunks = repl_frame FETCH_LOG (encode_fetch_log_req req)"
  shows "\<exists>evs srv' rs epoch st'. server_on_readable fuel fd (map RecvData chunks) srv = Some (Inr (evs, srv'))
     \<and> sent_to fd evs = stream_of (map (sync_msg (fl_topic req) (fl_partition req) epoch) rs @ [sync_end_msg (fl_topic req) (fl_partition req)])
     \<and> prefix rs (drop (unat (fl_start_offset req) - sl_base a) (sl_log a))
     \<and> (sealed_segments st = [] \<longrightarrow> unat (committed_offset st) \<le> unat (fl_start_offset req) + length rs)
     \<and> (rv_has_fetch_log_cb srv \<longrightarrow> hd evs = FetchLogCb (fl_follower_id req) (fl_topic req) (fl_partition req) fd)
     \<and> rv_registry srv' = set_partition (fl_topic req) (fl_partition req) st' (rv_registry srv) \<and> serves st' a"
proof -
  let ?cb = "if rv_has_fetch_log_cb srv then [FetchLogCb (fl_follower_id req) (fl_topic req) (fl_partition req) fd] else []"
  obtain rs epoch meta st' where r: "\<And>rest. server_handle_frame fuel fd FETCH_LOG (encode_fetch_log_req req @ rest) 270 srv
      = Some (Inr (?cb @ sends (concat (map (sync_sends (fl_topic req) (fl_partition req) epoch fd) rs))
           @ sync_end_sends (fl_topic req) (fl_partition req) fd, False,
           srv\<lparr>rv_meta := meta, rv_registry := set_partition (fl_topic req) (fl_partition req) st' (rv_registry srv)\<rparr>))"
    "serves st' a" "prefix rs (drop (unat (fl_start_offset req) - sl_base a) (sl_log a))"
    "sealed_segments st = [] \<longrightarrow> unat (committed_offset st) \<le> unat (fl_start_offset req) + length rs"
    using fetch_log_handled [OF assms(1-5), of fd] by (elim exE conjE) (rule that, auto)
  let ?evs = "?cb @ sends (concat (map (sync_sends (fl_topic req) (fl_partition req) epoch fd) rs))
      @ sync_end_sends (fl_topic req) (fl_partition req) fd"
  let ?srv = "srv\<lparr>rv_meta := meta, rv_registry := set_partition (fl_topic req) (fl_partition req) st' (rv_registry srv)\<rparr>"
  have "handles (server_handle_frame fuel fd) [(FETCH_LOG, encode_fetch_log_req req)] srv ?evs ?srv"
    using r(1) fetch_log.width_enc [OF assms(5)] by simp
  then have "repl_recv Dangling (server_handle_frame fuel fd) (map RecvData chunks) [] srv = Some (Inr (?evs, Some [], ?srv))"
    by (rule repl_recv_stream) (simp_all add: assms(7) before_end_def)
  then have "server_on_readable fuel fd (map RecvData chunks) srv = Some (Inr (?evs, ?srv\<lparr>rv_recv_buffers := (rv_recv_buffers ?srv)(fd \<mapsto> [])\<rparr>))"
    by (simp only: server_on_readable_def assms(6) option.case sum.case prod.case)
  moreover have "sent_to fd ?evs = stream_of (map (sync_msg (fl_topic req) (fl_partition req) epoch) rs @ [sync_end_msg (fl_topic req) (fl_partition req)])"
    using sent_to_syncs [OF assms(5)] by (simp add: sync_end_sends_def sync_end_msg_def)
  moreover have "rv_has_fetch_log_cb srv \<longrightarrow> hd ?evs = FetchLogCb (fl_follower_id req) (fl_topic req) (fl_partition req) fd" by simp
  ultimately show ?thesis using r(2-4) by fastforce
qed

section \<open>Properties\<close>

text \<open>A server for a topic with the given partitions, a request and some messages, for the examples.\<close>

definition example_server :: "unit store option list \<Rightarrow> unit repl_server" where
  "example_server ps =
     \<lparr>rv_cfg = config_defaults, rv_meta = Map.empty,
      rv_registry = \<lparr>tr_topics = [(''t'', ps)], tr_data_root = ''data'', tr_storage_options = default_options\<rparr>,
      rv_recv_buffers = Map.empty, rv_has_replica_ack_cb = True, rv_has_fetch_log_cb = True, rv_running = True\<rparr>"

definition example_fetch_log :: bytes where
  "example_fetch_log = repl_frame FETCH_LOG (encode_fetch_log_req
     \<lparr>fl_topic = ''t'', fl_partition = 0, fl_start_offset = 0, fl_follower_id = 2\<rparr>)"

definition example_acks :: bytes where
  "example_acks = stream_of (map (\<lambda>off. (REPLICA_ACK, encode_replica_ack
     \<lparr>ra_topic = ''t'', ra_partition = 0, ra_epoch = 1, ra_acked_offset = off, ra_follower_id = 2\<rparr>)) [5, 6])"

definition example_claim :: "u32 \<Rightarrow> u32 \<Rightarrow> leader_election" where
  "example_claim leader epoch =
     \<lparr>le_topic = ''t'', le_partition = 0, le_new_leader_id = leader, le_epoch = epoch, le_committed_offset = 3\<rparr>"

text \<open>C18. Catching up. However the follower's \<^verbatim>\<open>FETCH_LOG\<close> arrives, the server registers the follower's socket and sends it,
  as one stream of frames, consecutive records of the partition's log from the requested offset on, each
  with its offset, time and payload, and then the end mark. While no segment is sealed these are all the committed
  records. The loop needs no more rounds than there are committed records after the offset.\<close>

theorem fetch_log_streams_committed_log:
  assumes "get_partition (fl_topic req) (fl_partition req) (rv_registry srv) = Some st" "serves st a"
    and "sl_base a \<le> unat (fl_start_offset req)" "unat (committed_offset st) - unat (fl_start_offset req) < fuel"
    and "length (fl_topic req) \<le> 255" "rv_recv_buffers srv fd = None"
    and "concat chunks = repl_frame FETCH_LOG (encode_fetch_log_req req)"
  shows "\<exists>evs srv' rs epoch st'. server_on_readable fuel fd (map RecvData chunks) srv = Some (Inr (evs, srv'))
     \<and> sent_to fd evs = stream_of (map (sync_msg (fl_topic req) (fl_partition req) epoch) rs @ [sync_end_msg (fl_topic req) (fl_partition req)])
     \<and> prefix rs (drop (unat (fl_start_offset req) - sl_base a) (sl_log a))
     \<and> (sealed_segments st = [] \<longrightarrow> unat (committed_offset st) \<le> unat (fl_start_offset req) + length rs)
     \<and> (rv_has_fetch_log_cb srv \<longrightarrow> hd evs = FetchLogCb (fl_follower_id req) (fl_topic req) (fl_partition req) fd)
     \<and> rv_registry srv' = set_partition (fl_topic req) (fl_partition req) st' (rv_registry srv) \<and> serves st' a"
  using assms by (rule serve_fetch_log)

theorem fetch_log_streams_committed_log_witness:
  "\<exists>(st :: unit store) evs srv' epoch. PartitionStore one_record_dir default_options 0 = Inr st
     \<and> server_on_readable 2 7 [RecvData (take 100 example_fetch_log), RecvData (drop 100 example_fetch_log)] (example_server [Some st])
         = Some (Inr (evs, srv'))
     \<and> hd evs = FetchLogCb 2 ''t'' 0 7
     \<and> sent_to 7 evs = stream_of [sync_msg ''t'' 0 epoch first_record, sync_end_msg ''t'' 0]"
proof -
  obtain st :: "unit store" where st: "PartitionStore one_record_dir default_options 0 = Inr st"
    "serves st \<lparr>sl_base = 0, sl_log = [first_record], sl_pending = []\<rparr>" "sealed_segments st = []" "st_committed_offset st = 1"
    by (rule one_record_store)
  let ?req = "\<lparr>fl_topic = ''t'', fl_partition = 0, fl_start_offset = 0, fl_follower_id = 2\<rparr>"
  let ?chunks = "[take 100 example_fetch_log, drop 100 example_fetch_log]"
  have "get_partition ''t'' 0 (rv_registry (example_server [Some st])) = Some st" by (simp add: get_partition_def example_server_def)
  then obtain evs srv' rs epoch where r:
    "server_on_readable 2 7 (map RecvData ?chunks) (example_server [Some st]) = Some (Inr (evs, srv'))"
    "sent_to 7 evs = stream_of (map (sync_msg ''t'' 0 epoch) rs @ [sync_end_msg ''t'' 0])"
    "prefix rs [first_record]" "1 \<le> length rs" "hd evs = FetchLogCb 2 ''t'' 0 7"
    using fetch_log_streams_committed_log [of ?req "example_server [Some st]" st _ 2 7 ?chunks, OF _ st(2)] st(3,4)
    by (auto simp: example_server_def example_fetch_log_def committed_offset_def)
  have "rs = [first_record]" using r(3,4) by (cases rs) (auto simp: prefix_Cons)
  then show ?thesis using st(1) r(1,2,5) by (intro exI [of _ st] exI [of _ evs] exI [of _ srv'] exI [of _ epoch]) simp
qed

text \<open>C27. Acknowledgements. However a follower's stream of \<^verbatim>\<open>REPLICA_ACK\<close> frames is cut into reads, the broker's callback is called
  once for each frame, in order, with the follower, offset and partition the follower wrote.\<close>

theorem acks_reach_broker_in_order:
  assumes "\<forall>ack \<in> set acks. length (ra_topic ack) \<le> 255" "rv_recv_buffers srv fd = None" "rv_has_replica_ack_cb srv"
    and "concat chunks = stream_of (map (\<lambda>ack. (REPLICA_ACK, encode_replica_ack ack)) acks)"
  shows "server_on_readable fuel fd (map RecvData chunks) srv
     = Some (Inr (map (\<lambda>ack. ReplicaAckCb (ra_follower_id ack) (ra_acked_offset ack) (ra_topic ack) (ra_partition ack)) acks,
                  srv\<lparr>rv_recv_buffers := (rv_recv_buffers srv)(fd \<mapsto> [])\<rparr>))"
proof -
  have "concat (map (\<lambda>ack. handle_replica_ack ack srv) acks)
      = map (\<lambda>ack. ReplicaAckCb (ra_follower_id ack) (ra_acked_offset ack) (ra_topic ack) (ra_partition ack)) acks"
    using assms(3) by (induction acks) (simp_all add: handle_replica_ack_def)
  then have "repl_recv Dangling (server_handle_frame fuel fd) (map RecvData chunks) [] srv
      = Some (Inr (map (\<lambda>ack. ReplicaAckCb (ra_follower_id ack) (ra_acked_offset ack) (ra_topic ack) (ra_partition ack)) acks, Some [], srv))"
    using repl_recv_stream [OF acks_handled [OF assms(1), of fuel fd srv], of "[]" chunks Dangling] assms(4)
    by (simp add: before_end_def split: list.split)
  then show ?thesis by (simp add: server_on_readable_def assms(2))
qed

theorem acks_reach_broker_in_order_witness:
  "server_on_readable 0 7 [RecvData (take 3 example_acks), RecvData (drop 3 example_acks)] (example_server ([] :: unit store option list))
     = Some (Inr ([ReplicaAckCb 2 5 ''t'' 0, ReplicaAckCb 2 6 ''t'' 0],
          (example_server [])\<lparr>rv_recv_buffers := [7 \<mapsto> []]\<rparr>))"
proof -
  let ?ack = "\<lambda>off. \<lparr>ra_topic = ''t'', ra_partition = 0, ra_epoch = 1, ra_acked_offset = off, ra_follower_id = 2\<rparr>"
  have "concat [take 3 example_acks, drop 3 example_acks] = stream_of (map (\<lambda>ack. (REPLICA_ACK, encode_replica_ack ack)) (map ?ack [5, 6]))"
    by (simp only: concat.simps append_take_drop_id append_Nil2) (simp add: example_acks_def)
  from acks_reach_broker_in_order [OF _ _ _ this, of "example_server []" 7 0] show ?thesis by (simp add: example_server_def)
qed

text \<open>C29. Leadership. After any sequence of \<^verbatim>\<open>LEADER_ELECTION\<close> claims, a broker follows the first claim with the highest epoch among
  those newer than what it had and not behind its own committed log; without such a claim
  nothing has changed. In particular it never follows two leaders in one epoch.\<close>

theorem highest_epoch_claim_wins:
  "pm_epoch (meta_at t p srv) \<le> pm_epoch (meta_at t p (server_claims les srv))
    \<and> (\<forall>le \<in> set (filter (eligible t p srv) les). le_epoch le \<le> pm_epoch (meta_at t p (server_claims les srv)))
    \<and> meta_at t p (server_claims les srv) =
        (case find (\<lambda>le. pm_epoch (meta_at t p srv) < le_epoch le \<and> le_epoch le = pm_epoch (meta_at t p (server_claims les srv)))
                (filter (eligible t p srv) les) of
           None \<Rightarrow> meta_at t p srv
         | Some le \<Rightarrow> adopt (cfg_broker_id (rv_cfg srv)) le (meta_at t p srv))"
  by (rule claims_meta)

theorem highest_epoch_claim_wins_witness:
  "pm_leader_id (meta_at ''t'' 0 (server_claims [example_claim 1 4, example_claim 2 5, example_claim 0 5, example_claim 0 3]
     (example_server ([] :: unit store option list)))) = 2"
proof -
  let ?les = "[example_claim 1 4, example_claim 2 5, example_claim 0 5, example_claim 0 3]" and ?srv = "example_server ([] :: unit store option list)"
  let ?m = "meta_at ''t'' 0 (server_claims ?les ?srv)"
  have m0: "pm_epoch (meta_at ''t'' 0 ?srv) = 0" by (simp add: meta_at_def meta_get_def example_server_def new_meta_def)
  have ok: "filter (eligible ''t'' 0 ?srv) ?les = ?les"
    by (simp add: eligible_def example_claim_def example_server_def get_partition_def)
  note w = highest_epoch_claim_wins [of "''t''" 0 ?srv ?les, unfolded ok m0]
  then have "5 \<le> pm_epoch ?m" by (simp add: example_claim_def)
  moreover from w have "?m = (case find (\<lambda>le. 0 < le_epoch le \<and> le_epoch le = pm_epoch ?m) ?les of
      None \<Rightarrow> meta_at ''t'' 0 ?srv | Some le \<Rightarrow> adopt (cfg_broker_id (rv_cfg ?srv)) le (meta_at ''t'' 0 ?srv))" by blast
  ultimately show ?thesis
    by (auto simp: example_claim_def adopt_def m0 split: if_splits option.splits dest: arg_cong [where f = pm_epoch])
qed

text \<open>Five bytes from any connection make the server read behind the end of its receive buffer: a length of zero passes the
  size check, and the payload length \<^verbatim>\<open>len - 1\<close> wraps around.\<close>

theorem zero_length_frame_reads_past_buffer:
  assumes "rv_recv_buffers srv fd = None" "op \<in> {FETCH_LOG, REPLICA_ACK, HEARTBEAT, LEADER_ELECTION}"
  shows "server_on_readable fuel fd (RecvData [0, 0, 0, 0, op] # rs) srv = Some (Inl OutOfBounds)"
proof -
  have z: "be32_to_host (load32 (bytes_at 0 4 [0, 0, 0, 0, op])) = 0" by (simp add: bytes_at_def read_be32_def)
  have m: "unat (0 - 1 :: u32) = 4294967295" by (simp add: unsigned_minus_1_eq_mask mask_eq_exp_minus_1)
  have "server_handle_frame fuel fd op [] 4294967295 srv = Some (Inl OutOfBounds)"
    using assms(2) by (auto simp: server_handle_frame_def sizeof_repl_defs FETCH_LOG_def REPLICA_ACK_def HEARTBEAT_def LEADER_ELECTION_def)
  then have "repl_frames Dangling (server_handle_frame fuel fd) [0, 0, 0, 0, op] srv = Some (Inl OutOfBounds)"
    unfolding repl_frames.simps [of Dangling _ "[0, 0, 0, 0, op]"] Let_def z m by simp
  then show ?thesis by (simp add: server_on_readable_def assms(1))
qed

theorem zero_length_frame_reads_past_buffer_witness:
  "server_on_readable 0 7 [RecvData [0, 0, 0, 0, HEARTBEAT]] (example_server ([] :: unit store option list)) = Some (Inl OutOfBounds)"
  by (rule zero_length_frame_reads_past_buffer) (simp_all add: example_server_def)

text \<open>A \<^verbatim>\<open>FETCH_LOG\<close> for a partition the broker does not have makes the server use its receive buffer after it was erased.\<close>

theorem unknown_partition_fetch_uses_erased_buffer:
  assumes "get_partition (fl_topic req) (fl_partition req) (rv_registry srv) = None" "length (fl_topic req) \<le> 255"
    and "rv_recv_buffers srv fd = None"
  shows "server_on_readable fuel fd (RecvData (repl_frame FETCH_LOG (encode_fetch_log_req req)) # rs) srv = Some (Inl Dangling)"
proof -
  have "server_handle_frame fuel fd FETCH_LOG (encode_fetch_log_req req) 270 srv = handle_fetch_log fuel fd req srv"
    using fetch_log.read_enc [OF assms(2), of "[]"] fetch_log.width_enc [OF assms(2)]
    by (simp add: server_handle_frame_def sizeof_repl_defs)
  then have "repl_frames Dangling (server_handle_frame fuel fd) (repl_frame FETCH_LOG (encode_fetch_log_req req) @ []) srv = Some (Inl Dangling)"
    using fetch_log.width_enc [OF assms(2)]
    by (subst repl_frames_step) (simp_all add: handle_fetch_log_def assms(1) forget_connection_def)
  then show ?thesis by (simp add: server_on_readable_def assms(3))
qed

theorem unknown_partition_fetch_uses_erased_buffer_witness:
  "server_on_readable 9 7 [RecvData example_fetch_log] (example_server ([] :: unit store option list)) = Some (Inl Dangling)"
  unfolding example_fetch_log_def
  by (rule unknown_partition_fetch_uses_erased_buffer) (simp_all add: example_server_def get_partition_def)

end
