(* ===== verification/Fell_Replication_Client.thy ===== *)
theory Fell_Replication_Client
  imports Fell_Replication_Server
begin

text \<open>
  \<^verbatim>\<open>replication/replication_client.cpp\<close>: the follower's side of one partition. The results of \<^verbatim>\<open>connect\<close> and \<^verbatim>\<open>recv\<close>, and
  the clock, are arguments. The commit callback the client registers is determined by the header it
  captures, so the partitions of a follower carry headers as callbacks. The progress of a partition's I/O
  thread between two looks at the partition is an argument as well.
\<close>

section \<open>Definitions\<close>

type_synonym follower_store = "replica_sync_header store"

record repl_client =
  rc_topic :: string
  rc_partition :: u16
  rc_cfg :: cluster_config
  rc_meta :: meta_registry
  rc_registry :: "replica_sync_header topic_registry"
  rc_fd :: "int option"
  rc_notify_write_fd :: "int option"
  rc_recv_buf :: bytes
  rc_out_acks :: "replica_ack list"
  rc_running :: bool

definition ReplicationClient ::
  "string \<Rightarrow> u16 \<Rightarrow> cluster_config \<Rightarrow> meta_registry \<Rightarrow> replica_sync_header topic_registry \<Rightarrow> repl_client" where
  "ReplicationClient topic part cfg meta reg =
     \<lparr>rc_topic = topic, rc_partition = part, rc_cfg = cfg, rc_meta = meta, rc_registry = reg, rc_fd = None,
      rc_notify_write_fd = None, rc_recv_buf = [], rc_out_acks = [], rc_running = False\<rparr>"

definition client_start :: "int \<Rightarrow> int \<Rightarrow> repl_client \<Rightarrow> effect list \<times> repl_client" where
  "client_start notify_read_fd notify_write_fd rc =
     (if rc_running rc then ([], rc)
      else ([PollerAdd notify_read_fd], rc\<lparr>rc_notify_write_fd := Some notify_write_fd, rc_running := True\<rparr>))"

definition wake :: "repl_client \<Rightarrow> effect list" where
  "wake rc = (case rc_notify_write_fd rc of None \<Rightarrow> [] | Some fd \<Rightarrow> [SendData fd [1]])"

definition client_stop :: "repl_client \<Rightarrow> effect list \<times> repl_client" where
  "client_stop rc = (if \<not> rc_running rc then ([], rc) else (wake rc, rc\<lparr>rc_running := False\<rparr>))"

text \<open>The five lines that drop the connection to the leader.\<close>

definition disconnect :: "repl_client \<Rightarrow> effect list \<times> repl_client" where
  "disconnect rc =
     ((case rc_fd rc of None \<Rightarrow> [] | Some fd \<Rightarrow> [PollerRemove fd, CloseSocket fd]), rc\<lparr>rc_fd := None, rc_recv_buf := []\<rparr>)"

subsection \<open>Requests\<close>

definition build_fetch_log_request :: "repl_client \<Rightarrow> fetch_log_req" where
  "build_fetch_log_request rc =
     \<lparr>fl_topic = take 255 (rc_topic rc), fl_partition = rc_partition rc,
      fl_start_offset = (case get_partition (rc_topic rc) (rc_partition rc) (rc_registry rc) of
                           None \<Rightarrow> 0 | Some p \<Rightarrow> committed_offset p),
      fl_follower_id = cfg_broker_id (rc_cfg rc)\<rparr>"

definition send_fetch_log :: "repl_client \<Rightarrow> effect list" where
  "send_fetch_log rc =
     (case rc_fd rc of None \<Rightarrow> [] | Some fd \<Rightarrow> struct_sends fd FETCH_LOG (encode_fetch_log_req (build_fetch_log_request rc)))"

subsection \<open>Elections\<close>

text \<open>\<^verbatim>\<open>connect_socket\<close> as a function from host and port to a socket.\<close>

type_synonym connector = "string \<Rightarrow> u16 \<Rightarrow> int option"

definition broadcast_election :: "connector \<Rightarrow> broker_addr \<Rightarrow> leader_election \<Rightarrow> effect list" where
  "broadcast_election cn peer le =
     (case cn (ba_host peer) (ba_repl_port peer) of
        None \<Rightarrow> []
      | Some s \<Rightarrow> struct_sends s LEADER_ELECTION (encode_leader_election le) @ [CloseSocket s])"

definition maybe_elect_self :: "connector \<Rightarrow> repl_client \<Rightarrow> effect list \<times> repl_client" where
  "maybe_elect_self cn rc =
     (case get_partition (rc_topic rc) (rc_partition rc) (rc_registry rc) of
        None \<Rightarrow> ([], rc)
      | Some p \<Rightarrow>
          (case meta_get (rc_topic rc) (rc_partition rc) (rc_meta rc) of
             (m, meta) \<Rightarrow>
               if pm_role m = Candidate then ([], rc\<lparr>rc_meta := meta\<rparr>)
               else let m' = m\<lparr>pm_role := Candidate, pm_epoch := pm_epoch m + 1\<rparr>;
                        le = \<lparr>le_topic = take 255 (rc_topic rc), le_partition = rc_partition rc,
                              le_new_leader_id = cfg_broker_id (rc_cfg rc), le_epoch = pm_epoch m',
                              le_committed_offset = committed_offset p\<rparr>
                    in (concat (map (\<lambda>peer. broadcast_election cn peer le)
                          (filter (\<lambda>peer. ba_broker_id peer \<noteq> cfg_broker_id (rc_cfg rc)) (cfg_peers (rc_cfg rc)))),
                        rc\<lparr>rc_meta := meta(make_key (rc_topic rc) (rc_partition rc) \<mapsto> m')\<rparr>)))"

definition connect_to_leader :: "connector \<Rightarrow> repl_client \<Rightarrow> effect list \<times> repl_client" where
  "connect_to_leader cn rc =
     (if rc_fd rc \<noteq> None then ([], rc)
      else case meta_get (rc_topic rc) (rc_partition rc) (rc_meta rc) of
             (m, meta) \<Rightarrow>
               let rc1 = rc\<lparr>rc_meta := meta\<rparr>
               in if pm_leader_id m = cfg_broker_id (rc_cfg rc) then maybe_elect_self cn rc1
                  else case find (\<lambda>peer. ba_broker_id peer = pm_leader_id m) (cfg_peers (rc_cfg rc)) of
                         None \<Rightarrow> ([], rc1)
                       | Some addr \<Rightarrow>
                           (case cn (ba_host addr) (ba_repl_port addr) of
                              Some fd \<Rightarrow> let rc2 = rc1\<lparr>rc_fd := Some fd\<rparr> in (PollerAdd fd # send_fetch_log rc2, rc2)
                            | None \<Rightarrow> maybe_elect_self cn rc1))"

subsection \<open>Records from the leader\<close>

text \<open>The commit callback: it queues an acknowledgement and wakes the client's thread.\<close>

definition ack_of :: "cluster_config \<Rightarrow> replica_sync_header \<Rightarrow> replica_ack" where
  "ack_of cfg hdr =
     \<lparr>ra_topic = sy_topic hdr, ra_partition = sy_partition hdr, ra_epoch = sy_epoch hdr,
      ra_acked_offset = sy_offset hdr + 1, ra_follower_id = cfg_broker_id cfg\<rparr>"

fun run_callbacks :: "replica_sync_header store_event list \<Rightarrow> repl_client \<Rightarrow> effect list \<times> repl_client" where
  "run_callbacks [] rc = ([], rc)"
| "run_callbacks (CallOnce hdr # evs) rc =
     (case run_callbacks evs (rc\<lparr>rc_out_acks := rc_out_acks rc @ [ack_of (rc_cfg rc) hdr]\<rparr>) of
        (es, rc') \<Rightarrow> (wake rc @ es, rc'))"
| "run_callbacks (_ # evs) rc = run_callbacks evs rc"

text \<open>What the partition's I/O thread does before the client looks at the partition: the callbacks it calls, and the new state.\<close>

type_synonym io_progress = "follower_store \<Rightarrow> replica_sync_header store_event list \<times> follower_store"

text \<open>\<open>avail\<close> is what the buffer holds behind the header. The boolean says whether the receive buffer was cleared.\<close>

definition on_replica_sync ::
  "io_progress \<Rightarrow> u64 \<Rightarrow> replica_sync_header \<Rightarrow> bytes \<Rightarrow> repl_client
     \<Rightarrow> fault + effect list \<times> bool \<times> repl_client" where
  "on_replica_sync io now hdr avail rc =
     (let topic = sy_topic hdr; part = sy_partition hdr
      in case get_partition topic part (rc_registry rc) of
           None \<Rightarrow> Inr ([], False, rc)
         | Some p0 \<Rightarrow>
             (case io p0 of
                (ios, p) \<Rightarrow>
                  (case run_callbacks ios (rc\<lparr>rc_registry := set_partition topic part p (rc_registry rc)\<rparr>) of
                     (evs0, rc0) \<Rightarrow>
                       if sy_offset hdr \<noteq> next_offset p
                       then (case disconnect rc0 of (evs, rc') \<Rightarrow> Inr (evs0 @ evs, True, rc'))
                       else if length avail < unat (sy_payload_size hdr) then Inl OutOfBounds
                       else (case set_once_commit_callback (sy_offset hdr) hdr p of
                               (p1, calls) \<Rightarrow>
                                 (case run_callbacks calls rc0 of
                                    (evs1, rc1) \<Rightarrow>
                                      (case store_append now (take (unat (sy_payload_size hdr)) avail) p1 of
                                         (result, p2) \<Rightarrow>
                                           let rc2 = rc1\<lparr>rc_registry := set_partition topic part p2 (rc_registry rc1)\<rparr>
                                           in if \<not> ar_accepted result
                                              then (case disconnect rc2 of (evs2, rc') \<Rightarrow> Inr (evs0 @ evs1 @ evs2, True, rc'))
                                              else Inr (evs0 @ evs1, False, rc2)))))))"

definition client_handle_frame ::
  "io_progress \<Rightarrow> u64 \<Rightarrow> repl_client frame_handler" where
  "client_handle_frame io now opcode avail n rc =
     (if opcode = REPLICA_SYNC \<and> n \<ge> sizeof_ReplicaSyncHeader then
        (if length avail < sizeof_ReplicaSyncHeader then Some (Inl OutOfBounds)
         else Some (on_replica_sync io now (decode_replica_sync_header avail) (drop sizeof_ReplicaSyncHeader avail) rc))
      else Some (Inr ([], False, rc)))"

text \<open>After \<^verbatim>\<open>recv_buf_.clear()\<close> the frame is erased from an empty vector.\<close>

definition client_on_readable ::
  "io_progress \<Rightarrow> u64 \<Rightarrow> recv_result list \<Rightarrow> repl_client
     \<Rightarrow> (fault + effect list \<times> repl_client) option" where
  "client_on_readable io now rs rc =
     (case repl_recv OutOfBounds (client_handle_frame io now) rs (rc_recv_buf rc) rc of
        None \<Rightarrow> None
      | Some (Inl e) \<Rightarrow> Some (Inl e)
      | Some (Inr (evs, Some buf, rc1)) \<Rightarrow> Some (Inr (evs, rc1\<lparr>rc_recv_buf := buf\<rparr>))
      | Some (Inr (evs, None, rc1)) \<Rightarrow> (case disconnect rc1 of (evs', rc2) \<Rightarrow> Some (Inr (evs @ evs', rc2))))"

subsection \<open>event\_loop\<close>

definition flush_acks :: "repl_client \<Rightarrow> effect list \<times> repl_client" where
  "flush_acks rc =
     ((case rc_fd rc of
         None \<Rightarrow> []
       | Some fd \<Rightarrow> concat (map (\<lambda>ack. struct_sends fd REPLICA_ACK (encode_replica_ack ack)) (rc_out_acks rc))),
      rc\<lparr>rc_out_acks := []\<rparr>)"

datatype client_event =
    ClientNotify
  | ClientSocket bool bool "recv_result list"  \<comment> \<open>\<^verbatim>\<open>PF_HUP\<close>, \<^verbatim>\<open>PF_READ\<close>\<close>

fun client_poll_event ::
  "io_progress \<Rightarrow> u64 \<Rightarrow> client_event \<Rightarrow> repl_client \<Rightarrow> (fault + effect list \<times> repl_client) option" where
  "client_poll_event io now ClientNotify rc = Some (Inr (flush_acks rc))"
| "client_poll_event io now (ClientSocket hup readable rs) rc =
     (if hup then Some (Inr (disconnect rc))
      else if readable then client_on_readable io now rs rc
      else Some (Inr ([], rc)))"

text \<open>One turn of the loop, with the events its \<^verbatim>\<open>wait\<close> reports.\<close>

fun client_events ::
  "io_progress \<Rightarrow> u64 \<Rightarrow> client_event list \<Rightarrow> repl_client \<Rightarrow> (fault + effect list \<times> repl_client) option" where
  "client_events io now [] rc = Some (Inr ([], rc))"
| "client_events io now (ev # evs) rc =
     (case client_poll_event io now ev rc of
        None \<Rightarrow> None
      | Some (Inl e) \<Rightarrow> Some (Inl e)
      | Some (Inr (es, rc1)) \<Rightarrow>
          (case client_events io now evs rc1 of
             None \<Rightarrow> None
           | Some (Inl e) \<Rightarrow> Some (Inl e)
           | Some (Inr (es', rc2)) \<Rightarrow> Some (Inr (es @ es', rc2))))"

definition client_turn ::
  "connector \<Rightarrow> io_progress \<Rightarrow> u64 \<Rightarrow> client_event list \<Rightarrow> repl_client
     \<Rightarrow> (fault + effect list \<times> repl_client) option" where
  "client_turn cn io now evs rc =
     (case (if rc_fd rc = None then connect_to_leader cn rc else ([], rc)) of
        (es, rc1) \<Rightarrow>
          (case client_events io now evs rc1 of
             None \<Rightarrow> None
           | Some (Inl e) \<Rightarrow> Some (Inl e)
           | Some (Inr (es', rc2)) \<Rightarrow> Some (Inr (es @ es', rc2))))"

end
