(* ===== verification/Fell_Replication_Properties.thy ===== *)
theory Fell_Replication_Properties
  imports Fell_Replication_Client Fell_Request_Handler
begin

text \<open>
  The follower: what a stream of records from the leader does to the follower's log and which
  acknowledgements it sends back; what happens when the follower's I/O thread is slower than the
  stream; and what an election leads to.
\<close>

section \<open>Definitions\<close>

definition settled :: "spec_log \<Rightarrow> spec_log" where
  "settled a = \<lparr>sl_base = sl_base a, sl_log = sl_log a @ sl_pending a, sl_pending = []\<rparr>"

text \<open>A partition whose I/O thread is between two batches.\<close>

definition idle :: "storage_options \<Rightarrow> 'cb store \<Rightarrow> spec_log \<Rightarrow> bool" where
  "idle opts st a \<longleftrightarrow> \<not> shutdown st \<and> max_batch_bytes opts < 2 ^ 60
     \<and> (\<exists>s. partition_rel opts s a \<and> sys_pc s = IoTake \<and> sys_store s = st)"

definition due :: "spec_log \<Rightarrow> 'cb store \<Rightarrow> bool" where
  "due a st \<longleftrightarrow> (\<forall>e \<in> set (once_callbacks st). unat (fst e) < log_end a)"

text \<open>The I/O thread commits everything that is queued and calls the callbacks of these records before the partition is
  looked at again.\<close>

definition commits :: "storage_options \<Rightarrow> io_progress \<Rightarrow> bool" where
  "commits opts io \<longleftrightarrow> (\<forall>st a. idle opts st a \<and> due a st \<longrightarrow>
     idle opts (snd (io st)) (settled a) \<and> once_callbacks (snd (io st)) = [] \<and> mset (called (fst (io st))) = mset (waiting st))"

section \<open>One record\<close>

lemma run_callbacks_eq:
  "\<exists>evs. run_callbacks es rc = (evs, rc\<lparr>rc_out_acks := rc_out_acks rc @ map (ack_of (rc_cfg rc)) (called es)\<rparr>)"
proof (induction es rc rule: run_callbacks.induct)
  case (2 hdr evs rc)
  then show ?case by (auto split: prod.split)
qed auto

lemma idle_settled_next:
  assumes "idle opts st (settled a)"
  shows "next_offset st = of_nat (log_end a)" "committed_offset st = of_nat (log_end a)" "queue st = []" "pending_bytes st = 0"
    "options st = opts" "\<not> shutdown st"
proof -
  obtain s segs where s: "sys_inv opts segs s" "settled a = abs_of segs s" "sys_pc s = IoTake" "sys_store s = st"
    using assms by (auto simp: idle_def partition_rel_def)
  have "unat (sw_next_offset (writer st)) = sl_base (settled a) + length (sl_log (settled a))"
    using sys_inv_end(1) [OF s(1)] s(2,4) by simp
  then have "unat (sw_next_offset (writer st)) = log_end a" by (simp add: settled_def log_end_def)
  then show n: "next_offset st = of_nat (log_end a)" unfolding next_offset_def by (metis of_nat_unat ucast_id)
  show "committed_offset st = of_nat (log_end a)"
    using sys_invD(4) [OF s(1)] s(3,4) n by (simp add: committed_offset_def next_offset_def)
  show q: "queue st = []" using arg_cong [OF s(2), of sl_pending] s(3,4) by (simp add: settled_def abs_of_def)
  show "pending_bytes st = 0" using sys_invD(3) [OF s(1)] s(3,4) q by (simp add: queue_ok_def payload_bytes_def)
  show "options st = opts" using sys_invD(1) [OF s(1)] s(4) by simp
  show "\<not> shutdown st" using assms by (simp add: idle_def)
qed

lemma idle_step:
  assumes "partition_rel opts s a" "max_batch_bytes opts < 2 ^ 60" "sys_step whole_writes s s'"
    and "sys_pc s' = IoTake" "queue (sys_store s') = new" "st_next_offset (sys_store s') = st_next_offset (sys_store s) + of_nat k"
    and "sl_pending a = []" "length new = k" "log_end a + k < 2 ^ 64"
  shows "partition_rel opts s' (a\<lparr>sl_pending := new\<rparr>)"
proof -
  obtain a' where a': "partition_rel opts s' a'" "spec_step\<^sup>*\<^sup>* a a'" using partition_rel_step [OF assms(1,3,2)] by blast
  have p: "sl_pending a' = new" using partition_rel_next(2) [OF a'(1)] assms(4,5) by simp
  note grow = spec_steps_grow [OF a'(2)]
  note n = partition_rel_next(1) [OF assms(1)] partition_rel_next(1) [OF a'(1)]
  have "unat (st_next_offset (sys_store s')) = unat (st_next_offset (sys_store s)) + k"
    unfolding assms(6) using assms(7,9) n(1) by (intro unat_add_u64) (simp add: log_end_def)
  then have "length (sl_log a') = length (sl_log a)" using n grow p assms(7,8) by simp
  then have "sl_log a' = sl_log a" using grow assms(7) by (auto simp: prefix_def)
  then have "a' = a\<lparr>sl_pending := new\<rparr>" using grow p by simp
  then show ?thesis using a'(1) by simp
qed

lemma idle_register:
  assumes "idle opts st a" "sl_pending a = []" "committed_offset st \<le> off"
  obtains st' where "set_once_commit_callback off cb st = (st', [])" "idle opts st' a"
    "once_callbacks st' = once_insert (once_callbacks st) off cb"
proof -
  obtain s where s: "partition_rel opts s a" "sys_pc s = IoTake" "sys_store s = st" "\<not> shutdown st" "max_batch_bytes opts < 2 ^ 60"
    using assms(1) by (auto simp: idle_def)
  let ?st = "st\<lparr>once_callbacks := once_insert (once_callbacks st) off cb\<rparr>"
  have r: "set_once_commit_callback off cb (sys_store s) = (?st, [])"
    using assms(3) s(3) by (simp add: set_once_commit_callback_def committed_offset_def)
  let ?s = "sys_emit ?st (sys_pc s) [] (s\<lparr>sys_registered := sys_registered s @ [cb]\<rparr>)"
  have "sys_step whole_writes s ?s" by (rule sys_step.client [OF register [OF r]])
  moreover have "log_end a < 2 ^ 64" using partition_rel_next(1) [OF s(1)] unat_lt_u64 by (metis log_end_def length_append add.assoc)
  moreover have "queue (sys_store s) = []" using partition_rel_next(2) [OF s(1)] assms(2) by simp
  ultimately have "partition_rel opts ?s (a\<lparr>sl_pending := []\<rparr>)"
    using assms(2) s by (intro idle_step [OF s(1,5), of ?s "[]" 0]) simp_all
  then have "partition_rel opts ?s a" using assms(2) by (cases a) simp
  then have "idle opts ?st a" using s unfolding idle_def by (intro conjI exI [of _ ?s]) simp_all
  then show thesis using r s(3) by (intro that [of ?st]) simp_all
qed

lemma idle_append:
  assumes "idle opts st (settled a)" "length payload < 2 ^ 32" "length payload \<le> max_pending_bytes opts" "0 < queue_capacity opts"
    and "log_end a + 1 < 2 ^ 64"
  obtains ts st' where "store_append now payload st = (append_ok (of_nat (log_end a)), st')"
    "idle opts st' ((settled a)\<lparr>sl_pending := [\<lparr>rec_offset = of_nat (log_end a), rec_timestamp_ms = ts, rec_payload = payload\<rparr>]\<rparr>)"
    "once_callbacks st' = once_callbacks st"
proof -
  note n = idle_settled_next [OF assms(1)]
  obtain s where s: "partition_rel opts s (settled a)" "sys_pc s = IoTake" "sys_store s = st" "max_batch_bytes opts < 2 ^ 60"
    using assms(1) by (auto simp: idle_def)
  have end': "log_end (settled a) = log_end a" by (simp add: log_end_def settled_def)
  have "unat (st_next_offset st) = log_end a"
    using partition_rel_next(1) [OF s(1)] s(3) by (simp add: settled_def log_end_def)
  then have nxt: "st_next_offset st = of_nat (log_end a)" "unat (st_next_offset st) + 1 < 2 ^ 64"
    using assms(5) by (metis of_nat_unat ucast_id, simp)
  obtain ts st1 where ts: "get_cached_timestamp_locked now st = (ts, st1)" by fastforce
  then have st1: "st_next_offset st1 = st_next_offset st" "queue st1 = []" "once_callbacks st1 = once_callbacks st"
    "shutdown st1 = shutdown st"
    using n(3) by (auto simp: get_cached_timestamp_locked_def Let_def)
  let ?r = "\<lparr>rec_offset = of_nat (log_end a), rec_timestamp_ms = ts, rec_payload = payload\<rparr>"
  obtain st' where run: "store_append now payload st = (append_ok (of_nat (log_end a)), st')" and st': "queue st' = [?r]"
    "st_next_offset st' = st_next_offset st + of_nat 1" "once_callbacks st' = once_callbacks st" "shutdown st' = shutdown st"
    using n assms(3,4) st1 by (simp add: store_append_def ts nxt(1))
  let ?s = "sys_emit st' (sys_pc s) [] s"
  have "sys_step whole_writes s ?s" using run assms(2) nxt(2) s(3) by (intro sys_step.client append) auto
  then have "partition_rel opts ?s ((settled a)\<lparr>sl_pending := [?r]\<rparr>)"
    using s st' assms(5) end' by (intro idle_step [OF s(1,4), where k = 1]) (simp_all add: settled_def)
  then have "idle opts st' ((settled a)\<lparr>sl_pending := [?r]\<rparr>)"
    using s n(6) st'(4) unfolding idle_def by (intro conjI exI [of _ ?s]) simp_all
  then show thesis using run st'(3) by (intro that)
qed

text \<open>When at most one callback waits, a thread that keeps up calls exactly it.\<close>

lemma commitsD:
  assumes "commits opts io" "idle opts st a" "due a st" "length (waiting st) \<le> 1"
  obtains ios st1 where "io st = (ios, st1)" "idle opts st1 (settled a)" "once_callbacks st1 = []" "called ios = waiting st"
proof -
  obtain ios st1 where i: "io st = (ios, st1)" by fastforce
  then have c: "idle opts st1 (settled a)" "once_callbacks st1 = []" "mset (called ios) = mset (waiting st)"
    using assms(1-3) by (auto simp: commits_def dest!: spec)
  then have "called ios = waiting st" using assms(4) by (cases "waiting st") (auto dest: mset_eq_length)
  then show thesis using i c(1,2) by (intro that)
qed

text \<open>A record that continues the log is appended at its offset and its acknowledgement is prepared; the acknowledgements of the
  records before it are queued.\<close>

lemma sync_one:
  assumes st: "get_partition t p (rc_registry rc) = Some st"
    and i: "io st = (ios, st1)" and st1: "idle opts st1 (settled a)" "once_callbacks st1 = []" "called ios = waiting st"
    and r: "rec_offset r = of_nat (log_end a)" "length (rec_payload r) + 288 < 2 ^ 32" "length (rec_payload r) \<le> max_pending_bytes opts"
    and ok: "length t \<le> 255" "0 < queue_capacity opts" "log_end a + 1 < 2 ^ 64"
  obtains evs rc' st' ts where
    "\<And>rest. client_handle_frame io now (fst (sync_msg t p epoch r)) (snd (sync_msg t p epoch r) @ rest) (length (snd (sync_msg t p epoch r))) rc
       = Some (Inr (evs, False, rc'))"
    "get_partition t p (rc_registry rc') = Some st'"
    "idle opts st' ((settled a)\<lparr>sl_pending := [r\<lparr>rec_timestamp_ms := ts\<rparr>]\<rparr>)"
    "once_callbacks st' = [(rec_offset r, [sync_header_of t p epoch r])]"
    "rc_out_acks rc' = rc_out_acks rc @ map (ack_of (rc_cfg rc)) (waiting st)"
    "rc_cfg rc' = rc_cfg rc" "rc_fd rc' = rc_fd rc" "rc_recv_buf rc' = rc_recv_buf rc"
proof -
  let ?h = "sync_header_of t p epoch r"
  note n = idle_settled_next [OF st1(1)]
  obtain st2 where st2: "set_once_commit_callback (rec_offset r) ?h st1 = (st2, [])" "idle opts st2 (settled a)"
    "once_callbacks st2 = [(rec_offset r, [?h])]"
    by (rule idle_register [OF st1(1), of "rec_offset r" ?h]) (use n(2) r(1) st1(2) in \<open>simp_all add: settled_def\<close>)
  obtain ts st3 where st3: "store_append now (rec_payload r) st2 = (append_ok (of_nat (log_end a)), st3)"
    "idle opts st3 ((settled a)\<lparr>sl_pending := [\<lparr>rec_offset = of_nat (log_end a), rec_timestamp_ms = ts, rec_payload = rec_payload r\<rparr>]\<rparr>)"
    "once_callbacks st3 = once_callbacks st2"
    by (rule idle_append [OF st2(2), of "rec_payload r"]) (use r(2,3) ok(2,3) in simp_all)
  let ?rc0 = "rc\<lparr>rc_registry := set_partition t p st1 (rc_registry rc)\<rparr>"
  obtain evs0 where e0: "run_callbacks ios ?rc0 = (evs0, ?rc0\<lparr>rc_out_acks := rc_out_acks rc @ map (ack_of (rc_cfg rc)) (waiting st)\<rparr>)"
    using run_callbacks_eq [of ios ?rc0] st1(3) by auto
  let ?rc' = "?rc0\<lparr>rc_out_acks := rc_out_acks rc @ map (ack_of (rc_cfg rc)) (waiting st),
      rc_registry := set_partition t p st3 (set_partition t p st1 (rc_registry rc))\<rparr>"
  have h: "sy_topic ?h = t" "sy_partition ?h = p" "sy_offset ?h = rec_offset r" "unat (sy_payload_size ?h) = length (rec_payload r)"
    using r(2) by (simp_all add: sync_header_of_def)
  have "on_replica_sync io now ?h (rec_payload r @ rest) rc = Inr (evs0, False, ?rc')" for rest
    unfolding on_replica_sync_def Let_def h st option.case i prod.case e0
    using n(1) r(1) by (simp add: h(4) st2(1) [unfolded r(1)] st3(1) append_ok_def)
  moreover have "client_handle_frame io now (fst (sync_msg t p epoch r)) (snd (sync_msg t p epoch r) @ rest) (length (snd (sync_msg t p epoch r))) rc
      = Some (on_replica_sync io now ?h (rec_payload r @ rest) rc)" for rest
    using sync_header.read_enc [of ?h "rec_payload r @ rest"] length_sync_header [OF ok(1), of p epoch r] h(1) ok(1)
    by (simp add: client_handle_frame_def sync_msg_def sizeof_repl_defs)
  moreover have "get_partition t p (rc_registry ?rc') = Some st3" using st by (simp add: get_set_partition)
  moreover have "\<lparr>rec_offset = of_nat (log_end a), rec_timestamp_ms = ts, rec_payload = rec_payload r\<rparr> = r\<lparr>rec_timestamp_ms := ts\<rparr>"
    using r(1) by (cases r) simp
  ultimately show thesis using st3(2,3) st2(3) by (intro that [of evs0 ?rc' st3 ts]) simp_all
qed

section \<open>A stream of records\<close>

text \<open>What replication copies of a record: its offset and payload. (The follower stamps its own time.)\<close>

definition content :: "log_record \<Rightarrow> u64 \<times> bytes" where
  "content r = (rec_offset r, rec_payload r)"

lemma content_stamped [simp]: "content (r\<lparr>rec_timestamp_ms := ts\<rparr>) = content r"
  by (simp add: content_def)

definition fits :: "storage_options \<Rightarrow> log_record \<Rightarrow> bool" where
  "fits opts r \<longleftrightarrow> length (rec_payload r) + 288 < 2 ^ 32 \<and> length (rec_payload r) \<le> max_pending_bytes opts"

lemma length_sync_msg: "length t \<le> 255 \<Longrightarrow> length (snd (sync_msg t p epoch r)) = 282 + length (rec_payload r)"
  using length_sync_header by (simp add: sync_msg_def)

lemma sync_stream:
  assumes "commits opts io" "get_partition t p (rc_registry rc) = Some st" "idle opts st a" "due a st \<and> length (waiting st) \<le> 1"
    and "offsets_from (of_nat (log_end a)) rs" "\<forall>r \<in> set rs. fits opts r"
    and "length t \<le> 255" "0 < queue_capacity opts" "log_end a + length rs < 2 ^ 64"
  shows "\<exists>evs rc' st' a'. handles (client_handle_frame io now) (map (sync_msg t p epoch) rs) rc evs rc'
     \<and> get_partition t p (rc_registry rc') = Some st' \<and> idle opts st' a' \<and> (due a' st' \<and> length (waiting st') \<le> 1) \<and> sl_base a' = sl_base a
     \<and> map content (sl_log a' @ sl_pending a') = map content (sl_log a @ sl_pending a @ rs)
     \<and> rc_out_acks rc' @ map (ack_of (rc_cfg rc)) (waiting st')
         = rc_out_acks rc @ map (ack_of (rc_cfg rc)) (waiting st @ map (sync_header_of t p epoch) rs)
     \<and> rc_cfg rc' = rc_cfg rc \<and> rc_fd rc' = rc_fd rc \<and> rc_recv_buf rc' = rc_recv_buf rc"
  using assms
proof (induction rs arbitrary: rc st a)
  case Nil then show ?case by (intro exI [of _ "[]"] exI [of _ rc] exI [of _ st] exI [of _ a]) simp
next
  case (Cons r rs)
  have r: "rec_offset r = of_nat (log_end a)" "fits opts r" "log_end a + 1 < 2 ^ 64" "length (rec_payload r) + 288 < 2 ^ 32"
    "length (rec_payload r) \<le> max_pending_bytes opts"
    using Cons.prems(5,6,9) by (simp_all add: fits_def)
  obtain ios st0 where io: "io st = (ios, st0)" "idle opts st0 (settled a)" "once_callbacks st0 = []" "called ios = waiting st"
    using commitsD Cons.prems(1,3,4) by metis
  obtain evs1 rc1 st1 ts where one:
    "\<And>rest. client_handle_frame io now (fst (sync_msg t p epoch r)) (snd (sync_msg t p epoch r) @ rest)
        (length (snd (sync_msg t p epoch r))) rc = Some (Inr (evs1, False, rc1))"
    "get_partition t p (rc_registry rc1) = Some st1"
    "idle opts st1 ((settled a)\<lparr>sl_pending := [r\<lparr>rec_timestamp_ms := ts\<rparr>]\<rparr>)"
    "once_callbacks st1 = [(rec_offset r, [sync_header_of t p epoch r])]"
    "rc_out_acks rc1 = rc_out_acks rc @ map (ack_of (rc_cfg rc)) (waiting st)"
    "rc_cfg rc1 = rc_cfg rc" "rc_fd rc1 = rc_fd rc" "rc_recv_buf rc1 = rc_recv_buf rc"
    by (rule sync_one [where io = io, OF Cons.prems(2) io r(1,4,5) Cons.prems(7,8) r(3)]) (rule that)
  let ?a1 = "(settled a)\<lparr>sl_pending := [r\<lparr>rec_timestamp_ms := ts\<rparr>]\<rparr>"
  have end1: "log_end ?a1 = log_end a + 1" by (simp add: log_end_def settled_def)
  have lt: "log_end a < 2 ^ 64" using r(3) by simp
  have w: "waiting st1 = [sync_header_of t p epoch r]" by (simp add: waiting_def one(4))
  have "due ?a1 st1 \<and> length (waiting st1) \<le> 1"
    unfolding due_def one(4) end1 w using lt by (simp add: r(1) unat_of_nat_u64 del: unat_of_nat)
  moreover have "offsets_from (of_nat (log_end ?a1)) rs" using Cons.prems(5) r(1) unfolding end1 by (simp add: add.commute)
  moreover have "log_end ?a1 + length rs < 2 ^ 64" using Cons.prems(9) unfolding end1 by simp
  ultimately obtain evs2 rc2 st2 a2 where rest:
    "handles (client_handle_frame io now) (map (sync_msg t p epoch) rs) rc1 evs2 rc2"
    "get_partition t p (rc_registry rc2) = Some st2" "idle opts st2 a2" "due a2 st2 \<and> length (waiting st2) \<le> 1" "sl_base a2 = sl_base ?a1"
    "map content (sl_log a2 @ sl_pending a2) = map content (sl_log ?a1 @ sl_pending ?a1 @ rs)"
    "rc_out_acks rc2 @ map (ack_of (rc_cfg rc1)) (waiting st2)
       = rc_out_acks rc1 @ map (ack_of (rc_cfg rc1)) (waiting st1 @ map (sync_header_of t p epoch) rs)"
    "rc_cfg rc2 = rc_cfg rc1" "rc_fd rc2 = rc_fd rc1" "rc_recv_buf rc2 = rc_recv_buf rc1"
    using Cons.IH [OF Cons.prems(1) one(2,3)] Cons.prems(6-8) by (auto simp del: map_append)
  have "handles (client_handle_frame io now) (map (sync_msg t p epoch) (r # rs)) rc (evs1 @ evs2) rc2"
    using one(1) rest(1) length_sync_msg [OF Cons.prems(7), of p epoch r] r(4) by auto
  then show ?case using w rest(2-10) one(5-8)
    by (intro exI [of _ "evs1 @ evs2"] exI [of _ rc2] exI [of _ st2] exI [of _ a2]) (simp add: settled_def)
qed

lemma handles_append:
  "handles hnd xs s e1 s1 \<Longrightarrow> handles hnd ys s1 e2 s' \<Longrightarrow> handles hnd (xs @ ys) s (e1 @ e2) s'"
proof (induction xs arbitrary: s e1)
  case (Cons m xs)
  from Cons.prems(1) obtain e3 s3 e4 where
    "length (snd m) + 5 < 2 ^ 32" "\<forall>rest. hnd (fst m) (snd m @ rest) (length (snd m)) s = Some (Inr (e3, False, s3))"
    "handles hnd xs s3 e4 s1" "e1 = e3 @ e4" by auto
  moreover from Cons.IH [OF this(3) Cons.prems(2)] have "handles hnd (xs @ ys) s3 (e4 @ e2) s'" .
  ultimately show ?case
    unfolding append_Cons handles.simps by (intro conjI exI [of _ e3] exI [of _ s3] exI [of _ "e4 @ e2"]) simp_all
qed simp

lemma sync_end_handled:
  "length t \<le> 255 \<Longrightarrow> handles (client_handle_frame io now) [sync_end_msg t p] rc [] rc"
  by (simp add: sync_end_msg_def client_handle_frame_def REPLICA_SYNC_END_def REPLICA_SYNC_def sync_header.width_enc)

lemma follow_stream:
  assumes "commits opts io" "get_partition t p (rc_registry rc) = Some st" "idle opts st a" "once_callbacks st = []"
    and "offsets_from (of_nat (log_end a)) rs" "\<forall>r \<in> set rs. fits opts r"
    and "length t \<le> 255" "0 < queue_capacity opts" "log_end a + length rs < 2 ^ 64" "rc_recv_buf rc = []"
    and "concat chunks = stream_of (map (sync_msg t p epoch) rs @ [sync_end_msg t p])"
  shows "\<exists>evs rc' st' a'. client_on_readable io now (map RecvData chunks) rc = Some (Inr (evs, rc'))
     \<and> get_partition t p (rc_registry rc') = Some st' \<and> idle opts st' a' \<and> sl_base a' = sl_base a
     \<and> map content (sl_log a' @ sl_pending a') = map content (sl_log a @ sl_pending a @ rs) \<and> rc_fd rc' = rc_fd rc
     \<and> rc_out_acks (snd (run_callbacks (fst (io st')) rc'))
         = rc_out_acks rc @ map (\<lambda>r. ack_of (rc_cfg rc) (sync_header_of t p epoch r)) rs"
proof -
  have w: "due a st \<and> length (waiting st) \<le> 1" "waiting st = []" using assms(4) by (simp_all add: due_def waiting_def)
  obtain evs rc' st' a' where r: "handles (client_handle_frame io now) (map (sync_msg t p epoch) rs) rc evs rc'"
    "get_partition t p (rc_registry rc') = Some st'" "idle opts st' a'" "due a' st' \<and> length (waiting st') \<le> 1" "sl_base a' = sl_base a"
    "map content (sl_log a' @ sl_pending a') = map content (sl_log a @ sl_pending a @ rs)"
    "rc_out_acks rc' @ map (ack_of (rc_cfg rc)) (waiting st')
       = rc_out_acks rc @ map (ack_of (rc_cfg rc)) (waiting st @ map (sync_header_of t p epoch) rs)"
    "rc_cfg rc' = rc_cfg rc" "rc_fd rc' = rc_fd rc" "rc_recv_buf rc' = rc_recv_buf rc"
    using sync_stream [OF assms(1-3) w(1) assms(5-9)] by blast
  have "handles (client_handle_frame io now) (map (sync_msg t p epoch) rs @ [sync_end_msg t p]) rc evs rc'"
    using handles_append [OF r(1) sync_end_handled [OF assms(7)]] by simp
  then have "repl_recv OutOfBounds (client_handle_frame io now) (map RecvData chunks) [] rc = Some (Inr (evs, Some [], rc'))"
    by (rule repl_recv_stream) (simp_all add: assms(11) before_end_def)
  then have run: "client_on_readable io now (map RecvData chunks) rc = Some (Inr (evs, rc'\<lparr>rc_recv_buf := []\<rparr>))"
    by (simp add: client_on_readable_def assms(10))
  have same: "rc'\<lparr>rc_recv_buf := []\<rparr> = rc'" using r(10) assms(10) by (cases rc') simp
  obtain ios st1 where "io st' = (ios, st1)" "called ios = waiting st'" using commitsD assms(1) r(3,4) by metis
  then have "rc_out_acks (snd (run_callbacks (fst (io st')) rc'))
      = rc_out_acks rc @ map (\<lambda>r. ack_of (rc_cfg rc) (sync_header_of t p epoch r)) rs"
    using run_callbacks_eq [of ios rc'] r(7,8) w(2) by (auto simp: comp_def)
  then show ?thesis using same run r(2,3,5,6,9)
    by (intro exI [of _ evs] exI [of _ rc'] exI [of _ st'] exI [of _ a']) simp
qed

section \<open>Slices of the leader's log\<close>

lemma slice_facts:
  assumes "prefix rs (drop n log)" "n \<le> length log" "offsets_from (of_nat b) log"
  shows "offsets_from (of_nat (b + n)) rs" "n + length rs \<le> length log" "set rs \<subseteq> set log"
proof -
  have "offsets_from (of_nat b) (take n log @ drop n log)" using assms(3) by simp
  then show "offsets_from (of_nat (b + n)) rs"
    using assms(1,2) unfolding offsets_from_append by (auto simp: prefix_def min_absorb2)
  show "n + length rs \<le> length log" using prefix_length_le [OF assms(1)] assms(2) by simp
  show "set rs \<subseteq> set log" using set_mono_prefix [OF assms(1)] set_drop_subset [of n log] by blast
qed

lemma slice_extends:
  assumes "prefix (map f xs) (map f log)" "prefix rs (drop (length xs) log)"
  shows "prefix (map f (xs @ rs)) (map f log)"
proof -
  have "map f log = map f xs @ drop (length xs) (map f log)" using assms(1) by (auto simp: prefix_def)
  moreover obtain z where "drop (length xs) log = rs @ z" using assms(2) by (auto simp: prefix_def)
  then have "drop (length xs) (map f log) = map f rs @ map f z" by (simp add: drop_map)
  ultimately show ?thesis by (metis append_assoc map_append prefixI)
qed

section \<open>A thread that keeps up\<close>

lemma callbacks_ok_steps: "(sys_step W)\<^sup>*\<^sup>* s s' \<Longrightarrow> callbacks_ok s \<Longrightarrow> callbacks_ok s'"
  by (induction rule: rtranclp_induct) (auto intro: callbacks_ok_step)

lemma io_drain_commits: "commits opts io_drain"
  unfolding commits_def
proof (intro allI impI)
  fix st :: follower_store and a
  assume h: "idle opts st a \<and> due a st"
  then obtain s where s: "partition_rel opts s a" "sys_pc s = IoTake" "sys_store s = st" "\<not> shutdown st" "max_batch_bytes opts < 2 ^ 60"
    by (auto simp: idle_def)
  let ?s = "s\<lparr>sys_events := [], sys_registered := waiting st\<rparr>"
  have rel: "partition_rel opts ?s a" using s(1) by (simp add: partition_rel_def sys_inv_def log_inv_def counters_ok_def abs_of_def)
  obtain evs st' where e: "io_drain st = (evs, st')" by fastforce
  let ?s' = "sys_emit st' IoTake evs ?s"
  have run: "io_alone\<^sup>*\<^sup>* ?s ?s'" "queue st' = []" "st_next_offset st' = st_next_offset st" "\<not> shutdown st'"
    "set (once_callbacks st') \<subseteq> set (once_callbacks st)"
    using io_rounds_steps [of ?s "length (queue st)" evs st'] e s(2-4) by (simp_all add: io_drain_def)
  have rel': "partition_rel opts ?s' (settled a)"
    unfolding settled_def by (rule drained_log(1) [OF rel s(5) run(1)]) (use run s(3) in simp_all)
  then have idle': "idle opts st' (settled a)" using run(4) s(5) unfolding idle_def by (intro conjI exI [of _ ?s']) simp_all
  have "callbacks_ok ?s'" by (rule callbacks_ok_steps [OF io_alone_runs [OF run(1)]]) (simp add: callbacks_ok_def s(3))
  moreover have none: "once_callbacks st' = []"
  proof (rule ccontr)
    assume "once_callbacks st' \<noteq> []"
    then obtain e where e: "e \<in> set (once_callbacks st')" by (cases "once_callbacks st'") auto
    then have "unat (fst e) < log_end a" using h run(5) by (auto simp: due_def)
    moreover have "log_end a < 2 ^ 64"
      using partition_rel_next(1) [OF rel] unat_lt_u64 [of "st_next_offset (sys_store ?s)"] by (simp add: log_end_def)
    then have "unat (st_committed_offset st') = log_end a"
      using idle_settled_next(2) [OF idle'] by (simp only: committed_offset_def unat_of_nat_u64)
    ultimately have "callbacks_due st'" using e by (auto simp: callbacks_due_def word_less_nat_alt)
    then show False using rel' sys_invD(7) [of opts _ ?s'] by (auto simp: partition_rel_def)
  qed
  ultimately have "mset (called evs) = mset (waiting st)" by (simp add: callbacks_ok_def waiting_def)
  then show "idle opts (snd (io_drain st)) (settled a) \<and> once_callbacks (snd (io_drain st)) = []
      \<and> mset (called (fst (io_drain st))) = mset (waiting st)" using idle' none e by simp
qed

section \<open>Gaps\<close>

lemma idle_next: "idle opts st a \<Longrightarrow> next_offset st = of_nat (sl_base a + length (sl_log a))"
proof -
  assume "idle opts st a"
  then obtain s segs where s: "sys_inv opts segs s" "a = abs_of segs s" "sys_store s = st" by (auto simp: idle_def partition_rel_def)
  then show ?thesis using sys_inv_end(1) [OF s(1)] by (metis next_offset_def of_nat_unat ucast_id)
qed

lemma gap_erases_buffer:
  assumes "get_partition t p (rc_registry rc) = Some st" "rec_offset r \<noteq> next_offset (snd (io st))" "length t \<le> 255"
  shows "\<exists>evs rc'. client_handle_frame io now (fst (sync_msg t p epoch r)) (snd (sync_msg t p epoch r) @ rest)
     (length (snd (sync_msg t p epoch r))) rc = Some (Inr (evs, True, rc'))"
proof -
  let ?h = "sync_header_of t p epoch r"
  have "client_handle_frame io now (fst (sync_msg t p epoch r)) (snd (sync_msg t p epoch r) @ rest) (length (snd (sync_msg t p epoch r))) rc
      = Some (on_replica_sync io now ?h (rec_payload r @ rest) rc)"
    using sync_header.read_enc [of ?h "rec_payload r @ rest"] length_sync_header [OF assms(3), of p epoch r] assms(3)
    by (simp add: client_handle_frame_def sync_msg_def sizeof_repl_defs sync_header_of_def)
  then show ?thesis using assms(1,2)
    by (auto simp: on_replica_sync_def sync_header_of_def Let_def split: prod.splits)
qed

section \<open>An example\<close>

text \<open>A follower of broker 0 with an empty partition.\<close>

definition example_client :: repl_client where
  "example_client =
     \<lparr>rc_topic = ''t'', rc_partition = 0, rc_cfg = config_defaults\<lparr>cfg_broker_id := 1, cfg_peers := default_peers\<rparr>, rc_meta = Map.empty,
      rc_registry = \<lparr>tr_topics = [(''t'', [Some (empty_store default_options 0)])], tr_data_root = ''data'', tr_storage_options = default_options\<rparr>,
      rc_fd = Some 9, rc_notify_write_fd = Some 4, rc_recv_buf = [], rc_out_acks = [], rc_running = True\<rparr>"

lemma example_client_partition: "get_partition ''t'' 0 (rc_registry example_client) = Some (empty_store default_options 0)"
  by (simp add: get_partition_def example_client_def)

lemma example_client_fields:
  "rc_topic example_client = ''t''" "rc_partition example_client = 0" "rc_fd example_client = Some 9" "rc_recv_buf example_client = []"
  "rc_meta example_client = Map.empty" "rc_out_acks example_client = []" "cfg_broker_id (rc_cfg example_client) = 1"
  by (simp_all add: example_client_def)

lemma empty_store_idle: "idle default_options (empty_store default_options 0) \<lparr>sl_base = 0, sl_log = [], sl_pending = []\<rparr>"
proof -
  have "\<not> shutdown (empty_store default_options 0)" "max_batch_bytes default_options < 2 ^ 60"
    by (simp_all add: empty_store_def default_options_def)
  moreover have "sys_pc (boot (empty_store default_options 0)) = IoTake"
    "sys_store (boot (empty_store default_options 0)) = empty_store default_options 0" by (simp_all add: boot_def)
  ultimately show ?thesis using partition_rel_empty [of default_options 0] unfolding idle_def by blast
qed

lemma empty_store_once: "once_callbacks (empty_store default_options 0) = []"
  by (simp add: empty_store_def)

lemma example_fits: "fits default_options first_record" "0 < queue_capacity default_options"
  by (simp_all add: fits_def first_record_def default_options_def)

section \<open>Properties\<close>

text \<open>C19. Following. When the I/O thread of the follower's partition commits each record before the client looks at the next,
  a stream of records that continues the follower's log, cut into reads in any way, is appended to the log at the
  leader's offsets with the leader's payloads, the connection stays up, and once the last record is committed
  exactly one acknowledgement for each record has been queued, in order.\<close>

theorem follower_copies_leader_records:
  assumes "commits opts io" "get_partition t p (rc_registry rc) = Some st" "idle opts st a" "once_callbacks st = []"
    and "offsets_from (of_nat (log_end a)) rs" "\<forall>r \<in> set rs. fits opts r"
    and "length t \<le> 255" "0 < queue_capacity opts" "log_end a + length rs < 2 ^ 64" "rc_recv_buf rc = []"
    and "concat chunks = stream_of (map (sync_msg t p epoch) rs @ [sync_end_msg t p])"
  shows "\<exists>evs rc' st' a'. client_on_readable io now (map RecvData chunks) rc = Some (Inr (evs, rc'))
     \<and> get_partition t p (rc_registry rc') = Some st' \<and> idle opts st' a' \<and> sl_base a' = sl_base a
     \<and> map content (sl_log a' @ sl_pending a') = map content (sl_log a @ sl_pending a @ rs) \<and> rc_fd rc' = rc_fd rc
     \<and> rc_out_acks (snd (run_callbacks (fst (io st')) rc'))
         = rc_out_acks rc @ map (\<lambda>r. ack_of (rc_cfg rc) (sync_header_of t p epoch r)) rs"
  using assms by (rule follow_stream)

theorem follower_copies_leader_records_witness:
  "\<exists>evs rc' st' a'. client_on_readable io_drain 3 [RecvData (stream_of [sync_msg ''t'' 0 1 first_record, sync_end_msg ''t'' 0])] example_client
       = Some (Inr (evs, rc'))
     \<and> get_partition ''t'' 0 (rc_registry rc') = Some st' \<and> idle default_options st' a'
     \<and> map content (sl_log a' @ sl_pending a') = [(0, [10, 11])]
     \<and> rc_out_acks (snd (run_callbacks (fst (io_drain st')) rc'))
         = [\<lparr>ra_topic = ''t'', ra_partition = 0, ra_epoch = 1, ra_acked_offset = 1, ra_follower_id = 1\<rparr>]"
proof -
  have o: "offsets_from (of_nat (log_end \<lparr>sl_base = 0, sl_log = [], sl_pending = []\<rparr>)) [first_record]"
    by (simp add: log_end_def first_record_def)
  show ?thesis
    using follower_copies_leader_records [OF io_drain_commits example_client_partition empty_store_idle empty_store_once o _ _ example_fits(2),
        of "[stream_of [sync_msg ''t'' 0 1 first_record, sync_end_msg ''t'' 0]]" 1 3]
      example_fits(1)
    by (auto simp: log_end_def example_client_fields content_def first_record_def ack_of_def sync_header_of_def)
qed



text \<open>When the I/O thread is slower than the stream. If the second of two records that arrive together is looked at before the first one is
  written to the log, the client takes the record for a gap, drops the connection and clears its receive buffer, and then
  erases the frame from the empty buffer.\<close>

theorem back_to_back_records_fault:
  assumes "get_partition t p (rc_registry rc) = Some st" "idle opts st a" "sl_pending a = []" "once_callbacks st = []" "rc_recv_buf rc = []"
    and "rec_offset r1 = of_nat (log_end a)" "rec_offset r2 = rec_offset r1 + 1" "fits opts r1" "fits opts r2"
    and "length t \<le> 255" "0 < queue_capacity opts" "log_end a + 1 < 2 ^ 64"
  shows "client_on_readable (\<lambda>st. ([], st)) now (RecvData (stream_of [sync_msg t p epoch r1, sync_msg t p epoch r2] @ tail) # rs) rc
     = Some (Inl OutOfBounds)"
proof -
  let ?io = "\<lambda>st :: follower_store. ([] :: replica_sync_header store_event list, st)"
  let ?m1 = "sync_msg t p epoch r1" and ?m2 = "sync_msg t p epoch r2"
  have st: "idle opts st (settled a)" "called [] = waiting st"
    using assms(2-4) by (cases a; simp add: settled_def waiting_def)+
  have f: "length (rec_payload r1) + 288 < 2 ^ 32" "length (rec_payload r1) \<le> max_pending_bytes opts"
    "length (snd ?m1) + 5 < 2 ^ 32" "length (snd ?m2) + 5 < 2 ^ 32"
    using assms(8,9) length_sync_msg [OF assms(10)] by (simp_all add: fits_def)
  obtain evs1 rc1 st1 ts where one:
    "\<And>rest. client_handle_frame ?io now (fst ?m1) (snd ?m1 @ rest) (length (snd ?m1)) rc = Some (Inr (evs1, False, rc1))"
    "get_partition t p (rc_registry rc1) = Some st1" "idle opts st1 ((settled a)\<lparr>sl_pending := [r1\<lparr>rec_timestamp_ms := ts\<rparr>]\<rparr>)"
    by (rule sync_one [where io = ?io, OF assms(1) refl st(1) assms(4) st(2) assms(6) f(1,2) assms(10-12)]) (rule that)
  have "next_offset st1 = rec_offset r1" using idle_next [OF one(3)] assms(3,6) by (simp add: settled_def log_end_def)
  then have "rec_offset r2 \<noteq> next_offset (snd (?io st1))" using assms(7) by simp
  from gap_erases_buffer [where io = ?io, OF one(2) this assms(10), of now epoch tail] obtain evs2 rc2 where
    two: "client_handle_frame ?io now (fst ?m2) (snd ?m2 @ tail) (length (snd ?m2)) rc1 = Some (Inr (evs2, True, rc2))" by blast
  have "repl_frames OutOfBounds (client_handle_frame ?io now)
      (repl_frame (fst ?m1) (snd ?m1) @ repl_frame (fst ?m2) (snd ?m2) @ tail) rc = Some (Inl OutOfBounds)"
    unfolding repl_frames_step [OF f(3)] one(1) option.case sum.case prod.case if_False
    unfolding repl_frames_step [OF f(4)] two by simp
  then show ?thesis by (simp add: client_on_readable_def assms(5))
qed

theorem back_to_back_records_fault_witness:
  "client_on_readable (\<lambda>st. ([], st)) 3 [RecvData (stream_of [sync_msg ''t'' 0 1 first_record, sync_msg ''t'' 0 1 (first_record\<lparr>rec_offset := 1\<rparr>)])]
     example_client = Some (Inl OutOfBounds)"
  using back_to_back_records_fault [OF example_client_partition empty_store_idle, of first_record "first_record\<lparr>rec_offset := 1\<rparr>" 3 1 "[]" "[]"]
    example_fits
  by (simp add: empty_store_once example_client_fields log_end_def fits_def first_record_def)



end
