(* ===== verification/Fell_Broker.thy ===== *)
theory Fell_Broker
  imports Fell_Request_Handler Fell_Replication_Channel
begin

text \<open>
  \<^verbatim>\<open>broker/broker.cpp\<close>, \<^verbatim>\<open>connection_manager.cpp\<close> and \<^verbatim>\<open>acceptor.cpp\<close>: the reactor. Connection objects live in a heap, and
  the poller's contexts are addresses in it, so that the use of an object that was deleted is visible as a fault. The
  poller is the set of registrations its interface describes; what \<^verbatim>\<open>wait\<close>, \<^verbatim>\<open>recv\<close>, \<^verbatim>\<open>send\<close> and \<^verbatim>\<open>accept\<close> report are
  arguments. Operations give the list of their effects on the outside.
\<close>

section \<open>Definitions\<close>

subsection \<open>State\<close>

text \<open>A registration: interest in reading, interest in writing, and the address that events carry.\<close>

type_synonym registration = "bool \<times> bool \<times> nat"

text \<open>The calls that the reactor makes on the poller for its connections.\<close>

datatype poller_call = CallAdd int registration | CallModify int registration | CallRemove int

text \<open>\<open>br_poller\<close> is what is registered for the connections, and \<open>br_calls\<close> the history of the calls that led to it.\<close>

record 'cb broker =
  br_heap :: "nat \<rightharpoonup> conn_state"
  br_fresh :: nat
  br_conns :: "int \<rightharpoonup> nat"
  br_max_frame_size :: nat
  br_poller :: "int \<rightharpoonup> registration"
  br_calls :: "poller_call list"
  br_handler :: "'cb handler"
  br_managers :: "string \<rightharpoonup> replica_manager"
  br_clients :: "string \<rightharpoonup> string \<times> u16"
  br_responses :: "response list"
  br_notify_write_fd :: int

subsection \<open>Connections\<close>

definition conn_remove :: "int \<Rightarrow> 'cb broker \<Rightarrow> effect list \<times> 'cb broker" where
  "conn_remove fd br =
     (case br_conns br fd of
        None \<Rightarrow> ([], br)
      | Some i \<Rightarrow>
          ([CloseSocket fd],
           br\<lparr>br_poller := (br_poller br)(fd := None), br_calls := br_calls br @ [CallRemove fd],
              br_conns := (br_conns br)(fd := None), br_heap := (br_heap br)(i := None)\<rparr>))"

text \<open>A connection that is still in the table under the new socket's number is closed first, which closes that number.\<close>

definition conn_add :: "int \<Rightarrow> 'cb broker \<Rightarrow> effect list \<times> 'cb broker" where
  "conn_add fd br =
     (case conn_remove fd br of
        (evs, br1) \<Rightarrow>
          (evs, br1\<lparr>br_heap := (br_heap br1)(br_fresh br1 \<mapsto> ConnectionState (br_max_frame_size br1) fd),
                    br_conns := (br_conns br1)(fd \<mapsto> br_fresh br1), br_fresh := Suc (br_fresh br1),
                    br_poller := (br_poller br1)(fd \<mapsto> (True, False, br_fresh br1)),
                    br_calls := br_calls br1 @ [CallAdd fd (True, False, br_fresh br1)]\<rparr>))"

definition conn_get :: "int \<Rightarrow> 'cb broker \<Rightarrow> nat option" where
  "conn_get fd br = br_conns br fd"

fun accept_all :: "int list \<Rightarrow> 'cb broker \<Rightarrow> effect list \<times> 'cb broker" where
  "accept_all [] br = ([], br)"
| "accept_all (fd # fds) br =
     (case conn_add fd br of (evs, br1) \<Rightarrow> (case accept_all fds br1 of (evs', br2) \<Rightarrow> (evs @ evs', br2)))"

definition poller_modify :: "int \<Rightarrow> bool \<Rightarrow> bool \<Rightarrow> nat \<Rightarrow> 'cb broker \<Rightarrow> 'cb broker" where
  "poller_modify fd rd wr i br = br\<lparr>br_poller := (br_poller br)(fd \<mapsto> (rd, wr, i)), br_calls := br_calls br @ [CallModify fd (rd, wr, i)]\<rparr>"

definition on_hangup :: "conn_state \<Rightarrow> 'cb broker \<Rightarrow> effect list \<times> 'cb broker" where
  "on_hangup conn br = conn_remove (cn_fd conn) br"

subsection \<open>Deferred responses\<close>

definition post_response :: "int \<Rightarrow> bytes \<Rightarrow> 'cb broker \<Rightarrow> effect list \<times> 'cb broker" where
  "post_response fd resp br =
     ([SendData (br_notify_write_fd br) [1]], br\<lparr>br_responses := br_responses br @ [(fd, resp)]\<rparr>)"

definition append_output :: "nat \<Rightarrow> bytes \<Rightarrow> 'cb broker \<Rightarrow> 'cb broker" where
  "append_output i bs br =
     (case br_heap br i of
        None \<Rightarrow> br
      | Some conn \<Rightarrow>
          poller_modify (cn_fd conn) (\<not> cn_read_disabled conn) True i
            (br\<lparr>br_heap := (br_heap br)(i \<mapsto> conn\<lparr>cn_out_data := cn_out_data conn @ bs\<rparr>)\<rparr>))"

definition drain_response_queue :: "'cb broker \<Rightarrow> 'cb broker" where
  "drain_response_queue br =
     fold (\<lambda>(fd, bs) br. case conn_get fd br of None \<Rightarrow> br | Some i \<Rightarrow> append_output i bs br)
       (br_responses br) (br\<lparr>br_responses := []\<rparr>)"

subsection \<open>Replication\<close>

definition replication_key :: "string \<Rightarrow> u16 \<Rightarrow> string" where
  "replication_key topic part = topic @ ''-'' @ to_string (unat part)"

definition broker_meta :: "string \<Rightarrow> u16 \<Rightarrow> 'cb broker \<Rightarrow> partition_meta \<times> 'cb broker" where
  "broker_meta topic part br =
     (case meta_of topic part (br_handler br) of
        (m, h) \<Rightarrow> (case m of None \<Rightarrow> new_meta topic part | Some m \<Rightarrow> m, br\<lparr>br_handler := h\<rparr>))"

definition get_or_create_replica_manager :: "string \<Rightarrow> u16 \<Rightarrow> 'cb broker \<Rightarrow> 'cb broker" where
  "get_or_create_replica_manager topic part br =
     (let key = replication_key topic part
      in if br_managers br key \<noteq> None then br
         else let br1 = snd (broker_meta topic part br); h = br_handler br1;
                  reg = (case get_partition topic part (rh_registry h) of
                           None \<Rightarrow> rh_registry h
                         | Some p \<Rightarrow> set_partition topic part (set_commit_callback p) (rh_registry h))
              in br1\<lparr>br_handler := h\<lparr>rh_registry := reg\<rparr>, br_managers := (br_managers br1)(key \<mapsto> rm_start ReplicaManager)\<rparr>)"

definition get_or_create_replication_client :: "string \<Rightarrow> u16 \<Rightarrow> 'cb broker \<Rightarrow> 'cb broker" where
  "get_or_create_replication_client topic part br =
     (let key = replication_key topic part
      in if br_clients br key \<noteq> None then br else br\<lparr>br_clients := (br_clients br)(key \<mapsto> (topic, part))\<rparr>)"

text \<open>The callback that the request handler defers acknowledgements with.\<close>

definition defer_ack :: "deferred_ack \<Rightarrow> 'cb broker \<Rightarrow> 'cb broker" where
  "defer_ack d br =
     (let br1 = get_or_create_replica_manager (da_topic d) (da_partition d) br;
          key = replication_key (da_topic d) (da_partition d)
      in case broker_meta (da_topic d) (da_partition d) br1 of
           (m, br2) \<Rightarrow>
             (case br_managers br2 key of
                None \<Rightarrow> br2
              | Some rm \<Rightarrow> br2\<lparr>br_managers := (br_managers br2)(key \<mapsto>
                  register_pending (da_offset d) (da_response d) (da_fd d) m rm)\<rparr>))"

fun post_responses :: "response list \<Rightarrow> 'cb broker \<Rightarrow> effect list \<times> 'cb broker" where
  "post_responses [] br = ([], br)"
| "post_responses (r # rs) br =
     (case post_response (fst r) (snd r) br of (evs, br1) \<Rightarrow> (case post_responses rs br1 of (evs', br2) \<Rightarrow> (evs @ evs', br2)))"

text \<open>The two callbacks the broker gives to the replication server.\<close>

definition replica_ack_cb :: "u32 \<Rightarrow> u64 \<Rightarrow> string \<Rightarrow> u16 \<Rightarrow> 'cb broker \<Rightarrow> effect list \<times> 'cb broker" where
  "replica_ack_cb follower_id acked_offset topic part br =
     (let key = replication_key topic part
      in case br_managers br key of
           None \<Rightarrow> ([], br)
         | Some rm \<Rightarrow>
             (case (rh_cfg (br_handler br), broker_meta topic part br) of
                (None, _) \<Rightarrow> ([], br)
              | (Some cfg, m, br1) \<Rightarrow>
                  (case rm_on_replica_ack cfg follower_id acked_offset m rm of
                     (to_send, m', rm') \<Rightarrow>
                       post_responses to_send
                         (br1\<lparr>br_managers := (br_managers br1)(key \<mapsto> rm'),
                              br_handler := (br_handler br1)\<lparr>rh_meta :=
                                map_option (\<lambda>reg. reg(make_key topic part \<mapsto> m')) (rh_meta (br_handler br1))\<rparr>\<rparr>))))"

definition fetch_log_cb :: "u32 \<Rightarrow> string \<Rightarrow> u16 \<Rightarrow> int \<Rightarrow> 'cb broker \<Rightarrow> 'cb broker" where
  "fetch_log_cb follower_id topic part fd br =
     (let key = replication_key topic part
      in case br_managers br key of
           None \<Rightarrow> br
         | Some rm \<Rightarrow> br\<lparr>br_managers := (br_managers br)(key \<mapsto> set_follower_fd follower_id fd rm)\<rparr>)"

text \<open>Starting the threads of one partition.\<close>

definition start_partition :: "string \<Rightarrow> u16 \<Rightarrow> 'cb broker \<Rightarrow> 'cb broker" where
  "start_partition topic part br =
     (case broker_meta topic part br of
        (m, br1) \<Rightarrow>
          if pm_role m = Leader then get_or_create_replica_manager topic part br1
          else get_or_create_replication_client topic part br1)"

definition initialize_replication :: "'cb broker \<Rightarrow> 'cb broker" where
  "initialize_replication br =
     (let h = br_handler br; topics = list_topics (rh_registry h);
          br1 = (case (rh_cfg h, rh_meta h) of
                   (Some cfg, Some m) \<Rightarrow>
                     br\<lparr>br_handler := h\<lparr>rh_meta := Some (assign_roles (cfg_broker_id cfg) (num_brokers cfg)
                                                          (map fst topics) (map snd topics) m)\<rparr>\<rparr>
                 | _ \<Rightarrow> br)
      in fold (\<lambda>(topic, n) br. fold (\<lambda>p br. start_partition topic (of_nat p) br) [0..<unat n] br) topics br1)"

text \<open>Both constructors: the registry recovers what its root directory holds, of which the listing is an argument.\<close>

definition init_broker ::
  "u64 \<Rightarrow> (string \<times> (string \<times> dir) list) list option \<Rightarrow> string \<Rightarrow> cluster_config \<Rightarrow> nat \<Rightarrow> storage_options \<Rightarrow> int
     \<Rightarrow> fault + 'cb broker" where
  "init_broker now listing root cfg max_frame_size opts notify_write_fd =
     (case recover_all now listing (TopicRegistry root opts) of
        Inl e \<Rightarrow> Inl e
      | Inr reg \<Rightarrow>
          Inr \<lparr>br_heap = Map.empty, br_fresh = 0, br_conns = Map.empty, br_max_frame_size = max_frame_size,
               br_poller = Map.empty, br_calls = [],
               br_handler = \<lparr>rh_registry = reg, rh_cfg = Some cfg, rh_meta = Some Map.empty, rh_has_defer = True,
                 rh_publish_requests_total = 0, rh_publish_busy_total = 0, rh_bytes_published_total = 0\<rparr>,
               br_managers = Map.empty, br_clients = Map.empty, br_responses = [], br_notify_write_fd = notify_write_fd\<rparr>)"

definition Broker ::
  "u64 \<Rightarrow> (string \<times> (string \<times> dir) list) list option \<Rightarrow> cluster_config \<Rightarrow> nat \<Rightarrow> storage_options \<Rightarrow> int \<Rightarrow> fault + 'cb broker" where
  "Broker now listing cfg max_frame_size opts notify_write_fd =
     init_broker now listing (cfg_data_dir cfg) cfg max_frame_size opts notify_write_fd"

definition Broker_single ::
  "u64 \<Rightarrow> (string \<times> (string \<times> dir) list) list option \<Rightarrow> string \<Rightarrow> nat \<Rightarrow> storage_options \<Rightarrow> int \<Rightarrow> fault + 'cb broker" where
  "Broker_single now listing data_dir max_frame_size opts notify_write_fd =
     (case config_load (\<lambda>_. None) [] of
        Inl e \<Rightarrow> Inl e
      | Inr cfg \<Rightarrow> init_broker now listing data_dir cfg max_frame_size opts notify_write_fd)"

subsection \<open>Reading\<close>

text \<open>The frames of one read, answered one after the other.\<close>

fun answer_frames ::
  "env \<Rightarrow> frame list \<Rightarrow> conn_state \<Rightarrow> 'cb broker \<Rightarrow> fault + bytes \<times> conn_state \<times> 'cb broker" where
  "answer_frames e [] conn br = Inr ([], conn, br)"
| "answer_frames e (f # fs) conn br =
     (case handle e f conn (br_handler br) of
        Inl err \<Rightarrow> Inl err
      | Inr (resp, deferred, conn1, h1) \<Rightarrow>
          let br1 = br\<lparr>br_handler := h1\<rparr>;
              br2 = (case deferred of None \<Rightarrow> br1 | Some d \<Rightarrow> defer_ack d br1)
          in case answer_frames e fs conn1 br2 of
               Inl err \<Rightarrow> Inl err
             | Inr (resps, conn2, br3) \<Rightarrow> Inr (resp @ resps, conn2, br3))"

definition backpressure_limit :: nat where
  "backpressure_limit = 16 * 1024 * 1024"

definition store_conn :: "nat \<Rightarrow> conn_state \<Rightarrow> 'cb broker \<Rightarrow> 'cb broker" where
  "store_conn i conn br = br\<lparr>br_heap := (br_heap br)(i \<mapsto> conn)\<rparr>"

text \<open>What one read does after the decoder: answer, queue the answers, apply backpressure.\<close>

definition process_read ::
  "env \<Rightarrow> frame list \<Rightarrow> nat \<Rightarrow> conn_state \<Rightarrow> 'cb broker \<Rightarrow> fault + 'cb broker" where
  "process_read e frames i conn br =
     (case answer_frames e frames conn br of
        Inl err \<Rightarrow> Inl err
      | Inr (batch_resp, conn1, br1) \<Rightarrow>
          let conn2 = conn1\<lparr>cn_out_data := cn_out_data conn1 @ batch_resp\<rparr>;
              br2 = (if batch_resp \<noteq> [] then poller_modify (cn_fd conn2) (\<not> cn_read_disabled conn2) True i br1 else br1)
          in if size_sub (length (cn_out_data conn2)) (cn_write_offset conn2) > backpressure_limit \<and> \<not> cn_read_disabled conn2
             then Inr (store_conn i (conn2\<lparr>cn_read_disabled := True\<rparr>) (poller_modify (cn_fd conn2) False True i br2))
             else Inr (store_conn i conn2 br2))"

fun on_readable ::
  "env \<Rightarrow> recv_result list \<Rightarrow> nat \<Rightarrow> 'cb broker \<Rightarrow> fault + effect list \<times> 'cb broker" where
  "on_readable e [] i br = (case br_heap br i of None \<Rightarrow> Inl Dangling | Some conn \<Rightarrow> Inr ([], br))"
| "on_readable e (r # rs) i br =
     (case br_heap br i of
        None \<Rightarrow> Inl Dangling
      | Some conn \<Rightarrow>
          (case r of
             RecvWouldBlock \<Rightarrow> Inr ([], br)
           | RecvEof \<Rightarrow> Inr (on_hangup conn br)
           | RecvError \<Rightarrow> Inr (on_hangup conn br)
           | RecvData d \<Rightarrow>
               (case push d (cn_decoder conn) of
                  Inl err \<Rightarrow> Inl err
                | Inr (n, frames, dec) \<Rightarrow>
                    let conn1 = conn\<lparr>cn_decoder := dec\<rparr>
                    in if n = -1 then Inr (on_hangup conn1 br)
                       else (case process_read e frames i conn1 br of
                               Inl err \<Rightarrow> Inl err
                             | Inr br1 \<Rightarrow> on_readable e rs i br1))))"

subsection \<open>Writing\<close>

text \<open>The result of \<^verbatim>\<open>send\<close>: the number of bytes it took, which is never more than it was given, or a failure.\<close>

datatype send_result = Sent nat | SendWouldBlock | SendError

definition write_done :: "nat \<Rightarrow> conn_state \<Rightarrow> 'cb broker \<Rightarrow> 'cb broker" where
  "write_done i conn br =
     (if cn_write_offset conn = length (cn_out_data conn)
      then poller_modify (cn_fd conn) True False i
             (store_conn i (conn\<lparr>cn_out_data := [], cn_write_offset := 0, cn_read_disabled := False\<rparr>) br)
      else store_conn i conn br)"

definition on_writable :: "send_result \<Rightarrow> nat \<Rightarrow> 'cb broker \<Rightarrow> fault + effect list \<times> 'cb broker" where
  "on_writable res i br =
     (case br_heap br i of
        None \<Rightarrow> Inl Dangling
      | Some conn \<Rightarrow>
          if cn_write_offset conn < length (cn_out_data conn)
          then (case res of
                  Sent k \<Rightarrow>
                    let n = min k (length (cn_out_data conn) - cn_write_offset conn)
                    in Inr (if n > 0 then [SendData (cn_fd conn) (take n (drop (cn_write_offset conn) (cn_out_data conn)))] else [],
                            write_done i (conn\<lparr>cn_write_offset := cn_write_offset conn + n\<rparr>) br)
                | SendWouldBlock \<Rightarrow> Inr ([], write_done i conn br)
                | SendError \<Rightarrow> Inr (on_hangup conn br))
          else Inr ([], write_done i conn br))"

subsection \<open>event\_loop\<close>

datatype broker_event =
    NotifyEvent
  | AcceptEvent "int list"
  | ConnEvent nat bool bool bool "recv_result list" send_result
      \<comment> \<open>address, \<^verbatim>\<open>PF_HUP\<close>, \<^verbatim>\<open>PF_READ\<close>, \<^verbatim>\<open>PF_WRITE\<close>\<close>

fun broker_poll_event :: "env \<Rightarrow> broker_event \<Rightarrow> 'cb broker \<Rightarrow> fault + effect list \<times> 'cb broker" where
  "broker_poll_event e NotifyEvent br = Inr ([], br)"
| "broker_poll_event e (AcceptEvent fds) br = Inr (accept_all fds br)"
| "broker_poll_event e (ConnEvent i hup readable writable rs res) br =
     (if hup then (case br_heap br i of None \<Rightarrow> Inl Dangling | Some conn \<Rightarrow> Inr (on_hangup conn br))
      else case (if readable then on_readable e rs i br else Inr ([], br)) of
             Inl err \<Rightarrow> Inl err
           | Inr (evs, br1) \<Rightarrow>
               if writable
               then (case on_writable res i br1 of
                       Inl err \<Rightarrow> Inl err
                     | Inr (evs', br2) \<Rightarrow> Inr (evs @ evs', br2))
               else Inr (evs, br1))"

fun broker_events :: "env \<Rightarrow> broker_event list \<Rightarrow> 'cb broker \<Rightarrow> fault + effect list \<times> 'cb broker" where
  "broker_events e [] br = Inr ([], br)"
| "broker_events e (ev # evs) br =
     (case broker_poll_event e ev br of
        Inl err \<Rightarrow> Inl err
      | Inr (es, br1) \<Rightarrow>
          (case broker_events e evs br1 of
             Inl err \<Rightarrow> Inl err
           | Inr (es', br2) \<Rightarrow> Inr (es @ es', br2)))"

text \<open>One turn of the loop, with the events of its \<^verbatim>\<open>wait\<close>.\<close>

definition broker_turn :: "env \<Rightarrow> broker_event list \<Rightarrow> 'cb broker \<Rightarrow> fault + effect list \<times> 'cb broker" where
  "broker_turn e evs br = broker_events e evs (drain_response_queue br)"

text \<open>The loop runs until another thread stops the broker; its turns are an argument.\<close>

fun event_loop :: "(env \<times> broker_event list) list \<Rightarrow> 'cb broker \<Rightarrow> fault + effect list \<times> 'cb broker" where
  "event_loop [] br = Inr ([], br)"
| "event_loop ((e, evs) # ts) br =
     (case broker_turn e evs br of
        Inl err \<Rightarrow> Inl err
      | Inr (es, br1) \<Rightarrow>
          (case event_loop ts br1 of
             Inl err \<Rightarrow> Inl err
           | Inr (es', br2) \<Rightarrow> Inr (es @ es', br2)))"

definition acceptor_start :: "int option \<Rightarrow> fault + effect list" where
  "acceptor_start listen_fd = (case listen_fd of None \<Rightarrow> Inl IoError | Some fd \<Rightarrow> Inr [PollerAdd fd])"

definition broker_run :: "int option \<Rightarrow> (env \<times> broker_event list) list \<Rightarrow> 'cb broker \<Rightarrow> fault + effect list \<times> 'cb broker" where
  "broker_run listen_fd ts br =
     (case acceptor_start listen_fd of
        Inl err \<Rightarrow> Inl err
      | Inr es \<Rightarrow>
          (case event_loop ts (initialize_replication br) of
             Inl err \<Rightarrow> Inl err
           | Inr (es', br1) \<Rightarrow> Inr (es @ es', br1)))"

subsection \<open>The daemon\<close>

text \<open>\<^verbatim>\<open>felld/main.cpp\<close>. The last \<^verbatim>\<open>--config\<close> that is followed by a value counts.\<close>

fun config_path :: "string list \<Rightarrow> string \<Rightarrow> string" where
  "config_path (arg # v # args) path = (if arg = ''--config'' then config_path args v else config_path (v # args) path)"
| "config_path args path = path"

text \<open>The exit status. A thrown exception is caught; the other faults are not exceptions.\<close>

definition felld_main ::
  "(string \<Rightarrow> ini_values option) \<Rightarrow> string list \<Rightarrow> u64 \<Rightarrow> (string \<Rightarrow> (string \<times> (string \<times> dir) list) list option) \<Rightarrow> int
     \<Rightarrow> int option \<Rightarrow> (env \<times> broker_event list) list \<Rightarrow> fault + effect list \<times> int" where
  "felld_main parse args now listing notify_write_fd listen_fd ts =
     (case (case config_load parse (config_path args []) of
              Inl e \<Rightarrow> Inl e
            | Inr cfg \<Rightarrow>
                (case Broker now (listing (cfg_data_dir cfg)) cfg 1048576 default_options notify_write_fd of
                   Inl e \<Rightarrow> Inl e
                 | Inr (br :: unit broker) \<Rightarrow> broker_run listen_fd ts br)) of
        Inl e \<Rightarrow> if e = IoError \<or> e = BadNumber then Inr ([], 1) else Inl e
      | Inr (es, br) \<Rightarrow> Inr (es, 0))"

end
