(* ===== verification/Fell_Broker_Properties.thy ===== *)
theory Fell_Broker_Properties
  imports Fell_Broker Fell_Replication_Server Fell_Handler_Properties
begin

text \<open>
  Properties of the reactor: its connection table and poller registrations stay consistent; pipelined requests are answered
  in order, however the stream is cut and however the answers are written; and where the reactor
  uses a connection after deleting it.
\<close>

section \<open>What request handling depends on\<close>

text \<open>The parts of a connection that the request handlers neither read nor change.\<close>

definition with_io :: "frame_decoder \<Rightarrow> bytes \<Rightarrow> nat \<Rightarrow> bool \<Rightarrow> conn_state \<Rightarrow> conn_state" where
  "with_io dec out off dis c = c\<lparr>cn_decoder := dec, cn_out_data := out, cn_write_offset := off, cn_read_disabled := dis\<rparr>"

definition map_conn :: "(conn_state \<Rightarrow> conn_state) \<Rightarrow> fault + 'cb reply \<Rightarrow> fault + 'cb reply" where
  "map_conn g r = map_sum id (\<lambda>(resp, d, c, h). (resp, d, g c, h)) r"

lemma with_io_simps [simp]:
  "cn_fd (with_io dec out off dis c) = cn_fd c" "cn_rr_counter (with_io dec out off dis c) = cn_rr_counter c"
  "cn_decoder (with_io dec out off dis c) = dec" "cn_out_data (with_io dec out off dis c) = out"
  "cn_write_offset (with_io dec out off dis c) = off" "cn_read_disabled (with_io dec out off dis c) = dis"
  "with_io dec out off dis (with_io dec' out' off' dis' c) = with_io dec out off dis c"
  by (simp_all add: with_io_def)

lemma with_io_self: "with_io (cn_decoder c) (cn_out_data c) (cn_write_offset c) (cn_read_disabled c) c = c"
  by (simp add: with_io_def)

lemma map_conn_simps [simp]:
  "map_conn g (reply resp c h) = reply resp (g c) h" "map_conn g (fail code msg c h) = fail code msg (g c) h"
  "map_conn g (Inl err) = Inl err"
  by (simp_all add: map_conn_def reply_def fail_def)

lemma publish_to_conn:
  "publish_to e t p payload (with_io dec out off dis c) h = map_conn (with_io dec out off dis) (publish_to e t p payload c h)"
proof (cases "check_leader t p h")
  case (Pair lead h1)
  have "publish_to e t p payload (with_io dec out off dis c) h = map_conn (with_io dec out off dis) (publish_to e t p payload c h)"
    if "lead" "get_partition t p (rh_registry h1) = Some q" for q
    using that by (cases "store_append (env_now e) payload q") (simp add: publish_to_def Pair Let_def map_conn_def fail_def reply_def)
  then show ?thesis
    by (cases lead; cases "get_partition t p (rh_registry h1)") (simp_all add: publish_to_def Pair)
qed

lemma handle_conn: "handle e f (with_io dec out off dis c) h = map_conn (with_io dec out off dis) (handle e f c h)"
proof -
  have rr: "with_io dec out off dis c\<lparr>cn_rr_counter := k\<rparr> = with_io dec out off dis (c\<lparr>cn_rr_counter := k\<rparr>)" for k
    by (cases c) (simp add: with_io_def)
  have sub: "with_io dec out off dis c\<lparr>cn_sub_topic := a, cn_sub_partition := b, cn_fetch_offset := k, cn_subscribed := s\<rparr>
      = with_io dec out off dis (c\<lparr>cn_sub_topic := a, cn_sub_partition := b, cn_fetch_offset := k, cn_subscribed := s\<rparr>)" for a b k s
    by (cases c) (simp add: with_io_def)
  have fet: "with_io dec out off dis c\<lparr>cn_fetch_offset := k\<rparr> = with_io dec out off dis (c\<lparr>cn_fetch_offset := k\<rparr>)" for k
    by (cases c) (simp add: with_io_def)
  have "handle_metadata_req f (with_io dec out off dis c) h = map_conn (with_io dec out off dis) (handle_metadata_req f c h)"
    by (simp add: handle_metadata_req_def Let_def split: prod.split option.split)
  moreover have "handle_create_topic e f (with_io dec out off dis c) h = map_conn (with_io dec out off dis) (handle_create_topic e f c h)"
    by (simp add: handle_create_topic_def Let_def split: prod.split option.split sum.split bool.split)
  moreover have "handle_publish e f (with_io dec out off dis c) h = map_conn (with_io dec out off dis) (handle_publish e f c h)"
    by (simp add: handle_publish_def Let_def publish_to_conn rr)
  moreover have "handle_publish_v2 e f (with_io dec out off dis c) h = map_conn (with_io dec out off dis) (handle_publish_v2 e f c h)"
    by (simp add: handle_publish_v2_def Let_def publish_to_conn rr)
  moreover have "handle_subscribe f (with_io dec out off dis c) h = map_conn (with_io dec out off dis) (handle_subscribe f c h)"
    by (simp add: handle_subscribe_def Let_def sub split: prod.split option.split bool.split)
  moreover have "handle_fetch f (with_io dec out off dis c) h = map_conn (with_io dec out off dis) (handle_fetch f c h)"
    by (simp add: handle_fetch_def Let_def fet split: prod.split option.split sum.split bool.split)
  ultimately show ?thesis by (simp add: handle_def)
qed

lemma handle_keeps_io:
  assumes "handle e f c h = Inr (resp, d, c', h')"
  shows "cn_decoder c' = cn_decoder c" "cn_out_data c' = cn_out_data c" "cn_write_offset c' = cn_write_offset c"
    "cn_read_disabled c' = cn_read_disabled c"
proof -
  have "c' = with_io (cn_decoder c) (cn_out_data c) (cn_write_offset c) (cn_read_disabled c) c'"
    using handle_conn [of e f "cn_decoder c" "cn_out_data c" "cn_write_offset c" "cn_read_disabled c" c h] assms
    by (simp add: with_io_self map_conn_def)
  then show "cn_decoder c' = cn_decoder c" "cn_out_data c' = cn_out_data c" "cn_write_offset c' = cn_write_offset c"
    "cn_read_disabled c' = cn_read_disabled c" by (metis with_io_simps(3-6))+
qed

definition fd_kept :: "conn_state \<Rightarrow> fault + 'cb reply \<Rightarrow> bool" where
  "fd_kept c r = (case r of Inl _ \<Rightarrow> True | Inr (resp, d, c', h) \<Rightarrow> cn_fd c' = cn_fd c)"

lemma fd_kept_simps [simp]:
  "fd_kept c (reply resp c' h) = (cn_fd c' = cn_fd c)" "fd_kept c (fail code msg c' h) = (cn_fd c' = cn_fd c)" "fd_kept c (Inl err)"
  by (simp_all add: fd_kept_def reply_def fail_def)

lemma publish_to_fd: "fd_kept c (publish_to e t p payload c h)"
proof (cases "check_leader t p h")
  case (Pair lead h1)
  have "fd_kept c (publish_to e t p payload c h)" if "lead" "get_partition t p (rh_registry h1) = Some q" for q
    using that by (cases "store_append (env_now e) payload q") (simp add: publish_to_def Pair Let_def fd_kept_def reply_def fail_def)
  then show ?thesis by (cases lead; cases "get_partition t p (rh_registry h1)") (simp_all add: publish_to_def Pair)
qed

lemma handle_fd: "fd_kept c (handle e f c h)"
proof -
  have rr: "fd_kept c (publish_to e t p payload (c\<lparr>cn_rr_counter := k\<rparr>) h)" for t p payload k h
  proof -
    have "cn_fd (c\<lparr>cn_rr_counter := k\<rparr>) = cn_fd c" by simp
    then show ?thesis using publish_to_fd [of "c\<lparr>cn_rr_counter := k\<rparr>" e t p payload h] unfolding fd_kept_def by metis
  qed
  have "fd_kept c (handle_metadata_req f c h)" "fd_kept c (handle_create_topic e f c h)" "fd_kept c (handle_subscribe f c h)"
    "fd_kept c (handle_fetch f c h)"
    by (simp_all add: handle_metadata_req_def handle_create_topic_def handle_subscribe_def handle_fetch_def Let_def
        split: prod.split option.split sum.split bool.split)
  moreover have "fd_kept c (handle_publish e f c h)" "fd_kept c (handle_publish_v2 e f c h)"
    by (simp_all add: handle_publish_def handle_publish_v2_def Let_def publish_to_fd rr)
  ultimately show ?thesis by (simp add: handle_def)
qed

text \<open>The parts of the broker that answering neither reads nor changes.\<close>

definition with_table :: "'cb broker \<Rightarrow> 'cb broker \<Rightarrow> 'cb broker" where
  "with_table b br = b\<lparr>br_handler := br_handler br, br_managers := br_managers br\<rparr>"

lemma with_table_simps [simp]:
  "br_handler (with_table b br) = br_handler br" "br_managers (with_table b br) = br_managers br"
  "br_heap (with_table b br) = br_heap b" "br_poller (with_table b br) = br_poller b" "br_conns (with_table b br) = br_conns b"
  "br_fresh (with_table b br) = br_fresh b" "br_responses (with_table b br) = br_responses b"
  "br_clients (with_table b br) = br_clients b" "br_calls (with_table b br) = br_calls b"
  "with_table b (with_table b' br) = with_table b br" "with_table br br = br"
  by (simp_all add: with_table_def)

lemma handler_with_table: "with_table b0 br\<lparr>br_handler := h\<rparr> = with_table b0 (br\<lparr>br_handler := h\<rparr>)"
  by (cases br) (simp add: with_table_def)

lemma managers_with_table: "with_table b0 br\<lparr>br_managers := h\<rparr> = with_table b0 (br\<lparr>br_managers := h\<rparr>)"
  by (cases br) (simp add: with_table_def)

lemma broker_meta_table: "broker_meta t p (with_table b0 br) = map_prod id (with_table b0) (broker_meta t p br)"
  by (simp add: broker_meta_def handler_with_table split: prod.split)

lemma get_manager_table:
  "get_or_create_replica_manager t p (with_table b0 br) = with_table b0 (get_or_create_replica_manager t p br)"
  by (simp add: get_or_create_replica_manager_def Let_def broker_meta_table handler_with_table managers_with_table
      cong: option.case_cong)

lemma defer_ack_table: "defer_ack d (with_table b0 br) = with_table b0 (defer_ack d br)"
  by (simp add: defer_ack_def Let_def get_manager_table broker_meta_table managers_with_table split: prod.split option.split)

lemma answer_frames_conn:
  "answer_frames e fs (with_io dec out off dis c) br = map_sum id (\<lambda>(r, c, b). (r, with_io dec out off dis c, b)) (answer_frames e fs c br)"
proof (induction fs arbitrary: c br)
  case (Cons f fs)
  show ?case
  proof (cases "handle e f c (br_handler br)")
    case (Inl a) then show ?thesis by (simp add: handle_conn)
  next
    case (Inr b)
    then show ?thesis
      by (cases b) (simp add: handle_conn map_conn_def Let_def Cons.IH sum.map_comp comp_def split: sum.split)
  qed
qed simp

lemma answer_frames_table:
  "answer_frames e fs c (with_table b0 br) = map_sum id (\<lambda>(r, c, b). (r, c, with_table b0 b)) (answer_frames e fs c br)"
proof (induction fs arbitrary: c br)
  case (Cons f fs)
  show ?case
  proof (cases "handle e f c (br_handler br)")
    case (Inl a) then show ?thesis by simp
  next
    case (Inr b)
    obtain resp d c1 h1 where b: "b = (resp, d, c1, h1)" by (cases b)
    let ?br = "case d of None \<Rightarrow> br\<lparr>br_handler := h1\<rparr> | Some a \<Rightarrow> defer_ack a (br\<lparr>br_handler := h1\<rparr>)"
    have "(case d of None \<Rightarrow> with_table b0 br\<lparr>br_handler := h1\<rparr> | Some a \<Rightarrow> defer_ack a (with_table b0 br\<lparr>br_handler := h1\<rparr>))
        = with_table b0 ?br"
      by (simp add: handler_with_table defer_ack_table split: option.split)
    then show ?thesis using Inr b by (simp add: Let_def Cons.IH split: sum.split)
  qed
qed simp

lemma answer_frames_append:
  "answer_frames e (fs @ gs) c br =
     (case answer_frames e fs c br of
        Inl err \<Rightarrow> Inl err
      | Inr (r, c1, br1) \<Rightarrow>
          (case answer_frames e gs c1 br1 of Inl err \<Rightarrow> Inl err | Inr (r', c2, br2) \<Rightarrow> Inr (r @ r', c2, br2)))"
  by (induction fs arbitrary: c br) (simp_all add: Let_def split: sum.split prod.split)

lemma answer_frames_keeps:
  assumes "answer_frames e fs c br = Inr (r, c', br')"
  shows "cn_decoder c' = cn_decoder c" "cn_out_data c' = cn_out_data c" "cn_write_offset c' = cn_write_offset c"
    "cn_read_disabled c' = cn_read_disabled c" "br' = with_table br br'" "cn_fd c' = cn_fd c"
proof -
  have "c' = with_io (cn_decoder c) (cn_out_data c) (cn_write_offset c) (cn_read_disabled c) c'"
    using answer_frames_conn [of e fs "cn_decoder c" "cn_out_data c" "cn_write_offset c" "cn_read_disabled c" c br] assms
    by (simp add: with_io_self)
  then show "cn_decoder c' = cn_decoder c" "cn_out_data c' = cn_out_data c" "cn_write_offset c' = cn_write_offset c"
    "cn_read_disabled c' = cn_read_disabled c" by (metis with_io_simps(3-6))+
  show "br' = with_table br br'" using answer_frames_table [of e fs c br br] assms by simp
  show "cn_fd c' = cn_fd c" using assms
  proof (induction fs arbitrary: c br r)
    case (Cons f fs)
    then show ?case using handle_fd [of c e f "br_handler br"]
      by (force simp: fd_kept_def Let_def split: sum.splits prod.splits)
  qed simp
qed

section \<open>Reading and writing\<close>

lemma process_read_ok:
  assumes "answer_frames e frames conn br = Inr (resp, conn', br')"
  shows "\<exists>dis po cl. process_read e frames i conn br
     = Inr (with_table (br\<lparr>br_heap := (br_heap br)(i \<mapsto> with_io (cn_decoder conn) (cn_out_data conn @ resp) (cn_write_offset conn) dis conn'),
         br_poller := po, br_calls := cl\<rparr>) br')"
proof -
  note k = answer_frames_keeps [OF assms]
  let ?c = "conn'\<lparr>cn_out_data := cn_out_data conn' @ resp\<rparr>"
  have io: "?c\<lparr>cn_read_disabled := dis\<rparr> = with_io (cn_decoder conn) (cn_out_data conn @ resp) (cn_write_offset conn) dis conn'" for dis
    using k(1-4) by (cases conn') (simp add: with_io_def)
  have br': "br'\<lparr>br_poller := po, br_calls := cl, br_heap := (br_heap br')(i \<mapsto> c)\<rparr>
      = with_table (br\<lparr>br_heap := (br_heap br)(i \<mapsto> c), br_poller := po, br_calls := cl\<rparr>) br'" for c po cl
    using k(5) by (cases br; cases br') (simp add: with_table_def)
  let ?b = "if resp \<noteq> [] then poller_modify (cn_fd ?c) (\<not> cn_read_disabled ?c) True i br' else br'"
  have b: "?b = br'\<lparr>br_poller := br_poller ?b, br_calls := br_calls ?b\<rparr>" by (simp add: poller_modify_def)
  have "\<exists>dis po cl. process_read e frames i conn br
      = Inr (br'\<lparr>br_poller := po, br_calls := cl, br_heap := (br_heap br')(i \<mapsto> ?c\<lparr>cn_read_disabled := dis\<rparr>)\<rparr>)"
  proof (cases "size_sub (length (cn_out_data ?c)) (cn_write_offset ?c) > backpressure_limit \<and> \<not> cn_read_disabled ?c")
    case True
    let ?b2 = "poller_modify (cn_fd ?c) False True i ?b"
    have "process_read e frames i conn br = Inr (store_conn i (?c\<lparr>cn_read_disabled := True\<rparr>) ?b2)"
      using True by (simp add: process_read_def assms Let_def)
    also have "store_conn i (?c\<lparr>cn_read_disabled := True\<rparr>) ?b2
        = br'\<lparr>br_poller := br_poller ?b2, br_calls := br_calls ?b2, br_heap := (br_heap br')(i \<mapsto> ?c\<lparr>cn_read_disabled := True\<rparr>)\<rparr>"
      by (simp add: store_conn_def poller_modify_def)
    finally show ?thesis by blast
  next
    case False
    then have "process_read e frames i conn br = Inr (store_conn i (?c\<lparr>cn_read_disabled := cn_read_disabled conn'\<rparr>) ?b)"
      by (auto simp: process_read_def assms Let_def)
    also have "store_conn i (?c\<lparr>cn_read_disabled := cn_read_disabled conn'\<rparr>) ?b
        = br'\<lparr>br_poller := br_poller ?b, br_calls := br_calls ?b, br_heap := (br_heap br')(i \<mapsto> ?c\<lparr>cn_read_disabled := cn_read_disabled conn'\<rparr>)\<rparr>"
      by (simp add: store_conn_def poller_modify_def)
    finally show ?thesis by blast
  qed
  then show ?thesis unfolding io br' .
qed

lemma on_readable_chunks:
  assumes "push_all cs dec = Inr (fs, Some dec')" "answer_frames e fs conn br = Inr (resp, conn', br')"
    and "br_heap br i = Some (with_io dec out off dis conn)"
  shows "\<exists>dis' po cl. on_readable e (map RecvData cs) i br
     = Inr ([], with_table (br\<lparr>br_heap := (br_heap br)(i \<mapsto> with_io dec' (out @ resp) off dis' conn'), br_poller := po, br_calls := cl\<rparr>) br')"
  using assms
proof (induction cs arbitrary: dec fs conn br br' out dis resp)
  case Nil
  then have n: "fs = []" "dec' = dec" "resp = []" "conn' = conn" "br' = br" by simp_all
  have "br\<lparr>br_heap := (br_heap br)(i \<mapsto> with_io dec' (out @ resp) off dis conn'), br_poller := br_poller br, br_calls := br_calls br\<rparr> = br"
    using Nil(3) n by (cases br) (simp add: fun_upd_idem)
  then have "on_readable e (map RecvData []) i br = Inr ([], with_table
      (br\<lparr>br_heap := (br_heap br)(i \<mapsto> with_io dec' (out @ resp) off dis conn'), br_poller := br_poller br, br_calls := br_calls br\<rparr>) br')"
    using Nil(3) n(5) by (simp only: with_table_simps list.map on_readable.simps option.case)
  then show ?case by blast
next
  case (Cons c cs)
  from Cons.prems(1) obtain n fs1 d1 fs2 where p: "push c dec = Inr (n, fs1, d1)" "n \<noteq> -1" "push_all cs d1 = Inr (fs2, Some dec')"
    "fs = fs1 @ fs2" by (auto split: sum.splits prod.splits if_splits)
  from Cons.prems(2) obtain r1 c1 br1 r2 where a: "answer_frames e fs1 conn br = Inr (r1, c1, br1)"
    "answer_frames e fs2 c1 br1 = Inr (r2, conn', br')" "resp = r1 @ r2"
    by (auto simp: p(4) answer_frames_append split: sum.splits prod.splits)
  have "answer_frames e fs1 (with_io d1 out off dis conn) br = Inr (r1, with_io d1 out off dis c1, br1)"
    by (simp add: answer_frames_conn a(1))
  from process_read_ok [OF this, of i] obtain dis1 po1 cl1 where
    q: "process_read e fs1 i (with_io d1 out off dis conn) br
        = Inr (with_table (br\<lparr>br_heap := (br_heap br)(i \<mapsto> with_io d1 (out @ r1) off dis1 c1), br_poller := po1, br_calls := cl1\<rparr>) br1)" by auto
  let ?b = "br\<lparr>br_heap := (br_heap br)(i \<mapsto> with_io d1 (out @ r1) off dis1 c1), br_poller := po1, br_calls := cl1\<rparr>"
  have a2: "answer_frames e fs2 c1 (with_table ?b br1) = Inr (r2, conn', with_table ?b br')" by (simp add: answer_frames_table a(2))
  have hp: "br_heap (with_table ?b br1) i = Some (with_io d1 (out @ r1) off dis1 c1)" by simp
  from Cons.IH [OF p(3) a2 hp] obtain dis2 po2 cl2 where
    r: "on_readable e (map RecvData cs) i (with_table ?b br1)
        = Inr ([], with_table ((with_table ?b br1)\<lparr>br_heap := (br_heap (with_table ?b br1))(i \<mapsto> with_io dec' ((out @ r1) @ r2) off dis2 conn'),
            br_poller := po2, br_calls := cl2\<rparr>) (with_table ?b br'))" by (elim exE) (rule that)
  have "(with_io dec out off dis conn)\<lparr>cn_decoder := d1\<rparr> = with_io d1 out off dis conn" by (cases conn) (simp add: with_io_def)
  then have "on_readable e (map RecvData (c # cs)) i br = on_readable e (map RecvData cs) i (with_table ?b br1)"
    using Cons.prems(3) p(1,2) q by simp
  moreover have "with_table ((with_table ?b br1)\<lparr>br_heap := (br_heap (with_table ?b br1))(i \<mapsto> with_io dec' ((out @ r1) @ r2) off dis2 conn'),
            br_poller := po2, br_calls := cl2\<rparr>) (with_table ?b br')
      = with_table (br\<lparr>br_heap := (br_heap br)(i \<mapsto> with_io dec' (out @ resp) off dis2 conn'), br_poller := po2, br_calls := cl2\<rparr>) br'"
    by (cases br; cases br1; cases br') (simp add: with_table_def a(3))
  ultimately have "on_readable e (map RecvData (c # cs)) i br
      = Inr ([], with_table (br\<lparr>br_heap := (br_heap br)(i \<mapsto> with_io dec' (out @ resp) off dis2 conn'), br_poller := po2, br_calls := cl2\<rparr>) br')"
    using r by (simp only:)
  then show ?case by blast
qed

text \<open>What is still to be written to a connection.\<close>

definition unsent :: "conn_state \<Rightarrow> bytes" where
  "unsent c = drop (cn_write_offset c) (cn_out_data c)"

fun writes :: "send_result list \<Rightarrow> nat \<Rightarrow> 'cb broker \<Rightarrow> fault + effect list \<times> 'cb broker" where
  "writes [] i br = Inr ([], br)"
| "writes (r # rs) i br =
     (case on_writable r i br of
        Inl err \<Rightarrow> Inl err
      | Inr (evs, br1) \<Rightarrow> (case writes rs i br1 of Inl err \<Rightarrow> Inl err | Inr (evs', br2) \<Rightarrow> Inr (evs @ evs', br2)))"

lemma write_done_unsent:
  "\<exists>c'. br_heap (write_done i c br) i = Some c' \<and> unsent c' = unsent c \<and> cn_fd c' = cn_fd c
     \<and> (cn_write_offset c \<le> length (cn_out_data c) \<longrightarrow> cn_write_offset c' \<le> length (cn_out_data c'))"
  by (simp add: write_done_def store_conn_def poller_modify_def unsent_def)

lemma on_writable_unsent:
  assumes "br_heap br i = Some c" "cn_write_offset c \<le> length (cn_out_data c)" "res \<noteq> SendError"
  shows "\<exists>evs br' c'. on_writable res i br = Inr (evs, br') \<and> br_heap br' i = Some c' \<and> cn_fd c' = cn_fd c
     \<and> cn_write_offset c' \<le> length (cn_out_data c') \<and> sent_to (cn_fd c) evs @ unsent c' = unsent c"
proof (cases "cn_write_offset c < length (cn_out_data c) \<and> (\<exists>k. res = Sent k)")
  case True
  then obtain k where k: "res = Sent k" "cn_write_offset c < length (cn_out_data c)" by auto
  let ?n = "min k (length (cn_out_data c) - cn_write_offset c)"
  let ?c = "c\<lparr>cn_write_offset := cn_write_offset c + ?n\<rparr>"
  obtain c' where c': "br_heap (write_done i ?c br) i = Some c'" "unsent c' = unsent ?c" "cn_fd c' = cn_fd ?c"
    "cn_write_offset c' \<le> length (cn_out_data c')" using write_done_unsent [of i ?c br] k(2) by auto
  have "take ?n (unsent c) @ unsent c' = unsent c"
    unfolding c'(2) by (simp add: unsent_def drop_drop add.commute)
      (metis append_take_drop_id drop_drop add.commute)
  then show ?thesis using assms(1) k c'
    by (intro exI [of _ "if ?n > 0 then [SendData (cn_fd c) (take ?n (drop (cn_write_offset c) (cn_out_data c)))] else []"]
        exI [of _ "write_done i ?c br"] exI [of _ c']) (auto simp: on_writable_def unsent_def Let_def)
next
  case False
  then have "on_writable res i br = Inr ([], write_done i c br)" using assms(1,3) by (cases res) (auto simp: on_writable_def)
  then show ?thesis using write_done_unsent [of i c br] assms(2) by auto
qed

lemma writes_unsent:
  assumes "br_heap br i = Some c" "cn_write_offset c \<le> length (cn_out_data c)" "SendError \<notin> set rs"
  shows "\<exists>evs br' c'. writes rs i br = Inr (evs, br') \<and> br_heap br' i = Some c' \<and> sent_to (cn_fd c) evs @ unsent c' = unsent c"
  using assms
proof (induction rs arbitrary: br c)
  case (Cons r rs)
  from Cons.prems obtain evs br1 c1 where w: "on_writable r i br = Inr (evs, br1)" "br_heap br1 i = Some c1" "cn_fd c1 = cn_fd c"
    "cn_write_offset c1 \<le> length (cn_out_data c1)" "sent_to (cn_fd c) evs @ unsent c1 = unsent c"
    using on_writable_unsent [OF Cons.prems(1,2), of r] by auto
  from Cons.IH [OF w(2,4)] Cons.prems(3) obtain evs' br2 c2 where
    "writes rs i br1 = Inr (evs', br2)" "br_heap br2 i = Some c2" "sent_to (cn_fd c) evs' @ unsent c2 = unsent c1" using w(3) by auto
  then show ?case using w(1,5) by (intro exI [of _ "evs @ evs'"] exI [of _ br2] exI [of _ c2]) simp
qed auto

section \<open>The connection table\<close>

text \<open>What the calls on the poller register, provided that no descriptor is added twice, and that only registered ones are changed
  or removed.\<close>

fun apply_call :: "poller_call \<Rightarrow> (int \<rightharpoonup> registration) \<Rightarrow> (int \<rightharpoonup> registration) option" where
  "apply_call (CallAdd fd r) m = (if m fd = None then Some (m(fd \<mapsto> r)) else None)"
| "apply_call (CallModify fd r) m = (if m fd = None then None else Some (m(fd \<mapsto> r)))"
| "apply_call (CallRemove fd) m = (if m fd = None then None else Some (m(fd := None)))"

fun replay :: "poller_call list \<Rightarrow> (int \<rightharpoonup> registration) \<Rightarrow> (int \<rightharpoonup> registration) option" where
  "replay [] m = Some m"
| "replay (c # cs) m = Option.bind (apply_call c m) (replay cs)"

lemma replay_append: "replay (cs @ ds) m = Option.bind (replay cs m) (replay ds)"
  by (induction cs arbitrary: m) (auto simp: bind_eq_Some_conv split: bind_split)

text \<open>Every connection object is in the table under its socket, is registered with the poller with its own address, with interest in
  reading unless reading is disabled, and with interest in writing when it has unsent output. The table and the poller hold nothing else,
  and the calls on the poller led to what is registered.\<close>

definition broker_inv :: "'cb broker \<Rightarrow> bool" where
  "broker_inv br \<longleftrightarrow>
     (\<forall>i c. br_heap br i = Some c \<longrightarrow> i < br_fresh br \<and> br_conns br (cn_fd c) = Some i \<and> cn_write_offset c \<le> length (cn_out_data c)
        \<and> (\<exists>wr. br_poller br (cn_fd c) = Some (\<not> cn_read_disabled c, wr, i) \<and> (unsent c \<noteq> [] \<longrightarrow> wr)))
     \<and> (\<forall>fd i. br_conns br fd = Some i \<longrightarrow> (\<exists>c. br_heap br i = Some c \<and> cn_fd c = fd))
     \<and> (\<forall>fd r. br_poller br fd = Some r \<longrightarrow> br_conns br fd = Some (snd (snd r)))
     \<and> replay (br_calls br) Map.empty = Some (br_poller br)"

lemma broker_invD:
  assumes "broker_inv br" "br_heap br i = Some c"
  obtains wr where "i < br_fresh br" "br_conns br (cn_fd c) = Some i" "cn_write_offset c \<le> length (cn_out_data c)"
    "br_poller br (cn_fd c) = Some (\<not> cn_read_disabled c, wr, i)" "unsent c \<noteq> [] \<longrightarrow> wr"
  using assms unfolding broker_inv_def by blast

lemma broker_inv_conns: "broker_inv br \<Longrightarrow> br_conns br fd = Some i \<Longrightarrow> \<exists>c. br_heap br i = Some c \<and> cn_fd c = fd"
  by (simp add: broker_inv_def)

lemma broker_inv_poller: "broker_inv br \<Longrightarrow> br_poller br fd = Some r \<Longrightarrow> br_conns br fd = Some (snd (snd r))"
  unfolding broker_inv_def by blast

lemma broker_inv_registered: "broker_inv br \<Longrightarrow> br_heap br i = Some c \<Longrightarrow> br_poller br (cn_fd c) \<noteq> None"
  unfolding broker_inv_def by fastforce

text \<open>A change of a registration is replayed.\<close>

lemma replay_modify:
  assumes "broker_inv br" "br_heap br i = Some c"
  shows "replay (br_calls br @ [CallModify (cn_fd c) r]) Map.empty = Some ((br_poller br)(cn_fd c \<mapsto> r))"
    "replay (br_calls br @ [CallModify (cn_fd c) r, CallModify (cn_fd c) r']) Map.empty = Some ((br_poller br)(cn_fd c \<mapsto> r'))"
  using assms broker_inv_registered [OF assms] unfolding broker_inv_def by (simp_all add: replay_append)

lemma broker_inv_replay: "broker_inv br \<Longrightarrow> replay (br_calls br) Map.empty = Some (br_poller br)"
  by (simp add: broker_inv_def)

lemma broker_inv_cong:
  assumes "broker_inv br" "br_heap br' = br_heap br" "br_conns br' = br_conns br" "br_poller br' = br_poller br" "br_fresh br' = br_fresh br"
    "br_calls br' = br_calls br"
  shows "broker_inv br'"
  using assms by (simp add: broker_inv_def)

lemma broker_inv_update:
  assumes "broker_inv br" "br_heap br i = Some c" "cn_fd c' = cn_fd c" "cn_write_offset c' \<le> length (cn_out_data c')"
    and "br_heap br' = (br_heap br)(i \<mapsto> c')" "br_conns br' = br_conns br" "br_fresh br' = br_fresh br"
    and "br_poller br' = (br_poller br)(cn_fd c \<mapsto> (\<not> cn_read_disabled c', wr, i))" "unsent c' \<noteq> [] \<longrightarrow> wr"
    and "replay (br_calls br') Map.empty = Some (br_poller br')"
  shows "broker_inv br'"
proof -
  obtain wr0 where c: "i < br_fresh br" "br_conns br (cn_fd c) = Some i" by (rule broker_invD [OF assms(1,2)])
  have other: "cn_fd d \<noteq> cn_fd c" if "br_heap br j = Some d" "j \<noteq> i" for j d
    by (rule broker_invD [OF assms(1) that(1)]) (use c(2) that(2) in auto)
  have "j < br_fresh br' \<and> br_conns br' (cn_fd d) = Some j \<and> cn_write_offset d \<le> length (cn_out_data d)
      \<and> (\<exists>wr. br_poller br' (cn_fd d) = Some (\<not> cn_read_disabled d, wr, j) \<and> (unsent d \<noteq> [] \<longrightarrow> wr))"
    if "br_heap br' j = Some d" for j d
  proof (cases "j = i")
    case True then show ?thesis using that assms c by (auto split: if_splits)
  next
    case False
    then have d: "br_heap br j = Some d" using that assms(5) by simp
    show ?thesis by (rule broker_invD [OF assms(1) d]) (use other [OF d False] assms(6-8) in auto)
  qed
  moreover have "\<exists>d. br_heap br' j = Some d \<and> cn_fd d = fd" if "br_conns br' fd = Some j" for fd j
    using broker_inv_conns [OF assms(1), of fd j] that assms(2,3,5,6) by (cases "j = i") auto
  moreover have "br_conns br' fd = Some (snd (snd r))" if "br_poller br' fd = Some r" for fd r
    using that broker_inv_poller [OF assms(1), of fd r] assms(6,8) c(2) by (auto split: if_splits)
  ultimately show ?thesis unfolding broker_inv_def using assms(10) by blast
qed

lemma conn_remove_inv:
  assumes "broker_inv br"
  shows "broker_inv (snd (conn_remove fd br))"
proof (cases "br_conns br fd")
  case None then show ?thesis using assms by (simp add: conn_remove_def)
next
  case (Some i)
  then obtain c where c: "br_heap br i = Some c" "cn_fd c = fd" using broker_inv_conns [OF assms] by blast
  let ?b = "snd (conn_remove fd br)"
  have b: "br_heap ?b = (br_heap br)(i := None)" "br_conns ?b = (br_conns br)(fd := None)" "br_poller ?b = (br_poller br)(fd := None)"
    "br_fresh ?b = br_fresh br" using Some by (simp_all add: conn_remove_def)
  have "j < br_fresh ?b \<and> br_conns ?b (cn_fd d) = Some j \<and> cn_write_offset d \<le> length (cn_out_data d)
      \<and> (\<exists>wr. br_poller ?b (cn_fd d) = Some (\<not> cn_read_disabled d, wr, j) \<and> (unsent d \<noteq> [] \<longrightarrow> wr))"
    if "br_heap ?b j = Some d" for j d
  proof -
    have d: "br_heap br j = Some d" "j \<noteq> i" using that b(1) by (auto split: if_splits)
    show ?thesis by (rule broker_invD [OF assms d(1)]) (use b d(2) Some in auto)
  qed
  moreover have "\<exists>d. br_heap ?b j = Some d \<and> cn_fd d = fd'" if "br_conns ?b fd' = Some j" for fd' j
    using that b broker_inv_conns [OF assms, of fd' j] c by (auto split: if_splits)
  moreover have "br_conns ?b fd' = Some (snd (snd r))" if "br_poller ?b fd' = Some r" for fd' r
    using that b broker_inv_poller [OF assms, of fd' r] by (auto split: if_splits)
  moreover have "br_poller br fd \<noteq> None" using broker_inv_registered [OF assms c(1)] c(2) by simp
  then have "replay (br_calls ?b) Map.empty = Some (br_poller ?b)"
    using Some broker_inv_replay [OF assms] by (simp add: conn_remove_def replay_append)
  ultimately show ?thesis unfolding broker_inv_def by blast
qed

lemma conn_add_fields:
  fixes fd and br :: "'cb broker"
  defines "b \<equiv> snd (conn_remove fd br)"
  shows "br_heap (snd (conn_add fd br)) = (br_heap b)(br_fresh b \<mapsto> ConnectionState (br_max_frame_size b) fd)"
    "br_conns (snd (conn_add fd br)) = (br_conns b)(fd \<mapsto> br_fresh b)"
    "br_poller (snd (conn_add fd br)) = (br_poller b)(fd \<mapsto> (True, False, br_fresh b))"
    "br_fresh (snd (conn_add fd br)) = Suc (br_fresh b)"
    "br_calls (snd (conn_add fd br)) = br_calls b @ [CallAdd fd (True, False, br_fresh b)]"
  unfolding conn_add_def b_def case_prod_beta snd_conv by simp_all

lemma conn_add_inv:
  assumes "broker_inv br"
  shows "broker_inv (snd (conn_add fd br))"
proof -
  define r1 where "r1 = snd (conn_remove fd br)"
  define b1 where "b1 = snd (conn_add fd br)"
  define n where "n = br_fresh r1"
  have r: "broker_inv r1" unfolding r1_def by (rule conn_remove_inv [OF assms])
  have free: "br_conns r1 fd = None" by (simp add: r1_def conn_remove_def split: option.split)
  have b: "br_heap b1 = (br_heap r1)(n \<mapsto> ConnectionState (br_max_frame_size r1) fd)" "br_conns b1 = (br_conns r1)(fd \<mapsto> n)"
    "br_poller b1 = (br_poller r1)(fd \<mapsto> (True, False, n))" "br_fresh b1 = Suc n"
    "br_calls b1 = br_calls r1 @ [CallAdd fd (True, False, n)]"
    by (simp_all add: b1_def r1_def n_def conn_add_fields)
  have "j < br_fresh b1 \<and> br_conns b1 (cn_fd d) = Some j \<and> cn_write_offset d \<le> length (cn_out_data d)
      \<and> (\<exists>wr. br_poller b1 (cn_fd d) = Some (\<not> cn_read_disabled d, wr, j) \<and> (unsent d \<noteq> [] \<longrightarrow> wr))"
    if "br_heap b1 j = Some d" for j d
  proof (cases "j = n")
    case True
    then have d: "d = ConnectionState (br_max_frame_size r1) fd" using that b(1) by simp
    show ?thesis unfolding d using True b(2-4) by (simp add: ConnectionState_def unsent_def exI [of Not False])
  next
    case False
    then have d: "br_heap r1 j = Some d" using that b(1) by simp
    show ?thesis by (rule broker_invD [OF r d]) (use b free in \<open>auto simp: n_def\<close>)
  qed
  moreover have "\<exists>d. br_heap b1 j = Some d \<and> cn_fd d = fd'" if "br_conns b1 fd' = Some j" for fd' j
  proof (cases "fd' = fd")
    case True
    then have "j = n" using that b(2) by simp
    then show ?thesis using True b(1) by (simp add: ConnectionState_def)
  next
    case False
    then have "br_conns r1 fd' = Some j" using that b(2) by simp
    then obtain d where d: "br_heap r1 j = Some d" "cn_fd d = fd'" using broker_inv_conns [OF r] by blast
    have "j \<noteq> n" by (rule broker_invD [OF r d(1)]) (simp add: n_def)
    then show ?thesis using d b by simp
  qed
  moreover have "br_conns b1 fd' = Some (snd (snd q))" if "br_poller b1 fd' = Some q" for fd' q
    using that b broker_inv_poller [OF r, of fd' q] by (auto split: if_splits)
  moreover have "br_poller r1 fd = None" using broker_inv_poller [OF r, of fd] free by (cases "br_poller r1 fd") auto
  then have "replay (br_calls b1) Map.empty = Some (br_poller b1)" using broker_inv_replay [OF r] b(3,5) by (simp add: replay_append)
  ultimately have "broker_inv b1" unfolding broker_inv_def by blast
  then show ?thesis by (simp add: b1_def)
qed

lemma accept_all_inv: "broker_inv br \<Longrightarrow> broker_inv (snd (accept_all fds br))"
proof (induction fds arbitrary: br)
  case (Cons fd fds)
  then show ?case using conn_add_inv [OF Cons.prems, of fd] by (simp add: split_beta)
qed simp

lemma append_output_inv:
  assumes "broker_inv br"
  shows "broker_inv (append_output i bs br)"
proof (cases "br_heap br i")
  case (Some c)
  obtain wr where w: "cn_write_offset c \<le> length (cn_out_data c)" by (rule broker_invD [OF assms Some])
  show ?thesis
    by (rule broker_inv_update [OF assms Some, of "c\<lparr>cn_out_data := cn_out_data c @ bs\<rparr>", where wr = True])
      (use w Some replay_modify(1) [OF assms Some] in \<open>auto simp: append_output_def poller_modify_def\<close>)
qed (simp add: append_output_def assms)

lemma drain_inv: "broker_inv br \<Longrightarrow> broker_inv (drain_response_queue br)"
proof -
  assume inv: "broker_inv br"
  have "broker_inv b \<Longrightarrow> broker_inv (fold (\<lambda>(fd, bs) br. case conn_get fd br of None \<Rightarrow> br | Some i \<Rightarrow> append_output i bs br) rs b)" for rs and b :: "'a broker"
    by (induction rs arbitrary: b) (auto simp: append_output_inv split: option.split)
  then show ?thesis using broker_inv_cong [OF inv, of "br\<lparr>br_responses := []\<rparr>"] by (simp add: drain_response_queue_def)
qed

lemma process_read_inv:
  assumes "broker_inv br" "br_heap br i = Some c" "process_read e fs i (c\<lparr>cn_decoder := dec\<rparr>) br = Inr br'"
  shows "broker_inv br'"
proof -
  let ?c = "c\<lparr>cn_decoder := dec\<rparr>"
  obtain resp c1 br1 where a: "answer_frames e fs ?c br = Inr (resp, c1, br1)"
    using assms(3) by (auto simp: process_read_def split: sum.splits)
  note k = answer_frames_keeps [OF a]
  have b1: "br_heap br1 = br_heap br" "br_conns br1 = br_conns br" "br_poller br1 = br_poller br" "br_fresh br1 = br_fresh br" "br_calls br1 = br_calls br"
    using arg_cong [OF k(5), of br_heap] arg_cong [OF k(5), of br_conns] arg_cong [OF k(5), of br_poller]
      arg_cong [OF k(5), of br_fresh] arg_cong [OF k(5), of br_calls] by simp_all
  obtain wr where c: "cn_write_offset c \<le> length (cn_out_data c)" "br_poller br (cn_fd c) = Some (\<not> cn_read_disabled c, wr, i)"
    "unsent c \<noteq> [] \<longrightarrow> wr" by (rule broker_invD [OF assms(1,2)])
  let ?c2 = "c1\<lparr>cn_out_data := cn_out_data c1 @ resp\<rparr>"
  let ?full = "size_sub (length (cn_out_data ?c2)) (cn_write_offset ?c2) > backpressure_limit \<and> \<not> cn_read_disabled ?c2"
  let ?c3 = "if ?full then ?c2\<lparr>cn_read_disabled := True\<rparr> else ?c2"
  have br': "br_heap br' = (br_heap br)(i \<mapsto> ?c3)" "br_conns br' = br_conns br" "br_fresh br' = br_fresh br"
    "br_poller br' = (if resp = [] \<and> \<not> ?full then br_poller br else (br_poller br)(cn_fd c \<mapsto> (\<not> cn_read_disabled ?c3, True, i)))"
    using assms(3) b1 k(6) by (auto simp: process_read_def a store_conn_def poller_modify_def Let_def split: if_split_asm)
  have cl: "replay (br_calls br') Map.empty = Some (br_poller br')"
    using assms(3) b1 k(6) replay_modify [OF assms(1,2)] broker_inv_replay [OF assms(1)]
    by (auto simp: process_read_def a store_conn_def poller_modify_def Let_def split: if_split_asm)
  have out: "cn_write_offset ?c3 \<le> length (cn_out_data ?c3)" using c(1) k(2,3) by simp
  show ?thesis
  proof (cases "resp = [] \<and> \<not> ?full")
    case True
    have po: "br_poller br' = (br_poller br)(cn_fd c \<mapsto> (\<not> cn_read_disabled ?c3, wr, i))"
      using br'(4) True k(4) c(2) by (simp add: fun_upd_idem)
    show ?thesis
      by (rule broker_inv_update [OF assms(1,2) _ out br'(1-3) po _ cl]) (use k c(3) True in \<open>simp_all add: unsent_def\<close>)
  next
    case False
    then have po: "br_poller br' = (br_poller br)(cn_fd c \<mapsto> (\<not> cn_read_disabled ?c3, True, i))" using br'(4) by argo
    show ?thesis by (rule broker_inv_update [OF assms(1,2) _ out br'(1-3) po _ cl]) (use k in simp_all)
  qed
qed

lemma on_hangup_inv: "broker_inv br \<Longrightarrow> on_hangup c br = (evs, br') \<Longrightarrow> broker_inv br'"
  using conn_remove_inv [of br "cn_fd c"] by (simp add: on_hangup_def)

lemma on_readable_inv:
  "broker_inv br \<Longrightarrow> on_readable e rs i br = Inr (evs, br') \<Longrightarrow> broker_inv br'"
proof (induction e rs i br arbitrary: evs rule: on_readable.induct)
  case (2 e r rs i br)
  from 2(3) obtain c where c: "br_heap br i = Some c" by (auto split: option.splits)
  show ?case
  proof (cases r)
    case (RecvData d)
    then obtain n fs dec where p: "push d (cn_decoder c) = Inr (n, fs, dec)" using 2(3) c by (auto split: sum.splits)
    show ?thesis
    proof (cases "n = -1")
      case True then show ?thesis using 2(2,3) c p RecvData by (auto intro: on_hangup_inv)
    next
      case False
      then obtain br1 where q: "process_read e fs i (c\<lparr>cn_decoder := dec\<rparr>) br = Inr br1" "on_readable e rs i br1 = Inr (evs, br')"
        using 2(3) c p RecvData by (auto split: sum.splits)
      show ?thesis using 2(1) [OF c RecvData p refl refl refl False q(1) process_read_inv [OF 2(2) c q(1)] q(2)] by simp
    qed
  qed (use 2(2,3) c in \<open>auto intro: on_hangup_inv\<close>)
qed (auto split: option.splits)

lemma write_done_inv:
  assumes "broker_inv br" "br_heap br i = Some c" "cn_fd c' = cn_fd c" "cn_write_offset c' \<le> length (cn_out_data c')"
    "cn_read_disabled c' = cn_read_disabled c" "unsent c' \<noteq> [] \<longrightarrow> unsent c \<noteq> []"
  shows "broker_inv (write_done i c' br)"
proof -
  obtain wr where c: "br_poller br (cn_fd c) = Some (\<not> cn_read_disabled c, wr, i)"
    "unsent c \<noteq> [] \<longrightarrow> wr" by (rule broker_invD [OF assms(1,2)])
  show ?thesis
  proof (cases "cn_write_offset c' = length (cn_out_data c')")
    case True
    then show ?thesis
      by (intro broker_inv_update [OF assms(1,2), of "c'\<lparr>cn_out_data := [], cn_write_offset := 0, cn_read_disabled := False\<rparr>" _ False])
        (simp_all add: assms(3) write_done_def store_conn_def poller_modify_def unsent_def replay_modify [OF assms(1,2)])
  next
    case False
    then show ?thesis
      by (intro broker_inv_update [OF assms(1-4), of _ wr])
        (use c assms(5,6) broker_inv_replay [OF assms(1)] in \<open>simp_all add: write_done_def store_conn_def fun_upd_idem\<close>)
  qed
qed

lemma on_writable_inv:
  assumes "broker_inv br" "on_writable res i br = Inr (evs, br')"
  shows "broker_inv br'"
proof -
  from assms(2) obtain c where c: "br_heap br i = Some c" by (auto simp: on_writable_def split: option.splits)
  have w: "cn_write_offset c \<le> length (cn_out_data c)" by (rule broker_invD [OF assms(1) c])
  have "broker_inv (write_done i (c\<lparr>cn_write_offset := cn_write_offset c + n\<rparr>) br)" if "n \<le> length (cn_out_data c) - cn_write_offset c" for n
    by (rule write_done_inv [OF assms(1) c]) (use that w in \<open>auto simp: unsent_def\<close>)
  moreover have "broker_inv (write_done i c br)" by (rule write_done_inv [OF assms(1) c]) (use w in simp_all)
  ultimately show ?thesis
    using assms c by (auto simp: on_writable_def Let_def split: if_splits send_result.splits intro: on_hangup_inv)
qed

lemma poll_event_inv:
  assumes "broker_inv br" "broker_poll_event e ev br = Inr (evs, br')"
  shows "broker_inv br'"
proof (cases ev)
  case (AcceptEvent fds)
  then show ?thesis using assms accept_all_inv [of br fds] by simp
next
  case (ConnEvent i hup readable writable rs res)
  show ?thesis
  proof (cases hup)
    case True
    then show ?thesis using assms ConnEvent by (auto split: option.splits intro: on_hangup_inv)
  next
    case False
    then obtain evs1 br1 where r: "(if readable then on_readable e rs i br else Inr ([], br)) = Inr (evs1, br1)"
      using assms(2) ConnEvent by (auto split: sum.splits)
    then have "broker_inv br1" using assms(1) on_readable_inv by (auto split: if_splits)
    then show ?thesis using assms(2) ConnEvent False r on_writable_inv by (auto split: sum.splits if_split_asm)
  qed
qed (use assms in simp)

lemma events_inv: "broker_inv br \<Longrightarrow> broker_events e evs br = Inr (es, br') \<Longrightarrow> broker_inv br'"
proof (induction evs arbitrary: br es)
  case (Cons ev evs)
  then obtain es1 br1 es2 where "broker_poll_event e ev br = Inr (es1, br1)" "broker_events e evs br1 = Inr (es2, br')"
    by (auto split: sum.splits)
  then show ?case using Cons.IH poll_event_inv [OF Cons.prems(1)] by blast
qed simp

lemma turn_inv: "broker_inv br \<Longrightarrow> broker_turn e evs br = Inr (es, br') \<Longrightarrow> broker_inv br'"
  unfolding broker_turn_def by (rule events_inv [OF drain_inv])

text \<open>What the reactor owns of the state, which the replication callbacks leave alone.\<close>

definition reactor :: "'cb broker \<Rightarrow> (nat \<rightharpoonup> conn_state) \<times> (int \<rightharpoonup> nat) \<times> (int \<rightharpoonup> registration) \<times> nat \<times> poller_call list" where
  "reactor br = (br_heap br, br_conns br, br_poller br, br_fresh br, br_calls br)"

lemma broker_inv_reactor: "reactor br' = reactor br \<Longrightarrow> broker_inv br' = broker_inv br"
  by (simp add: reactor_def broker_inv_def)

lemma broker_meta_reactor: "broker_meta t p br = (m, br') \<Longrightarrow> reactor br' = reactor br"
  by (auto simp: broker_meta_def reactor_def split: prod.splits)

lemma get_manager_reactor: "reactor (get_or_create_replica_manager t p br) = reactor br"
  using broker_meta_reactor [of t p br] by (simp add: get_or_create_replica_manager_def Let_def reactor_def) (metis prod.collapse)

lemma post_responses_reactor: "reactor (snd (post_responses rs br)) = reactor br"
  by (induction rs arbitrary: br) (simp_all add: post_response_def reactor_def split_beta)

lemma replica_ack_cb_reactor: "reactor (snd (replica_ack_cb f off t p br)) = reactor br"
  by (simp add: replica_ack_cb_def Let_def post_responses_reactor split: option.split prod.split)
    (simp add: reactor_def broker_meta_def split: prod.splits)

lemma fetch_log_cb_reactor: "reactor (fetch_log_cb f t p fd br) = reactor br"
  by (simp add: fetch_log_cb_def reactor_def Let_def split: option.split)

lemma get_client_reactor: "reactor (get_or_create_replication_client t p br) = reactor br"
  by (simp add: get_or_create_replication_client_def Let_def reactor_def)

lemma start_partition_reactor: "reactor (start_partition t p br) = reactor br"
  using broker_meta_reactor [of t p br]
  by (cases "broker_meta t p br") (simp add: start_partition_def get_manager_reactor get_client_reactor)

lemma initialize_replication_reactor: "reactor (initialize_replication br) = reactor br"
proof -
  have inner: "reactor (fold (\<lambda>p br. start_partition t (of_nat p) br) ps br) = reactor br" for t ps and br :: "'a broker"
    by (induction ps arbitrary: br) (simp_all add: start_partition_reactor)
  have outer: "reactor (fold (\<lambda>(t, n) br. fold (\<lambda>p br. start_partition t (of_nat p) br) [0..<unat n] br) ts br) = reactor br"
    for ts :: "(string \<times> u16) list" and br :: "'a broker"
    by (induction ts arbitrary: br) (auto simp: inner)
  show ?thesis by (simp add: initialize_replication_def Let_def outer split: option.split) (simp add: reactor_def)
qed

text \<open>The states a broker goes through: its reactor takes turns, the replication server calls back, and other threads change the
  partitions, the metadata and the managers, and post responses.\<close>

inductive broker_reach :: "'cb broker \<Rightarrow> bool" where
  reach_start: "Broker now listing cfg m opts nfd = Inr br \<Longrightarrow> broker_reach (initialize_replication br)"
| reach_turn: "broker_reach br \<Longrightarrow> broker_turn e evs br = Inr (es, br') \<Longrightarrow> broker_reach br'"
| reach_ack: "broker_reach br \<Longrightarrow> broker_reach (snd (replica_ack_cb follower off t p br))"
| reach_fetch: "broker_reach br \<Longrightarrow> broker_reach (fetch_log_cb follower t p fd br)"
| reach_post: "broker_reach br \<Longrightarrow> broker_reach (snd (post_response fd resp br))"
| reach_other: "broker_reach br \<Longrightarrow> broker_reach (br\<lparr>br_handler := h, br_managers := ms\<rparr>)"

lemma Broker_inv: "Broker now listing cfg m opts nfd = Inr br \<Longrightarrow> broker_inv br"
  by (auto simp: Broker_def init_broker_def broker_inv_def split: sum.splits)

lemma reach_inv: "broker_reach br \<Longrightarrow> broker_inv br"
proof (induction rule: broker_reach.induct)
  case reach_start then show ?case using Broker_inv broker_inv_reactor [OF initialize_replication_reactor] by blast
next
  case reach_turn then show ?case using turn_inv by blast
next
  case reach_ack then show ?case using broker_inv_reactor [OF replica_ack_cb_reactor] by blast
next
  case reach_fetch then show ?case using broker_inv_reactor [OF fetch_log_cb_reactor] by blast
next
  case (reach_post br fd resp)
  then show ?case using broker_inv_reactor [of "snd (post_response fd resp br)" br] by (simp add: post_response_def reactor_def)
next
  case (reach_other br ms h)
  then show ?case using broker_inv_reactor [of "br\<lparr>br_handler := h, br_managers := ms\<rparr>" br] by (simp add: reactor_def)
qed

lemma event_loop_reach: "broker_reach br \<Longrightarrow> event_loop ts br = Inr (es, br') \<Longrightarrow> broker_reach br'"
proof (induction ts arbitrary: br es)
  case (Cons t ts)
  then obtain es1 br1 es2 where "broker_turn (fst t) (snd t) br = Inr (es1, br1)" "event_loop ts br1 = Inr (es2, br')"
    by (cases t) (auto split: sum.splits)
  then show ?case using Cons.IH reach_turn [OF Cons.prems(1)] by blast
qed simp

lemma broker_run_reach:
  assumes "Broker now listing cfg m opts nfd = Inr br" "broker_run listen_fd ts br = Inr (es, br')"
  shows "broker_reach br'"
  using assms(2) event_loop_reach [OF reach_start [OF assms(1)], of ts] by (auto simp: broker_run_def split: sum.splits)

section \<open>Roles at start-up\<close>

text \<open>Nothing that is started for a partition changes metadata that is already there.\<close>

definition meta_entry :: "string \<Rightarrow> u16 \<Rightarrow> 'cb broker \<Rightarrow> partition_meta option" where
  "meta_entry t p br = (case rh_meta (br_handler br) of None \<Rightarrow> None | Some reg \<Rightarrow> reg (make_key t p))"

lemma broker_meta_entry: "meta_entry t p br = Some m \<Longrightarrow> meta_entry t p (snd (broker_meta u q br)) = Some m"
  by (auto simp: meta_entry_def broker_meta_def meta_of_def meta_get_def Let_def split: option.splits prod.splits)

lemma broker_meta_value: "meta_entry t p br = Some m \<Longrightarrow> fst (broker_meta t p br) = m"
  by (auto simp: meta_entry_def broker_meta_def meta_of_def meta_get_def Let_def split: option.splits prod.splits)

lemma start_partition_entry:
  assumes "meta_entry t p br = Some m"
  shows "meta_entry t p (start_partition u q br) = Some m"
proof -
  have man: "meta_entry t p (get_or_create_replica_manager u q b) = Some m" if "meta_entry t p b = Some m" for b :: "'a broker"
    using broker_meta_entry [OF that, of u q] that
    by (cases "br_managers b (replication_key u q)") (simp_all add: get_or_create_replica_manager_def Let_def meta_entry_def)
  have cli: "meta_entry t p (get_or_create_replication_client u q b) = meta_entry t p b" for b :: "'a broker"
    by (simp add: get_or_create_replication_client_def Let_def meta_entry_def)
  show ?thesis using broker_meta_entry [OF assms, of u q] man cli by (simp add: start_partition_def split_beta)
qed

lemma start_partition_client:
  assumes "meta_entry t p br = Some m" "pm_role m \<noteq> Leader"
  shows "br_clients (start_partition t p br) (replication_key t p) \<noteq> None"
  using assms(2) broker_meta_value [OF assms(1)]
  by (simp add: start_partition_def split_beta get_or_create_replication_client_def Let_def)

text \<open>The partitions that \<open>initialize_replication\<close> starts, in its order.\<close>

definition partitions_in :: "(string \<times> u16) list \<Rightarrow> (string \<times> u16) list" where
  "partitions_in ts = concat (map (\<lambda>(t, n). map (\<lambda>p. (t, of_nat p)) [0..<unat n]) ts)"

lemma in_partitions_in: "(t, n) \<in> set ts \<Longrightarrow> p < n \<Longrightarrow> (t, p) \<in> set (partitions_in ts)"
  unfolding partitions_in_def by (force simp: word_less_nat_alt intro!: bexI [of _ "(t, n)"] image_eqI [of _ _ "unat p"])

lemma fold_partitions_in:
  "fold (\<lambda>(t, n) br. fold (\<lambda>p br. start_partition t (of_nat p) br) [0..<unat n] br) ts br
     = fold (\<lambda>(t, p). start_partition t p) (partitions_in ts) br"
  by (induction ts arbitrary: br) (auto simp: partitions_in_def fold_map comp_def)

lemma fold_start_partition:
  assumes "meta_entry t p br = Some m"
  shows "meta_entry t p (fold (\<lambda>(t, p). start_partition t p) tps br) = Some m"
    and "pm_role m \<noteq> Leader \<Longrightarrow> (t, p) \<in> set tps \<Longrightarrow>
      br_clients (fold (\<lambda>(t, p). start_partition t p) tps br) (replication_key t p) \<noteq> None"
proof -
  have keep1: "br_clients b k \<noteq> None \<Longrightarrow> br_clients (start_partition u q b) k \<noteq> None" for u q k and b :: "'a broker"
    by (auto simp: start_partition_def get_or_create_replica_manager_def get_or_create_replication_client_def broker_meta_def Let_def
        split: prod.split)
  have keep: "br_clients b k \<noteq> None \<Longrightarrow> br_clients (fold (\<lambda>(t, p). start_partition t p) tps b) k \<noteq> None" for k tps and b :: "'a broker"
    by (induction tps arbitrary: b) (simp_all add: keep1 split_beta del: not_None_eq)
  show "meta_entry t p (fold (\<lambda>(t, p). start_partition t p) tps br) = Some m"
    using assms by (induction tps arbitrary: br) (auto simp: start_partition_entry)
  show "br_clients (fold (\<lambda>(t, p). start_partition t p) tps br) (replication_key t p) \<noteq> None"
    if "pm_role m \<noteq> Leader" "(t, p) \<in> set tps" using assms that(2)
  proof (induction tps arbitrary: br)
    case (Cons tp tps)
    show ?case
    proof (cases "tp = (t, p)")
      case True then show ?thesis using keep [OF start_partition_client [OF Cons.prems(1) that(1)]] by simp
    next
      case False then show ?thesis using Cons by (cases tp) (auto simp: start_partition_entry)
    qed
  qed simp
qed

lemma initialize_replication_role:
  assumes "rh_cfg (br_handler br) = Some cfg" "rh_meta (br_handler br) = Some reg"
    and "(t, n) \<in> set (list_topics (rh_registry (br_handler br)))" "p < n"
  shows "\<exists>mo. meta_entry t p (initialize_replication br) = Some (seeded (cfg_broker_id cfg) (num_brokers cfg) t p mo)"
    and "ucast p mod num_brokers cfg \<noteq> cfg_broker_id cfg \<Longrightarrow> br_clients (initialize_replication br) (replication_key t p) \<noteq> None"
proof -
  let ?ts = "list_topics (rh_registry (br_handler br))" and ?h = "br_handler br"
  let ?m = "assign_roles (cfg_broker_id cfg) (num_brokers cfg) (map fst ?ts) (map snd ?ts) reg"
  let ?br = "br\<lparr>br_handler := ?h\<lparr>rh_meta := Some ?m\<rparr>\<rparr>"
  have init: "initialize_replication br = fold (\<lambda>(t, p). start_partition t p) (partitions_in ?ts) ?br"
    by (simp add: initialize_replication_def Let_def assms(1,2) fold_partitions_in)
  have "1 \<le> num_brokers cfg" by (simp add: num_brokers_def)
  then have "num_brokers cfg \<noteq> 0" by auto
  moreover have "zip (map fst ?ts) (map snd ?ts @ replicate (length ?ts) 1) = ?ts" by (simp add: zip_append2 zip_map_fst_snd)
  ultimately have "?m (make_key t p) = Some (seeded (cfg_broker_id cfg) (num_brokers cfg) t p (reg (make_key t p)))"
    using assms(3,4) by (auto simp: assign_roles_def fold_assign_topic_lookup)
  then have m: "meta_entry t p ?br = Some (seeded (cfg_broker_id cfg) (num_brokers cfg) t p (reg (make_key t p)))"
    by (simp add: meta_entry_def)
  show "\<exists>mo. meta_entry t p (initialize_replication br) = Some (seeded (cfg_broker_id cfg) (num_brokers cfg) t p mo)"
    unfolding init using fold_start_partition(1) [OF m] by blast
  show "br_clients (initialize_replication br) (replication_key t p) \<noteq> None" if "ucast p mod num_brokers cfg \<noteq> cfg_broker_id cfg"
    unfolding init by (rule fold_start_partition(2) [OF m _ in_partitions_in [OF assms(3,4)]]) (use that in \<open>simp add: seeded_def\<close>)
qed

section \<open>Examples\<close>

text \<open>A broker of the default cluster with a topic of four partitions, and a connection with a byte to be written.\<close>

definition example_broker :: "unit broker" where
  "example_broker =
     \<lparr>br_heap = [0 \<mapsto> (ConnectionState 100 4)\<lparr>cn_out_data := [7]\<rparr>], br_fresh = 1, br_conns = [4 \<mapsto> 0], br_max_frame_size = 100,
      br_poller = [4 \<mapsto> (True, True, 0)], br_calls = [CallAdd 4 (True, False, 0), CallModify 4 (True, True, 0)],
      br_handler = (example_with (empty_store default_options 0))
        \<lparr>rh_registry := \<lparr>tr_topics = [(''t'', replicate 4 (Some (empty_store default_options 0)))], tr_data_root = ''data'',
           tr_storage_options = default_options\<rparr>,
         rh_cfg := Some (config_defaults\<lparr>cfg_peers := default_peers\<rparr>), rh_meta := Some Map.empty\<rparr>,
      br_managers = Map.empty, br_clients = Map.empty, br_responses = [], br_notify_write_fd = 9\<rparr>"

lemma example_broker_inv: "broker_inv example_broker"
  by (auto simp: example_broker_def broker_inv_def unsent_def ConnectionState_def split: if_splits)

text \<open>A broker without topics that has accepted one connection.\<close>

lemma example_accepting:
  obtains br :: "unit broker" where "broker_reach br" "br_calls br = [CallAdd 4 (True, False, 0)]" "br_poller br = [4 \<mapsto> (True, False, 0)]"
    "br_heap br = [0 \<mapsto> ConnectionState 100 4]" "br_conns br = [4 \<mapsto> 0]" "br_responses br = []"
proof -
  obtain br0 :: "unit broker" where b: "Broker 5 None config_defaults 100 default_options 9 = Inr br0"
    by (simp add: Broker_def init_broker_def recover_all_def)
  let ?b1 = "initialize_replication br0"
  have 0: "br_calls br0 = []" "br_poller br0 = Map.empty" "br_fresh br0 = 0" "br_conns br0 = Map.empty" "br_responses br0 = []"
    "tr_topics (rh_registry (br_handler br0)) = []" "br_heap br0 = Map.empty" "br_max_frame_size br0 = 100"
    using b by (auto simp: Broker_def init_broker_def recover_all_def TopicRegistry_def split: sum.splits)
  have "reactor ?b1 = reactor br0" by (rule initialize_replication_reactor)
  moreover have "br_responses ?b1 = []" "br_max_frame_size ?b1 = 100"
    using 0 by (simp_all add: initialize_replication_def list_topics_def Let_def split: option.split)
  ultimately have 1: "br_calls ?b1 = []" "br_poller ?b1 = Map.empty" "br_fresh ?b1 = 0" "br_conns ?b1 = Map.empty" "drain_response_queue ?b1 = ?b1"
    "br_heap ?b1 = Map.empty" "br_responses ?b1 = []" "br_max_frame_size ?b1 = 100"
    using 0 by (simp_all add: reactor_def drain_response_queue_def)
  have "broker_turn example_env [AcceptEvent [4]] ?b1 = Inr (accept_all [4] ?b1)" by (simp add: broker_turn_def 1 split: prod.split)
  then have "broker_reach (snd (accept_all [4] ?b1))" using reach_turn [OF reach_start [OF b]] by (metis prod.collapse)
  then show ?thesis using that 1 by (simp add: split_beta conn_add_def conn_remove_def)
qed

section \<open>Properties\<close>

text \<open>C16. The reactor keeps its books. In every state the broker reaches, each live connection is in the table under its socket and is
  registered with the poller under its own address, reading unless backpressure stopped it, and writing whenever it has
  unsent output; neither the table nor the poller refers to a connection that was deleted.\<close>

theorem reactor_invariant:
  assumes "broker_reach br"
  shows "broker_inv br"
  using assms by (rule reach_inv)

theorem reactor_invariant_witness:
  "\<exists>br :: unit broker. broker_reach br \<and> br_conns br 4 \<noteq> None \<and> broker_inv br"
proof -
  obtain br :: "unit broker" where br: "broker_reach br" "br_conns br = [4 \<mapsto> 0]" by (rule example_accepting)
  with reactor_invariant [OF br(1)] show ?thesis by auto
qed



text \<open>A connection that a read closes is used again. When the client of a connection with queued output closes it, and the
  poller reports it as readable and writable at once, the read deletes the connection and the write that follows uses
  the deleted object.\<close>

theorem closed_connection_written:
  assumes "broker_inv br" "br_poller br fd = Some (True, True, i)" "r = RecvEof \<or> r = RecvError"
  shows "broker_poll_event e (ConnEvent i False True True (r # rs) res) br = Inl Dangling"
proof -
  have fd: "br_conns br fd = Some i" using broker_inv_poller [OF assms(1,2)] by simp
  then obtain c where c: "br_heap br i = Some c" "cn_fd c = fd" using broker_inv_conns [OF assms(1)] by blast
  have "br_heap (snd (on_hangup c br)) i = None" using fd c(2) by (simp add: on_hangup_def conn_remove_def)
  moreover have "on_readable e (r # rs) i br = Inr (on_hangup c br)" using assms(3) c(1) by auto
  ultimately show ?thesis by (cases "on_hangup c br") (simp add: on_writable_def)
qed

theorem closed_connection_written_witness:
  "broker_poll_event example_env (ConnEvent 0 False True True [RecvEof] (Sent 1)) example_broker = Inl Dangling"
  by (rule closed_connection_written [OF example_broker_inv, of 4]) (simp_all add: example_broker_def)

text \<open>Some partitions have no leader. The configuration lists all \<open>k\<close> brokers, this one included, and the broker counts \<open>k + 1\<close>. So on
  every broker, a partition \<open>p\<close> with \<open>p mod (k + 1) = k\<close> is led by a broker that does not exist: at start-up it takes the role of
  a follower, is replicated from a broker that no peer describes, and every publish to it is refused.\<close>

theorem partition_without_leader:
  assumes "rh_cfg (br_handler br) = Some cfg" "rh_meta (br_handler br) = Some reg"
    and "map ba_broker_id (cfg_peers cfg) = map of_nat [0..<k]" "unat (cfg_broker_id cfg) < k" "k + 1 < 2 ^ 32"
    and "(t, n) \<in> set (list_topics (rh_registry (br_handler br)))" "p < n" "unat p mod (k + 1) = k"
  shows "\<exists>m. meta_entry t p (initialize_replication br) = Some m \<and> pm_leader_id m = of_nat k \<and> pm_role m = Follower
     \<and> of_nat k \<notin> set (map ba_broker_id (cfg_peers cfg)) \<and> \<not> leads (br_handler (initialize_replication br)) t p
     \<and> br_clients (initialize_replication br) (replication_key t p) \<noteq> None"
proof -
  have "length (cfg_peers cfg) = k" using arg_cong [OF assms(3), of length] by simp
  then have n: "unat (num_brokers cfg) = k + 1" using assms(5)
    using unat_of_nat_u32 [of "1 + k"] by (simp add: num_brokers_def max_def word_le_nat_alt)
  have "unat (ucast p mod num_brokers cfg) = k" using assms(8) n by (simp add: unat_mod)
  then have l: "ucast p mod num_brokers cfg = of_nat k" by (metis of_nat_unat ucast_id)
  have k: "unat (of_nat k :: u32) = k" using assms(5) by (simp add: unat_of_nat_u32)
  have ne: "of_nat k \<noteq> cfg_broker_id cfg" using k assms(4) by auto
  have "unat (of_nat j :: u32) = j" if "j < k" for j using that assms(5) by (intro unat_of_nat_u32) simp
  then have "of_nat k \<noteq> (of_nat j :: u32)" if "j < k" for j using k that by (metis less_irrefl)
  then have "of_nat k \<notin> set (map ba_broker_id (cfg_peers cfg))" unfolding assms(3) by (simp add: image_iff)
  moreover obtain mo where "meta_entry t p (initialize_replication br) = Some (seeded (cfg_broker_id cfg) (num_brokers cfg) t p mo)"
    using initialize_replication_role(1) [OF assms(1,2,6,7)] by blast
  moreover have "br_clients (initialize_replication br) (replication_key t p) \<noteq> None"
    using initialize_replication_role(2) [OF assms(1,2,6,7)] l ne by simp
  ultimately show ?thesis using l ne
    by (auto simp: seeded_def leads_def meta_entry_def meta_get_def Let_def split: option.splits)
qed

theorem partition_without_leader_witness:
  "\<exists>m. meta_entry ''t'' 3 (initialize_replication example_broker) = Some m \<and> pm_leader_id m = 3 \<and> pm_role m = Follower
     \<and> 3 \<notin> set (map ba_broker_id default_peers)"
  using partition_without_leader [of example_broker "config_defaults\<lparr>cfg_peers := default_peers\<rparr>" Map.empty 3 "''t''" 4 3]
  by (simp add: example_broker_def example_with_def default_peers_def config_defaults_def list_topics_def upt_rec) blast

end
