(* ===== verification/Fell_Cli_Util.thy ===== *)
theory Fell_Cli_Util
  imports Fell_Broker_Properties "HOL-Library.AList"
begin

text \<open>
  \<^verbatim>\<open>cli/cli_util.hpp\<close> and the helpers that \<^verbatim>\<open>cli/producer_cli.cpp\<close> and \<^verbatim>\<open>cli/consumer_cli.cpp\<close> share: frames on a
  blocking socket, and the cluster metadata. What a socket delivers is a list of results, one for each segment that
  arrives; a call takes at most as much as it asked for and leaves the rest. An \<^verbatim>\<open>unordered_map\<close> is an association
  list with distinct keys. The lemmas show that a client reads the frames the broker sends however they are segmented, and
  that it reconstructs the leaders the broker knows.
\<close>

section \<open>Definitions\<close>

subsection \<open>Sockets\<close>

text \<open>\<^verbatim>\<open>recv_data\<close>; the empty list stands for a result that is not positive.\<close>

fun cli_recv :: "nat \<Rightarrow> recv_result list \<Rightarrow> bytes \<times> recv_result list" where
  "cli_recv n [] = ([], [])"
| "cli_recv n (RecvData bs # rs) = (take n bs, if length bs \<le> n then rs else RecvData (drop n bs) # rs)"
| "cli_recv n (r # rs) = ([], rs)"

function read_exact :: "nat \<Rightarrow> recv_result list \<Rightarrow> bytes option \<times> recv_result list" where
  "read_exact len rs =
     (if len = 0 then (Some [], rs)
      else case cli_recv len rs of
             (got, rs1) \<Rightarrow>
               if got = [] then (None, rs1)
               else case read_exact (len - length got) rs1 of
                      (r, rs2) \<Rightarrow> (map_option ((@) got) r, rs2))"
  by pat_completeness auto
termination
  by (relation "measure fst") auto

declare read_exact.simps [simp del]

text \<open>The bytes that went out, the results of \<^verbatim>\<open>send_data\<close> that are left, and the returned value: none when the
  results end before the loop does. A result of 0 leaves the loop where it is.\<close>

fun write_exact :: "bytes \<Rightarrow> send_result list \<Rightarrow> bytes \<times> send_result list \<times> bool option" where
  "write_exact bs [] = ([], [], if bs = [] then Some True else None)"
| "write_exact bs (r # rs) =
     (if bs = [] then ([], r # rs, Some True)
      else case r of
             Sent k \<Rightarrow>
               (case write_exact (drop k bs) rs of (out, rs', ok) \<Rightarrow> (take k bs @ out, rs', ok))
           | _ \<Rightarrow> ([], rs, Some False))"

definition write_frame :: "op_code \<Rightarrow> bytes \<Rightarrow> send_result list \<Rightarrow> bytes \<times> send_result list \<times> bool option" where
  "write_frame op payload rs =
     (case write_exact (mem32 (swap_be32 (1 + of_nat (length payload))) @ [op]) rs of
        (out, rs1, ok) \<Rightarrow>
          if ok = Some True \<and> payload \<noteq> []
          then (case write_exact payload rs1 of (out', rs2, ok') \<Rightarrow> (out @ out', rs2, ok'))
          else (out, rs1, ok))"

definition read_frame :: "recv_result list \<Rightarrow> frame option \<times> recv_result list" where
  "read_frame rs =
     (case read_exact 4 rs of
        (None, rs1) \<Rightarrow> (None, rs1)
      | (Some len_be, rs1) \<Rightarrow>
          let len = swap_be32 (load32 len_be)
          in if len < 1 then (None, rs1)
             else (case read_exact 1 rs1 of
                     (None, rs2) \<Rightarrow> (None, rs2)
                   | (Some op_byte, rs2) \<Rightarrow>
                       (case read_exact (unat (len - 1)) rs2 of
                          (None, rs3) \<Rightarrow> (None, rs3)
                        | (Some payload, rs3) \<Rightarrow> (Some \<lparr>frame_op = op_byte ! 0, frame_payload = payload\<rparr>, rs3))))"

text \<open>The fields of an \<^verbatim>\<open>ErrorResp\<close> in a payload that may be too short for them.\<close>

definition error_text :: "bytes \<Rightarrow> fault + u8 \<times> string" where
  "error_text payload =
     (if length payload < 2 \<or> length payload < 2 + unat (payload ! 1) then Inl OutOfBounds
      else Inr (payload ! 0, str_of (take (unat (payload ! 1)) (drop 2 payload))))"

definition ack_value :: "bytes \<Rightarrow> fault + u64" where
  "ack_value payload = (if length payload < 8 then Inl OutOfBounds else Inr (swap_be64 (load64 payload)))"

subsection \<open>Metadata\<close>

record broker_info =
  bi_id :: u32
  bi_host :: string
  bi_client_port :: u16

type_synonym metadata = "(u32 \<times> broker_info) list \<times> (u16 \<times> u32) list"

text \<open>The loops take the rest of the payload from the current offset on.\<close>

fun parse_brokers :: "nat \<Rightarrow> bytes \<Rightarrow> (u32 \<times> broker_info) list \<Rightarrow> ((u32 \<times> broker_info) list \<times> bytes) option" where
  "parse_brokers 0 bs brokers = Some (brokers, bs)"
| "parse_brokers (Suc n) bs brokers =
     (if length bs < 5 then None
      else let i = read_be32 bs; host_len = unat (bs ! 4)
           in if length bs < 5 + host_len + 2 then None
              else parse_brokers n (drop (5 + host_len + 2) bs)
                     (AList.update i \<lparr>bi_id = i, bi_host = str_of (take host_len (drop 5 bs)),
                        bi_client_port = read_be16 (drop (5 + host_len) bs)\<rparr> brokers))"

fun parse_leaders :: "nat \<Rightarrow> bytes \<Rightarrow> (u16 \<times> u32) list \<Rightarrow> (u16 \<times> u32) list option" where
  "parse_leaders 0 bs leaders = Some leaders"
| "parse_leaders (Suc n) bs leaders =
     (if length bs < 6 then None
      else parse_leaders n (drop 6 bs) (AList.update (read_be16 bs) (read_be32 (drop 2 bs)) leaders))"

definition parse_metadata :: "bytes \<Rightarrow> metadata option" where
  "parse_metadata payload =
     (if length payload < 2 then None
      else case parse_brokers (unat (read_be16 payload)) (drop 2 payload) [] of
             None \<Rightarrow> None
           | Some (brokers, bs) \<Rightarrow>
               if length bs < 2 then None
               else map_option (Pair brokers) (parse_leaders (unat (read_be16 bs)) (drop 2 bs) []))"

definition metadata_request :: "string \<Rightarrow> bytes" where
  "metadata_request topic =
     mem32 (swap_be32 (of_nat sizeof_MetadataReq + 1)) @ [METADATA_REQ] @ encode_metadata_req \<lparr>md_topic = topic\<rparr>"

text \<open>The loop that reads the payload: what does not arrive stays zero.\<close>

function read_payload :: "nat \<Rightarrow> recv_result list \<Rightarrow> bytes" where
  "read_payload len rs =
     (if len = 0 then []
      else case cli_recv len rs of
             (got, rs1) \<Rightarrow> if got = [] then replicate len 0 else got @ read_payload (len - length got) rs1)"
  by pat_completeness auto
termination
  by (relation "measure fst") auto

declare read_payload.simps [simp del]

text \<open>\<open>None\<close> for what the socket delivers is a failure to connect; \<open>None\<close> as result is \<^verbatim>\<open>false\<close>.\<close>

definition fetch_metadata :: "recv_result list option \<Rightarrow> metadata option" where
  "fetch_metadata inp =
     (case inp of
        None \<Rightarrow> None
      | Some rs \<Rightarrow>
          (case cli_recv 4 rs of
             (len_be, rs1) \<Rightarrow>
               if length len_be \<noteq> 4 then None
               else let resp_len = swap_be32 (load32 len_be)
                    in if resp_len < 1 then None
                       else (case cli_recv 1 rs1 of
                               (op, rs2) \<Rightarrow>
                                 if length op \<noteq> 1 then None
                                 else let payload = read_payload (unat (resp_len - 1)) rs2
                                      in if op ! 0 = ERR then None
                                         else if op ! 0 \<noteq> METADATA_RESP then None
                                         else parse_metadata payload)))"

text \<open>The address that \<^verbatim>\<open>connect_to_leader\<close> connects to.\<close>

definition leader_address :: "u16 \<Rightarrow> metadata \<Rightarrow> (string \<times> u16) option" where
  "leader_address part md =
     (case map_of (snd md) part of
        None \<Rightarrow> None
      | Some leader_id \<Rightarrow>
          (case map_of (fst md) leader_id of
             None \<Rightarrow> None
           | Some b \<Rightarrow> Some (bi_host b, bi_client_port b)))"

definition cli_connect_to_leader :: "recv_result list option \<Rightarrow> u16 \<Rightarrow> (string \<times> u16) option" where
  "cli_connect_to_leader inp part =
     (case fetch_metadata inp of None \<Rightarrow> None | Some md \<Rightarrow> leader_address part md)"

section \<open>Byte order\<close>

text \<open>The tools' way to write and read numbers is the broker's.\<close>

lemma mem_swap: "mem16 (swap_be16 a) = write_be16 a" "mem32 (swap_be32 b) = write_be32 b" "mem64 (swap_be64 c) = write_be64 c"
  by (simp_all add: swap_be16_host_to_be16 swap_be32_host_to_be32 swap_be64_host_to_be64 mem_host_to_be)

lemma swap_load:
  "4 \<le> length p \<Longrightarrow> swap_be32 (load32 p) = read_be32 p" "8 \<le> length q \<Longrightarrow> swap_be64 (load64 q) = read_be64 q"
proof -
  have "load32 p = load32 (take 4 p)" "read_be32 p = read_be32 (take 4 p)" "load64 q = load64 (take 8 q)" "read_be64 q = read_be64 (take 8 q)"
    by (simp_all add: load32_def read_be32_def load64_def read_be64_def)
  then show "4 \<le> length p \<Longrightarrow> swap_be32 (load32 p) = read_be32 p" "8 \<le> length q \<Longrightarrow> swap_be64 (load64 q) = read_be64 q"
    using be_to_host_load(2) [of "take 4 p"] be_to_host_load(3) [of "take 8 q"]
    by (simp_all add: swap_be32_host_to_be32 swap_be64_host_to_be64 be32_to_host_def be64_to_host_def)
qed

section \<open>Frames\<close>

text \<open>The socket delivers the bytes, cut into any segments, and then nothing more.\<close>

definition delivers :: "recv_result list \<Rightarrow> bytes \<Rightarrow> bool" where
  "delivers rs bs \<longleftrightarrow> (\<exists>cs. rs = map RecvData cs \<and> [] \<notin> set cs \<and> concat cs = bs)"

lemma cli_recv_delivers:
  assumes "delivers rs bs" "bs \<noteq> []" "0 < n"
  obtains got rs' bs' where "cli_recv n rs = (got, rs')" "got \<noteq> []" "length got \<le> n" "bs = got @ bs'" "delivers rs' bs'"
proof -
  obtain c cs where cs: "rs = map RecvData (c # cs)" "[] \<notin> set (c # cs)" "concat (c # cs) = bs"
    using assms(1,2) unfolding delivers_def by (metis concat.simps(1) neq_Nil_conv)
  show ?thesis
  proof (cases "length c \<le> n")
    case True
    then show ?thesis using that [of c "map RecvData cs" "concat cs"] cs by (auto simp: delivers_def)
  next
    case False
    have "delivers (RecvData (drop n c) # map RecvData cs) (drop n c @ concat cs)"
      unfolding delivers_def by (rule exI [of _ "drop n c # cs"]) (use False cs(2) in auto)
    then show ?thesis
      using that [of "take n c" "RecvData (drop n c) # map RecvData cs" "drop n c @ concat cs"] False cs assms(3) by auto
  qed
qed

lemma read_exact_delivers: "delivers rs (bs @ rest) \<Longrightarrow> \<exists>rs'. read_exact (length bs) rs = (Some bs, rs') \<and> delivers rs' rest"
proof (induction bs arbitrary: rs rule: length_induct)
  case (1 bs)
  show ?case
  proof (cases "bs = []")
    case True then show ?thesis using "1.prems" by (simp add: read_exact.simps)
  next
    case False
    from cli_recv_delivers [OF "1.prems", of "length bs"] False obtain got rs1 bs' where
      r: "cli_recv (length bs) rs = (got, rs1)" "got \<noteq> []" "length got \<le> length bs" "bs @ rest = got @ bs'" "delivers rs1 bs'" by auto
    from r(3,4) obtain b where b: "bs = got @ b" "bs' = b @ rest" by (auto simp: append_eq_append_conv2)
    have "length b < length bs" using b r(2) by simp
    then obtain rs2 where "read_exact (length b) rs1 = (Some b, rs2)" "delivers rs2 rest" using "1.IH" r(5) b(2) by blast
    then show ?thesis using r(1,2) b(1) by (simp add: read_exact.simps [of _ rs])
  qed
qed

lemma read_frame_delivers:
  assumes "delivers rs (encode_frame f @ rest)" "length (frame_payload f) + 1 < 2 ^ 32"
  shows "\<exists>rs'. read_frame rs = (Some f, rs') \<and> delivers rs' rest"
proof -
  define v :: u32 where "v = of_nat (1 + length (frame_payload f))"
  have "delivers rs (write_be32 v @ [frame_op f] @ frame_payload f @ rest)" using assms(1) by (simp add: encode_frame_def v_def)
  from read_exact_delivers [OF this] obtain rs1 where
    1: "read_exact 4 rs = (Some (write_be32 v), rs1)" "delivers rs1 ([frame_op f] @ frame_payload f @ rest)" by auto
  from read_exact_delivers [OF 1(2)] obtain rs2 where 2: "read_exact 1 rs1 = (Some [frame_op f], rs2)" "delivers rs2 (frame_payload f @ rest)"
    by auto
  from read_exact_delivers [OF 2(2)] obtain rs3 where 3: "read_exact (length (frame_payload f)) rs2 = (Some (frame_payload f), rs3)" "delivers rs3 rest"
    by auto
  have len: "swap_be32 (load32 (write_be32 v)) = v" using read_write_be32 [of v "[]"] by (simp add: swap_load)
  have "unat v = 1 + length (frame_payload f)" unfolding v_def using assms(2) by (intro unat_of_nat_u32) simp
  then have "\<not> v < 1" by (simp add: word_less_nat_alt)
  moreover have "unat (v - 1) = length (frame_payload f)" using assms(2) by (simp add: v_def)
  ultimately show ?thesis using 1(1) 2(1) 3 by (simp add: read_frame_def len Let_def)
qed

lemma write_exact_all: "write_exact bs rs = (out, rs', ok) \<Longrightarrow> \<exists>rest. bs = out @ rest \<and> (ok = Some True \<longrightarrow> rest = [])"
proof (induction rs arbitrary: bs out)
  case (Cons r rs)
  show ?case
  proof (cases "\<exists>k. r = Sent k \<and> bs \<noteq> []")
    case True
    then obtain k out' where k: "write_exact (drop k bs) rs = (out', rs', ok)" "out = take k bs @ out'"
      using Cons.prems by (auto split: prod.splits)
    from Cons.IH [OF k(1)] show ?thesis by (metis k(2) append_assoc append_take_drop_id)
  next
    case False then show ?thesis using Cons.prems by (auto split: if_splits send_result.splits)
  qed
qed (auto split: if_splits)

lemma write_frame_all: "write_frame op payload rs = (out, rs', Some True) \<Longrightarrow> out = encode_frame \<lparr>frame_op = op, frame_payload = payload\<rparr>"
  by (auto simp: write_frame_def encode_frame_def mem_swap split: prod.splits if_splits dest!: write_exact_all)

text \<open>Every frame that is read uses up what the socket delivers, so the loops of the tools that read frames end.\<close>

definition pending :: "recv_result list \<Rightarrow> nat" where
  "pending rs = (\<Sum>r\<leftarrow>rs. case r of RecvData d \<Rightarrow> length d | _ \<Rightarrow> 0)"

lemma cli_recv_pending: "cli_recv n rs = (got, rs') \<Longrightarrow> pending rs' + length got \<le> pending rs"
  by (cases "(n, rs)" rule: cli_recv.cases) (auto simp: pending_def)

lemma read_exact_pending: "read_exact n rs = (Some bs, rs') \<Longrightarrow> pending rs' + n \<le> pending rs"
proof (induction n rs arbitrary: bs rs' rule: read_exact.induct)
  case (1 n rs)
  show ?case
  proof (cases "n = 0")
    case True then show ?thesis using "1.prems" by (simp add: read_exact.simps)
  next
    case False
    obtain got rs1 where r: "cli_recv n rs = (got, rs1)" by (cases "cli_recv n rs")
    then have got: "got \<noteq> []" using "1.prems" False by (auto simp: read_exact.simps [of n rs])
    then obtain bs1 where b: "read_exact (n - length got) rs1 = (Some bs1, rs')"
      using "1.prems" False r by (auto simp: read_exact.simps [of n rs] split: prod.splits)
    have "pending rs' + (n - length got) \<le> pending rs1" using "1.IH" [OF False r [symmetric] got b] .
    then show ?thesis using cli_recv_pending [OF r] by simp
  qed
qed

lemma read_frame_pending: "read_frame rs = (Some f, rs') \<Longrightarrow> pending rs' < pending rs"
  by (auto simp: read_frame_def Let_def split: prod.splits option.splits if_splits dest!: read_exact_pending)

section \<open>Metadata\<close>

text \<open>The brokers of a metadata response; a later one with the same identifier replaces an earlier one.\<close>

definition info_of :: "u32 \<times> string \<times> u16 \<Rightarrow> broker_info" where
  "info_of b = (case b of (i, host, port) \<Rightarrow> \<lparr>bi_id = i, bi_host = host, bi_client_port = port\<rparr>)"

lemma parse_brokers_step:
  assumes "length host \<le> 255"
  shows "parse_brokers (Suc n) (add_broker i host port @ r) m
     = parse_brokers n r (AList.update i \<lparr>bi_id = i, bi_host = host, bi_client_port = port\<rparr> m)"
proof -
  define bs where "bs = add_broker i host port @ r"
  have h: "unat (of_nat (length host) :: u8) = length host" using assms by (simp add: unat_of_nat take_bit_nat_eq_self)
  have len: "length (add_broker i host port) = 5 + length host + 2" by (simp add: add_broker_def)
  have "read_be32 bs = i" "bs ! 4 = of_nat (length host)" by (simp_all add: bs_def add_broker_def read_write_be32 nth_append)
  moreover have "drop (5 + length host + 2) bs = r" unfolding bs_def by (metis append_eq_conv_conj len)
  moreover have "take (length host) (drop 5 bs) = bytes_of host" "read_be16 (drop (5 + length host) bs) = port"
    by (simp_all add: bs_def add_broker_def read_write_be16)
  moreover have "5 + length host + 2 \<le> length bs" unfolding bs_def length_append len by simp
  ultimately show ?thesis unfolding bs_def [symmetric] by (simp add: h Let_def)
qed

lemma parse_brokers_encoded:
  assumes "list_all (\<lambda>(i, host, port). length host \<le> 255) bl"
  shows "parse_brokers (length bl) (concat (map (\<lambda>(i, host, port). add_broker i host port) bl) @ rest) m
     = Some (fold (\<lambda>b. AList.update (fst b) (info_of b)) bl m, rest)"
  using assms by (induction bl arbitrary: m) (auto simp: parse_brokers_step info_of_def simp del: parse_brokers.simps(2))

lemma map_of_brokers: "map_of (fold (\<lambda>b. AList.update (fst b) (info_of b)) bl m) = (map_of m)(map fst bl [\<mapsto>] map info_of bl)"
  by (induction bl arbitrary: m) (simp_all add: update_conv')

lemma update_new: "k \<notin> fst ` set m \<Longrightarrow> AList.update k v m = m @ [(k, v)]"
  by (induction m) auto

lemma parse_leaders_step: "parse_leaders (Suc n) (write_be16 p @ write_be32 l @ r) m = parse_leaders n r (AList.update p l m)"
  by (simp add: read_write_be16 read_write_be32)

lemma parse_leaders_encoded:
  assumes "k + length ls \<le> 2 ^ 16" "distinct (map fst m)" "\<forall>p \<in> fst ` set m. unat p < k"
  shows "\<exists>m'. parse_leaders (length ls) (concat (map (\<lambda>(i, l). write_be16 (of_nat i) @ write_be32 l) (zip [k..<k + length ls] ls))) m = Some m'
     \<and> distinct (map fst m') \<and> length m' = length m + length ls
     \<and> (\<forall>p. map_of m' p = (if k \<le> unat p \<and> unat p < k + length ls then Some (ls ! (unat p - k)) else map_of m p))"
  using assms
proof (induction ls arbitrary: k m)
  case (Cons l ls)
  have k: "unat (of_nat k :: u16) = k" using Cons.prems(1) by simp
  then have new: "of_nat k \<notin> fst ` set m" using Cons.prems(3) by auto
  let ?m = "m @ [(of_nat k, l)]"
  have "distinct (map fst ?m)" "\<forall>p \<in> fst ` set ?m. unat p < Suc k" "Suc k + length ls \<le> 2 ^ 16"
    using Cons.prems new k by (auto simp: less_Suc_eq)
  from Cons.IH [OF this(3,1,2)] obtain m' where
    m': "parse_leaders (length ls) (concat (map (\<lambda>(i, l). write_be16 (of_nat i) @ write_be32 l) (zip [Suc k..<Suc k + length ls] ls))) ?m = Some m'"
      "distinct (map fst m')" "length m' = Suc (length m) + length ls"
      "\<And>p. map_of m' p = (if Suc k \<le> unat p \<and> unat p < Suc k + length ls then Some (ls ! (unat p - Suc k)) else map_of ?m p)" by auto
  have upt: "[k..<k + length (l # ls)] = k # [Suc k..<Suc k + length ls]" using upt_conv_Cons [of k "k + length (l # ls)"] by simp
  have "map_of m' p = (if k \<le> unat p \<and> unat p < k + length (l # ls) then Some ((l # ls) ! (unat p - k)) else map_of m p)" for p
  proof (cases "unat p = k")
    case True
    then have "p = of_nat k" by (metis of_nat_unat ucast_id)
    moreover have "map_of m (of_nat k) = None" using new by (simp add: map_of_eq_None_iff)
    ultimately show ?thesis using True m'(4) [of p] by (simp add: map_add_def)
  next
    case False
    then have "p \<noteq> of_nat k" using k by auto
    then have "map_of ?m p = map_of m p" by (simp add: map_add_def split: option.split)
    then show ?thesis using False m'(4) [of p] by (auto simp: nth_Cons')
  qed
  moreover have step: "concat (map (\<lambda>(i, l). write_be16 (of_nat i) @ write_be32 l) (zip [k..<k + length (l # ls)] (l # ls)))
      = write_be16 (of_nat k) @ write_be32 l @ concat (map (\<lambda>(i, l). write_be16 (of_nat i) @ write_be32 l) (zip [Suc k..<Suc k + length ls] ls))"
    unfolding upt by (simp del: upt_Suc)
  have "parse_leaders (length (l # ls)) (concat (map (\<lambda>(i, l). write_be16 (of_nat i) @ write_be32 l) (zip [k..<k + length (l # ls)] (l # ls)))) m
      = Some m'" unfolding step using m'(1) by (simp only: length_Cons parse_leaders_step update_new [OF new])
  ultimately show ?case using m'(2,3) by (metis add_Suc_shift length_Cons)
qed auto

text \<open>The brokers that a metadata response lists.\<close>

definition listed_brokers :: "cluster_config \<Rightarrow> (u32 \<times> string \<times> u16) list" where
  "listed_brokers cfg = (cfg_broker_id cfg, ''127.0.0.1'', cfg_client_port cfg)
     # map (\<lambda>a. (ba_broker_id a, ba_host a, ba_client_port a)) (cfg_peers cfg)"

lemma parse_metadata_body:
  assumes "\<forall>a \<in> set (cfg_peers cfg). length (ba_host a) \<le> 255" "length (cfg_peers cfg) + 1 < 2 ^ 16" "length ls < 2 ^ 16"
  shows "\<exists>brokers leaders. parse_metadata (metadata_body cfg ls) = Some (brokers, leaders)
     \<and> map_of brokers = [map fst (listed_brokers cfg) [\<mapsto>] map info_of (listed_brokers cfg)]
     \<and> length leaders = length ls \<and> (\<forall>p. map_of leaders p = (if unat p < length ls then Some (ls ! unat p) else None))"
proof -
  let ?bl = "listed_brokers cfg"
  let ?L = "concat (map (\<lambda>(i, l). write_be16 (of_nat i) @ write_be32 l) (zip [0..<length ls] ls))"
  let ?rest = "write_be16 (of_nat (length ls)) @ ?L"
  have body: "metadata_body cfg ls = write_be16 (of_nat (length ?bl)) @ concat (map (\<lambda>(i, host, port). add_broker i host port) ?bl) @ ?rest"
    by (simp add: metadata_body_def listed_brokers_def comp_def)
  have "length ?bl < 2 ^ 16" using assms(2) by (simp add: listed_brokers_def)
  then have n: "unat (of_nat (length ?bl) :: u16) = length ?bl" "unat (of_nat (length ls) :: u16) = length ls"
    using assms(3) by (simp_all only: unat_of_nat_u16)
  have "list_all (\<lambda>(i, host, port). length host \<le> 255) ?bl" using assms(1) by (simp add: listed_brokers_def list_all_iff)
  from parse_brokers_encoded [OF this, of ?rest "[]"] obtain brokers where
    b: "parse_brokers (length ?bl) (concat (map (\<lambda>(i, host, port). add_broker i host port) ?bl) @ ?rest) [] = Some (brokers, ?rest)"
      "map_of brokers = [map fst ?bl [\<mapsto>] map info_of ?bl]" using map_of_brokers [of ?bl "[]"] by simp
  obtain leaders where l: "parse_leaders (length ls) ?L [] = Some leaders" "length leaders = length ls"
    "\<And>p. map_of leaders p = (if unat p < length ls then Some (ls ! unat p) else None)"
    using parse_leaders_encoded [of 0 ls "[]"] assms(3) by auto
  have "parse_metadata (metadata_body cfg ls) = Some (brokers, leaders)"
    unfolding parse_metadata_def body by (simp add: read_write_be16 n b(1) l(1))
  then show ?thesis using b(2) l(2,3) by blast
qed

lemma read_payload_delivers: "delivers rs (bs @ rest) \<Longrightarrow> read_payload (length bs) rs = bs"
proof (induction bs arbitrary: rs rule: length_induct)
  case (1 bs)
  show ?case
  proof (cases "bs = []")
    case True then show ?thesis by (simp add: read_payload.simps)
  next
    case False
    from cli_recv_delivers [OF "1.prems", of "length bs"] False obtain got rs1 bs' where
      r: "cli_recv (length bs) rs = (got, rs1)" "got \<noteq> []" "length got \<le> length bs" "bs @ rest = got @ bs'" "delivers rs1 bs'" by auto
    from r(3,4) obtain b where b: "bs = got @ b" "bs' = b @ rest" by (auto simp: append_eq_append_conv2)
    have "length b < length bs" using b r(2) by simp
    then have "read_payload (length b) rs1 = b" using "1.IH" r(5) b(2) by blast
    then show ?thesis using r(1,2) b(1) by (simp add: read_payload.simps [of _ rs])
  qed
qed

text \<open>The length and the operation have to arrive in the first segment: each is read with a single call.\<close>

lemma fetch_metadata_delivers:
  assumes "concat (c # cs) = encode_frame \<lparr>frame_op = METADATA_RESP, frame_payload = payload\<rparr>" "5 \<le> length c" "[] \<notin> set cs"
    and "length payload + 1 < 2 ^ 32"
  shows "fetch_metadata (Some (map RecvData (c # cs))) = parse_metadata payload"
proof -
  define v :: u32 where "v = of_nat (1 + length payload)"
  have eq: "c @ concat cs = write_be32 v @ METADATA_RESP # payload" using assms(1) by (simp add: encode_frame_def v_def)
  obtain w0 w1 w2 w3 where w: "write_be32 v = [w0, w1, w2, w3]" by (simp add: write_be32_def)
  obtain x0 x1 x2 x3 x4 c' where "c = x0 # x1 # x2 # x3 # x4 # c'" using assms(2) by (auto simp: numeral_eq_Suc Suc_le_length_iff)
  then have c: "take 4 c = write_be32 v" "take 1 (drop 4 c) = [METADATA_RESP]" "drop 5 c @ concat cs = payload" using eq w by simp_all
  define rs where "rs = (if length c \<le> 5 then map RecvData cs else RecvData (drop 5 c) # map RecvData cs)"
  have r: "cli_recv 4 (map RecvData (c # cs)) = (write_be32 v, RecvData (drop 4 c) # map RecvData cs)"
    "cli_recv 1 (RecvData (drop 4 c) # map RecvData cs) = ([METADATA_RESP], rs)" using c assms(2) by (auto simp: rs_def)
  have "delivers rs (payload @ [])"
    unfolding delivers_def by (rule exI [of _ "if length c \<le> 5 then cs else drop 5 c # cs"]) (use c(3) assms(3) in \<open>auto simp: rs_def\<close>)
  then have p: "read_payload (length payload) rs = payload" by (rule read_payload_delivers)
  have len: "swap_be32 (load32 (write_be32 v)) = v" using read_write_be32 [of v "[]"] by (simp add: swap_load)
  have "unat v = 1 + length payload" unfolding v_def using assms(4) by (intro unat_of_nat_u32) simp
  then have "\<not> v < 1" by (simp add: word_less_nat_alt)
  moreover have "unat (v - 1) = length payload" using assms(4) by (simp add: v_def)
  ultimately show ?thesis using r p by (simp add: fetch_metadata_def len op_code_defs)
qed

lemma length_metadata_body:
  assumes "\<forall>a \<in> set (cfg_peers cfg). length (ba_host a) \<le> 255" "length (cfg_peers cfg) + 1 < 2 ^ 16" "length ls < 2 ^ 16"
  shows "length (metadata_body cfg ls) + 1 < 2 ^ 32"
proof -
  have b: "length (add_broker i host port) = 7 + length host" for i host port by (simp add: add_broker_def)
  have "(\<Sum>a\<leftarrow>cfg_peers cfg. length (add_broker (ba_broker_id a) (ba_host a) (ba_client_port a))) \<le> (\<Sum>a\<leftarrow>cfg_peers cfg. 262)"
    using assms(1) by (intro sum_list_mono) (simp add: b)
  moreover have "length (concat (map (\<lambda>(i, l). write_be16 (of_nat i) @ write_be32 l) (zip xs ls))) \<le> 6 * length ls" for xs :: "nat list"
    by (induction ls arbitrary: xs) (auto simp: zip_Cons split: list.split)
  from this [of "[0..<length ls]"] have "length (concat (map (\<lambda>(i, l). write_be16 (of_nat i) @ write_be32 l) (zip [0..<length ls] ls))) \<le> 6 * length ls" .
  ultimately show ?thesis using assms(2,3) unfolding metadata_body_def
    by (simp add: b length_concat comp_def sum_list_triv)
qed

lemma meta_get_again: "fst (meta_get t p (snd (meta_get u q reg))) = fst (meta_get t p reg)"
  by (auto simp: meta_get_def Let_def split: option.split)

lemma leader_ids_eq:
  "rh_meta h = Some reg \<Longrightarrow> fst (leader_ids t i k h) = map (\<lambda>j. pm_leader_id (fst (meta_get t (of_nat j) reg))) [i..<i + k]"
proof (induction k arbitrary: i h reg)
  case (Suc k)
  obtain m reg' where m: "meta_get t (of_nat i) reg = (m, reg')" by (cases "meta_get t (of_nat i) reg")
  let ?h = "h\<lparr>rh_meta := Some reg'\<rparr>"
  have "fst (leader_ids t (Suc i) k ?h) = map (\<lambda>j. pm_leader_id (fst (meta_get t (of_nat j) reg'))) [Suc i..<Suc i + k]"
    by (rule Suc.IH) simp
  moreover have "fst (meta_get t p reg') = fst (meta_get t p reg)" for p using meta_get_again [of t p t "of_nat i" reg] m by simp
  moreover have "[i..<i + Suc k] = i # [Suc i..<Suc i + k]" using upt_conv_Cons [of i "i + Suc k"] by simp
  ultimately show ?case using Suc.prems m by (simp add: meta_of_def split_beta del: upt_Suc)
qed simp

section \<open>Replies\<close>

text \<open>What the tools take for granted of a reply: a sequence of frames that have the layout their operation says.\<close>

definition reply_frame :: "frame \<Rightarrow> bool" where
  "reply_frame g \<longleftrightarrow>
     (if frame_op g = ACK then length (frame_payload g) = 8
      else if frame_op g = ERR then error_text (frame_payload g) \<noteq> Inl OutOfBounds
      else if frame_op g = FETCH_RESPONSE
      then 20 \<le> length (frame_payload g) \<and> fh_payload_size (decode_fetch_response_header (frame_payload g)) = of_nat (length (frame_payload g) - 20)
      else frame_op g = METADATA_RESP)"

definition typed_reply :: "fault + 'cb reply \<Rightarrow> bool" where
  "typed_reply r = (case r of Inl _ \<Rightarrow> True | Inr (resp, d, _, _) \<Rightarrow> (\<exists>fs. resp = encode_frames fs \<and> list_all reply_frame fs \<and> (d \<noteq> None) = (fs = [])))"

lemma reply_frame_ack: "reply_frame \<lparr>frame_op = ACK, frame_payload = write_be64 v\<rparr>"
  by (simp add: reply_frame_def)

lemma reply_frame_err: "reply_frame \<lparr>frame_op = ERR, frame_payload = encode_error_resp \<lparr>er_code = c, er_msg = m\<rparr>\<rparr>"
proof -
  let ?p = "encode_error_resp \<lparr>er_code = c, er_msg = m\<rparr>"
  have "length ?p = 257" by (simp add: encode_error_resp_def)
  moreover have "unat (?p ! 1) < 256" using unsigned_less [of "?p ! 1"] by simp
  ultimately show ?thesis by (simp add: reply_frame_def error_text_def op_code_defs)
qed

lemma reply_frame_message: "reply_frame (message_frame r)"
proof -
  let ?hdr = "\<lparr>fh_offset = rec_offset r, fh_timestamp_ms = rec_timestamp_ms r, fh_payload_size = of_nat (length (rec_payload r))\<rparr>"
  show ?thesis using fetch_response.read_enc [of ?hdr "rec_payload r"] fetch_response.width_enc [of ?hdr]
    by (simp add: reply_frame_def message_frame_def op_code_defs)
qed

lemma typed_reply_one: "reply_frame g \<Longrightarrow> typed_reply (reply (encode_frame g) c h)"
  unfolding typed_reply_def reply_def by (auto intro!: exI [of _ "[g]"])

lemma typed_reply_simps [simp]:
  "typed_reply (reply (encode_ack v) c h)" "typed_reply (fail code msg c h)" "typed_reply (Inl err)"
  "typed_reply (Inr (encode_ack v, None, c, h))" "typed_reply (Inr ([], Some d, c, h))"
  "typed_reply (reply (encode_frame \<lparr>frame_op = METADATA_RESP, frame_payload = b\<rparr>) c h)"
  "ms \<noteq> [] \<Longrightarrow> typed_reply (reply (encode_frames (map message_frame ms)) c h)"
proof -
  show "typed_reply (reply (encode_ack v) c h)" "typed_reply (fail code msg c h)"
    unfolding fail_def encode_ack_def encode_error_def by (rule typed_reply_one [OF reply_frame_ack], rule typed_reply_one [OF reply_frame_err])
  then show "typed_reply (Inr (encode_ack v, None, c, h))" by (simp add: reply_def)
  show "typed_reply (reply (encode_frame \<lparr>frame_op = METADATA_RESP, frame_payload = b\<rparr>) c h)"
    by (rule typed_reply_one) (simp add: reply_frame_def op_code_defs)
  show "typed_reply (reply (encode_frames (map message_frame ms)) c h)" if "ms \<noteq> []"
    using that unfolding typed_reply_def reply_def
    by (auto intro!: exI [of _ "map message_frame ms"] simp: list_all_iff reply_frame_message)
qed (simp_all add: typed_reply_def)

lemma publish_to_typed: "typed_reply (publish_to e t p payload c h)"
proof (cases "check_leader t p h")
  case (Pair lead h1)
  have "typed_reply (publish_to e t p payload c h)" if "lead" "get_partition t p (rh_registry h1) = Some q" for q
    using that by (cases "store_append (env_now e) payload q") (simp add: publish_to_def Pair Let_def)
  then show ?thesis by (cases lead; cases "get_partition t p (rh_registry h1)") (simp_all add: publish_to_def Pair)
qed

section \<open>Properties\<close>

text \<open>C25. Every reply has the type the clients expect. Whatever a request holds, the bytes of the reply are a sequence of frames; an
  acknowledgement has eight bytes, an error names a message inside its payload, a fetched record has a header with the
  size of the rest, and anything else is metadata. The reply is empty exactly when the acknowledgement is deferred.\<close>

theorem replies_are_typed_frames: "typed_reply (handle e f c h)"
proof -
  have "typed_reply (handle_metadata_req f c h)" "typed_reply (handle_create_topic e f c h)" "typed_reply (handle_subscribe f c h)"
    "typed_reply (handle_fetch f c h)"
    by (simp_all add: handle_metadata_req_def handle_create_topic_def handle_subscribe_def handle_fetch_def Let_def
        split: prod.split option.split sum.split bool.split)
  moreover have "typed_reply (handle_publish e f c h)" "typed_reply (handle_publish_v2 e f c h)"
    by (simp_all add: handle_publish_def handle_publish_v2_def Let_def publish_to_typed)
  ultimately show ?thesis by (simp add: handle_def)
qed

text \<open>C26. Clients learn the leaders that the broker knows. The answer of the broker to a metadata request, in whatever segments it
  arrives after the first five bytes, gives the client one entry for each partition of the topic, which is the
  leader in the broker's metadata, and the addresses of the brokers of its configuration.\<close>

theorem client_learns_leaders:
  assumes "rh_cfg h = Some cfg" "rh_meta h = Some reg" "length t \<le> 255" "num_partitions t (rh_registry h) = n"
    and "\<forall>a \<in> set (cfg_peers cfg). length (ba_host a) \<le> 255" "length (cfg_peers cfg) + 1 < 2 ^ 16"
    and "metadata_request t = encode_frame f"
  shows "\<exists>resp h'. handle e f conn h = Inr (resp, None, conn, h') \<and> 5 \<le> length resp
     \<and> (\<forall>c cs. concat (c # cs) = resp \<and> 5 \<le> length c \<and> [] \<notin> set cs \<longrightarrow>
         (\<exists>brokers leaders. fetch_metadata (Some (map RecvData (c # cs))) = Some (brokers, leaders) \<and> length leaders = unat n
            \<and> (\<forall>p. map_of leaders p = (if p < n then Some (pm_leader_id (fst (meta_get t p reg))) else None))
            \<and> map_of brokers = [map fst (listed_brokers cfg) [\<mapsto>] map info_of (listed_brokers cfg)]))"
proof -
  let ?g = "\<lparr>frame_op = METADATA_REQ, frame_payload = encode_metadata_req \<lparr>md_topic = t\<rparr>\<rparr>"
  have md: "decode_metadata_req (encode_metadata_req \<lparr>md_topic = t\<rparr>) = \<lparr>md_topic = t\<rparr>" "length (encode_metadata_req \<lparr>md_topic = t\<rparr>) = 256"
    using metadata.read_enc [of "\<lparr>md_topic = t\<rparr>" "[]"] metadata.width_enc [of "\<lparr>md_topic = t\<rparr>"] assms(3) by simp_all
  have "encode_frame f = encode_frame ?g" using assms(7) by (simp add: metadata_request_def encode_frame_def mem_swap sizeof_defs md(2))
  then have f: "frame_op f = METADATA_REQ" "frame_payload f = encode_metadata_req \<lparr>md_topic = t\<rparr>" by (auto simp: encode_frame_def)
  obtain ids h' where ids: "leader_ids t 0 (unat n) h = (ids, h')" "ids = map (\<lambda>j. pm_leader_id (fst (meta_get t (of_nat j) reg))) [0..<unat n]"
    using leader_ids_eq [OF assms(2), of t 0 "unat n"] by (cases "leader_ids t 0 (unat n) h") simp
  let ?resp = "encode_frame \<lparr>frame_op = METADATA_RESP, frame_payload = metadata_body cfg ids\<rparr>"
  have "handle e f conn h = Inr (?resp, None, conn, h')"
    using assms(1,2,4) ids(1) by (simp add: handle_def f op_code_defs handle_metadata_req_def md sizeof_defs reply_def)
  moreover have len: "length ids < 2 ^ 16" "length ids = unat n" using unat_lt_u16 [of n] by (simp_all add: ids(2))
  have "\<exists>brokers leaders. fetch_metadata (Some (map RecvData (c # cs))) = Some (brokers, leaders) \<and> length leaders = unat n
      \<and> (\<forall>p. map_of leaders p = (if p < n then Some (pm_leader_id (fst (meta_get t p reg))) else None))
      \<and> map_of brokers = [map fst (listed_brokers cfg) [\<mapsto>] map info_of (listed_brokers cfg)]"
    if "concat (c # cs) = ?resp" "5 \<le> length c" "[] \<notin> set cs" for c cs
    using parse_metadata_body [OF assms(5,6) len(1)] len(2)
    unfolding fetch_metadata_delivers [OF that length_metadata_body [OF assms(5,6) len(1)]]
    by (auto simp: ids(2) word_less_nat_alt)
  moreover have "5 \<le> length ?resp" by simp
  ultimately show ?thesis by blast
qed

theorem client_learns_leaders_witness:
  "\<exists>resp h' brokers leaders. handle example_env \<lparr>frame_op = METADATA_REQ, frame_payload = encode_metadata_req \<lparr>md_topic = ''t''\<rparr>\<rparr>
       (ConnectionState 100 4) (br_handler example_broker) = Inr (resp, None, ConnectionState 100 4, h')
     \<and> fetch_metadata (Some [RecvData resp]) = Some (brokers, leaders) \<and> length leaders = 4"
proof -
  let ?cfg = "config_defaults\<lparr>cfg_peers := default_peers\<rparr>" and ?f = "\<lparr>frame_op = METADATA_REQ, frame_payload = encode_metadata_req \<lparr>md_topic = ''t''\<rparr>\<rparr>"
  have h: "rh_cfg (br_handler example_broker) = Some ?cfg" "rh_meta (br_handler example_broker) = Some Map.empty"
    "num_partitions ''t'' (rh_registry (br_handler example_broker)) = 4"
    by (simp_all add: example_broker_def example_with_def num_partitions_def)
  have f: "metadata_request ''t'' = encode_frame ?f"
    by (simp add: metadata_request_def encode_frame_def mem_swap sizeof_defs encode_metadata_req_def)
  have p: "length ''t'' \<le> 255" "\<forall>a \<in> set (cfg_peers ?cfg). length (ba_host a) \<le> 255" "length (cfg_peers ?cfg) + 1 < 2 ^ 16"
    by (simp_all add: default_peers_def)
  obtain resp h' where r: "handle example_env ?f (ConnectionState 100 4) (br_handler example_broker) = Inr (resp, None, ConnectionState 100 4, h')"
    "5 \<le> length resp" "\<And>c cs. concat (c # cs) = resp \<and> 5 \<le> length c \<and> [] \<notin> set cs \<Longrightarrow>
       \<exists>brokers leaders. fetch_metadata (Some (map RecvData (c # cs))) = Some (brokers, leaders) \<and> length leaders = unat (4 :: u16)"
    using client_learns_leaders [OF h(1,2) p(1) h(3) p(2,3) f, of example_env "ConnectionState 100 4"] by blast
  then show ?thesis using r(3) [of resp "[]"] by auto
qed

end
