(* ===== verification/Fell_Producer_Cli.thy ===== *)
theory Fell_Producer_Cli
  imports Fell_Cli_Util
begin

text \<open>
  \<^verbatim>\<open>cli/producer_cli.cpp\<close>: the command line producer. What the sockets deliver and accept is an argument, one
  \<open>attempt\<close> for each round of the loop that looks up the leader and publishes; the loops are recursions on it, and a
  producer that has used up the attempts is still running. A read or write outside of an object is a fault. The
  theorems connect the producer with the request handler of the broker.
\<close>

section \<open>Definitions\<close>

subsection \<open>Options\<close>

record producer_opts =
  po_host :: string
  po_port :: u16
  po_topic :: string
  po_create :: bool
  po_partitions :: u16
  po_message :: string
  po_count :: int
  po_retry_on_busy :: bool
  po_key :: string

definition producer_defaults :: producer_opts where
  "producer_defaults =
     \<lparr>po_host = ''127.0.0.1'', po_port = 7700, po_topic = [], po_create = False, po_partitions = 1,
      po_message = ''hello fell'', po_count = 1, po_retry_on_busy = False, po_key = []\<rparr>"

text \<open>\<^verbatim>\<open>std::stoi\<close>: as \<^verbatim>\<open>std::stoull\<close>, with the range of a signed 32 bit integer.\<close>

definition stoi :: "string \<Rightarrow> fault + int" where
  "stoi s =
     (let s1 = dropWhile is_space s;
          neg = (s1 \<noteq> [] \<and> hd s1 = CHR ''-'');
          s2 = (if s1 \<noteq> [] \<and> (hd s1 = CHR ''-'' \<or> hd s1 = CHR ''+'') then tl s1 else s1);
          ds = takeWhile is_digit s2;
          v = (if neg then - int (dec_value ds) else int (dec_value ds))
      in if ds = [] \<or> v < - (2 ^ 31) \<or> 2 ^ 31 \<le> v then Inl BadNumber else Inr v)"

text \<open>The arguments behind the program's name. An option that needs a value is ignored when it is the last one.\<close>

definition producer_flag :: "string \<Rightarrow> producer_opts \<Rightarrow> producer_opts" where
  "producer_flag arg o1 =
     (if arg = ''--create'' then o1\<lparr>po_create := True\<rparr>
      else if arg = ''--retry-on-busy'' then o1\<lparr>po_retry_on_busy := True\<rparr> else o1)"

fun producer_args :: "string list \<Rightarrow> producer_opts \<Rightarrow> fault + producer_opts" where
  "producer_args [] o1 = Inr o1"
| "producer_args [arg] o1 = Inr (producer_flag arg o1)"
| "producer_args (arg # v # args) o1 =
     (if arg = ''--host'' \<or> arg = ''--bootstrap-host'' then producer_args args (o1\<lparr>po_host := v\<rparr>)
      else if arg = ''--port'' \<or> arg = ''--bootstrap-port''
      then (case stoi v of Inl e \<Rightarrow> Inl e | Inr n \<Rightarrow> producer_args args (o1\<lparr>po_port := of_int n\<rparr>))
      else if arg = ''--topic'' then producer_args args (o1\<lparr>po_topic := v\<rparr>)
      else if arg = ''--partitions''
      then (case stoi v of Inl e \<Rightarrow> Inl e | Inr n \<Rightarrow> producer_args args (o1\<lparr>po_partitions := of_int n\<rparr>))
      else if arg = ''--message'' then producer_args args (o1\<lparr>po_message := v\<rparr>)
      else if arg = ''--count''
      then (case stoi v of Inl e \<Rightarrow> Inl e | Inr n \<Rightarrow> producer_args args (o1\<lparr>po_count := n\<rparr>))
      else if arg = ''--key'' then producer_args args (o1\<lparr>po_key := v\<rparr>)
      else producer_args (v # args) (producer_flag arg o1))"

subsection \<open>Creating the topic\<close>

text \<open>How a run ends: with an exit status, or not within what the environment gives.\<close>

datatype cli_exit = Exit int | Running

text \<open>The bytes sent, and the end of the program when it ends here. A connection is what \<^verbatim>\<open>send\<close> and \<^verbatim>\<open>recv\<close> will give on it.\<close>

type_synonym connection = "send_result list \<times> recv_result list"

definition producer_create :: "producer_opts \<Rightarrow> connection option \<Rightarrow> fault + bytes \<times> cli_exit option" where
  "producer_create o1 conn =
     (case conn of
        None \<Rightarrow> Inr ([], Some (Exit 1))
      | Some (ss, rs) \<Rightarrow>
          (case write_frame CREATE_TOPIC (encode_create_topic_req \<lparr>ct_name = po_topic o1, ct_num_partitions = po_partitions o1\<rparr>) ss of
             (out, _, ok) \<Rightarrow>
               (case ok of
                  None \<Rightarrow> Inr (out, Some Running)
                | Some False \<Rightarrow> Inr (out, Some (Exit 1))
                | Some True \<Rightarrow>
                    (case fst (read_frame rs) of
                       None \<Rightarrow> Inr (out, None)
                     | Some resp \<Rightarrow>
                         if frame_op resp = ERR
                         then (case error_text (frame_payload resp) of
                                 Inl e \<Rightarrow> Inl e
                               | Inr (code, msg) \<Rightarrow>
                                   Inr (out, if msg \<noteq> ''Topic already exists'' then Some (Exit 1) else None))
                         else Inr (out, None)))))"

subsection \<open>Publishing\<close>

definition choose_partition :: "string \<Rightarrow> u16 \<Rightarrow> nat \<Rightarrow> u16" where
  "choose_partition key rr_counter n =
     (if key \<noteq> [] then of_nat (unat (fnv1a (bytes_of key)) mod n) else of_nat (unat rr_counter mod n))"

text \<open>The length of the key is cut to a byte; unless that gives 0, the whole key is copied into a field of 255 bytes.\<close>

definition publish_request :: "producer_opts \<Rightarrow> u16 \<Rightarrow> bytes \<Rightarrow> fault + bytes" where
  "publish_request o1 part payload =
     (let key_len = (of_nat (length (po_key o1)) :: u8)
      in if key_len > 0 \<and> length (po_key o1) > 255 then Inl OutOfBounds
         else Inr (encode_publish_v2_req
                     \<lparr>pv_topic = po_topic o1, pv_partition = part, pv_key = (if key_len > 0 then po_key o1 else []),
                      pv_payload_size = of_nat (length payload)\<rparr> @ payload))"

datatype request_end = ReqBroken | ReqMoved | ReqFailed | ReqAcked u64 | ReqRunning

function request_loop :: "bool \<Rightarrow> bytes \<Rightarrow> send_result list \<Rightarrow> recv_result list \<Rightarrow> fault + bytes \<times> request_end" where
  "request_loop retry_on_busy pub_buf ss rs =
     (case write_frame PUBLISH_V2 pub_buf ss of
        (out, ss1, ok) \<Rightarrow>
          (case ok of
             None \<Rightarrow> Inr (out, ReqRunning)
           | Some False \<Rightarrow> Inr (out, ReqBroken)
           | Some True \<Rightarrow>
               (case read_frame rs of
                  (None, _) \<Rightarrow> Inr (out, ReqBroken)
                | (Some resp, rs1) \<Rightarrow>
                    if frame_op resp = ERR
                    then (case error_text (frame_payload resp) of
                            Inl e \<Rightarrow> Inl e
                          | Inr (code, msg) \<Rightarrow>
                              if code = err_byte NOT_LEADER then Inr (out, ReqMoved)
                              else if code = err_byte BUSY \<and> retry_on_busy
                              then map_sum id (map_prod ((@) out) id) (request_loop retry_on_busy pub_buf ss1 rs1)
                              else Inr (out, ReqFailed))
                    else if frame_op resp = ACK
                    then map_sum id (\<lambda>v. (out, ReqAcked v)) (ack_value (frame_payload resp))
                    else map_sum id (map_prod ((@) out) id) (request_loop retry_on_busy pub_buf ss1 rs1))))"
  by pat_completeness auto
termination
  by (relation "measure (\<lambda>(retry, buf, ss, rs). pending rs)") (auto dest: read_frame_pending [OF sym])

declare request_loop.simps [simp del]

text \<open>One round of the loop for a message: what the metadata connection delivers, and the connection to the leader.\<close>

record attempt =
  at_metadata :: "recv_result list option"
  at_leader :: "connection option"

text \<open>What was sent to which address.\<close>

type_synonym sent = "((string \<times> u16) \<times> bytes) list"

datatype publish_end = Published u64 | PublishExit | PublishRunning

fun publish_message ::
  "producer_opts \<Rightarrow> bytes \<Rightarrow> attempt list \<Rightarrow> nat \<Rightarrow> u16 \<Rightarrow> fault + sent \<times> publish_end \<times> u16 \<times> attempt list" where
  "publish_message o1 payload [] md_retries rr =
     Inr ([], if md_retries < 3 then PublishRunning else PublishExit, rr, [])"
| "publish_message o1 payload (a # ats) md_retries rr =
     (if \<not> md_retries < 3 then Inr ([], PublishExit, rr, a # ats)
      else case fetch_metadata (at_metadata a) of
             None \<Rightarrow> publish_message o1 payload ats (md_retries + 1) rr
           | Some md \<Rightarrow>
               if snd md = [] then publish_message o1 payload ats (md_retries + 1) rr
               else let part = choose_partition (po_key o1) rr (length (snd md));
                        rr1 = (if po_key o1 \<noteq> [] then rr else rr + 1)
                    in case leader_address part md of
                         None \<Rightarrow> publish_message o1 payload ats (md_retries + 1) rr1
                       | Some addr \<Rightarrow>
                           (case at_leader a of
                              None \<Rightarrow> publish_message o1 payload ats (md_retries + 1) rr1
                            | Some (ss, rs) \<Rightarrow>
                                (case publish_request o1 part payload of
                                   Inl e \<Rightarrow> Inl e
                                 | Inr buf \<Rightarrow>
                                     (case request_loop (po_retry_on_busy o1) buf ss rs of
                                        Inl e \<Rightarrow> Inl e
                                      | Inr (out, ReqAcked v) \<Rightarrow> Inr ([(addr, out)], Published v, rr1, ats)
                                      | Inr (out, ReqFailed) \<Rightarrow> Inr ([(addr, out)], PublishExit, rr1, ats)
                                      | Inr (out, ReqRunning) \<Rightarrow> Inr ([(addr, out)], PublishRunning, rr1, ats)
                                      | Inr (out, _) \<Rightarrow>
                                          map_sum id (map_prod ((#) (addr, out)) id)
                                            (publish_message o1 payload ats md_retries rr1)))))"

definition message_text :: "producer_opts \<Rightarrow> nat \<Rightarrow> string" where
  "message_text o1 i = (if po_count o1 > 1 then po_message o1 @ '' #'' @ to_string i else po_message o1)"

text \<open>The loop over the messages: the number that are left, and the number of the next one.\<close>

fun publish_all :: "producer_opts \<Rightarrow> nat \<Rightarrow> nat \<Rightarrow> attempt list \<Rightarrow> u16 \<Rightarrow> fault + sent \<times> cli_exit" where
  "publish_all o1 0 i ats rr = Inr ([], Exit 0)"
| "publish_all o1 (Suc k) i ats rr =
     (case publish_message o1 (bytes_of (message_text o1 i)) ats 0 rr of
        Inl e \<Rightarrow> Inl e
      | Inr (out, Published v, rr1, ats1) \<Rightarrow> map_sum id (map_prod ((@) out) id) (publish_all o1 k (Suc i) ats1 rr1)
      | Inr (out, PublishExit, _) \<Rightarrow> Inr (out, Exit 1)
      | Inr (out, PublishRunning, _) \<Rightarrow> Inr (out, Running))"

definition producer_main :: "string list \<Rightarrow> connection option \<Rightarrow> attempt list \<Rightarrow> fault + sent \<times> cli_exit" where
  "producer_main args bootstrap ats =
     (case producer_args args producer_defaults of
        Inl e \<Rightarrow> Inl e
      | Inr o1 \<Rightarrow>
          if po_topic o1 = [] \<or> length (po_topic o1) > 255 then Inr ([], Exit 1)
          else case (if po_create o1 then producer_create o1 bootstrap else Inr ([], None)) of
                 Inl e \<Rightarrow> Inl e
               | Inr (out, Some x) \<Rightarrow> Inr ([((po_host o1, po_port o1), out)], x)
               | Inr (out, None) \<Rightarrow>
                   map_sum id (map_prod ((@) (if po_create o1 then [((po_host o1, po_port o1), out)] else [])) id)
                     (publish_all o1 (nat (po_count o1)) 0 ats 0))"

section \<open>Routing\<close>

lemma choose_partition_range:
  assumes "0 < n" "n < 2 ^ 16"
  shows "unat (choose_partition key rr n) < n"
proof -
  have "k mod n < 2 ^ 16" for k using assms mod_less_divisor [of n k] by linarith
  then show ?thesis using assms by (simp add: choose_partition_def)
qed

text \<open>The broker sends a keyed message to the partition that the producer has chosen, and one without a key too.\<close>

lemma producer_route:
  assumes "n \<noteq> 0" "part = choose_partition key rr (unat n)"
  shows "route n rr' \<lparr>pv_topic = t, pv_partition = part, pv_key = key, pv_payload_size = z\<rparr> = Some part"
proof (cases "key = []")
  case True
  have "unat part < unat n" using assms choose_partition_range [of "unat n" key rr] unat_lt_u16 [of n] by (simp add: unat_gt_0)
  then have "part < n" "unat part < 65535" using unat_lt_u16 [of n] by (auto simp: word_less_nat_alt)
  moreover from this(2) have "part \<noteq> 0xFFFF" by auto
  ultimately show ?thesis using True by (simp add: route_def not_le)
next
  case False
  let ?x = "fnv1a (bytes_of key)"
  have "unat (?x mod ucast n) = unat ?x mod unat n" by (simp add: unat_mod)
  moreover have "ucast (?x mod ucast n) = (of_nat (unat (?x mod ucast n)) :: u16)" by simp
  ultimately have "ucast (?x mod ucast n) = part" using assms(2) False by (simp only: choose_partition_def) simp
  then show ?thesis using False by (simp add: route_def)
qed

lemma publish_request_ok:
  assumes "length (po_key o1) \<le> 255"
  shows "publish_request o1 part payload = Inr (encode_publish_v2_req \<lparr>pv_topic = po_topic o1, pv_partition = part, pv_key = po_key o1,
     pv_payload_size = of_nat (length payload)\<rparr> @ payload)"
proof -
  have "unat (of_nat (length (po_key o1)) :: u8) = length (po_key o1)" using assms by (simp add: unat_of_nat take_bit_nat_eq_self)
  then have "(0 < (of_nat (length (po_key o1)) :: u8)) = (po_key o1 \<noteq> [])" by (simp add: word_less_nat_alt)
  then show ?thesis using assms by (simp add: publish_request_def)
qed

lemma read_ack:
  assumes "delivers rs (encode_ack v)"
  shows "\<exists>rs'. read_frame rs = (Some \<lparr>frame_op = ACK, frame_payload = write_be64 v\<rparr>, rs')" "ack_value (write_be64 v) = Inr v"
  using read_frame_delivers [of rs "\<lparr>frame_op = ACK, frame_payload = write_be64 v\<rparr>" "[]"] assms read_write_be64 [of v "[]"]
  by (auto simp: encode_ack_def ack_value_def swap_load)

lemma read_error:
  assumes "delivers rs (encode_error c msg)" "length msg \<le> 255"
  shows "\<exists>rs' p. read_frame rs = (Some \<lparr>frame_op = ERR, frame_payload = p\<rparr>, rs') \<and> error_text p = Inr (err_byte c, msg)"
proof -
  let ?p = "encode_error_resp \<lparr>er_code = err_byte c, er_msg = msg\<rparr>"
  have len: "length ?p = 257" using error.width_enc assms(2) by simp
  have "delivers rs (encode_frame \<lparr>frame_op = ERR, frame_payload = ?p\<rparr> @ [])" using assms(1) by (simp add: encode_error_def)
  from read_frame_delivers [OF this] len obtain rs' where r: "read_frame rs = (Some \<lparr>frame_op = ERR, frame_payload = ?p\<rparr>, rs')" by auto
  have n: "unat (of_nat (length msg) :: u8) = length msg" using assms(2) by (simp add: unat_of_nat take_bit_nat_eq_self)
  have p: "?p ! 0 = err_byte c" "?p ! Suc 0 = of_nat (length msg)" "take (length msg) (drop 2 ?p) = bytes_of msg"
    using assms(2) by (simp_all add: encode_error_resp_def name_field_def min_def)
  have "\<not> (length ?p < 2 \<or> length ?p < 2 + unat (?p ! 1))" using assms(2) by (simp add: len p(2) n)
  then have "error_text ?p = Inr (err_byte c, msg)" by (simp add: error_text_def p n)
  then show ?thesis using r by blast
qed

section \<open>Examples\<close>

text \<open>The metadata of a cluster of one broker, for a topic with one partition.\<close>

definition example_metadata :: "recv_result list option" where
  "example_metadata = Some [RecvData (encode_frame \<lparr>frame_op = METADATA_RESP, frame_payload = metadata_body config_defaults [0]\<rparr>)]"

definition example_opts :: "string \<Rightarrow> producer_opts" where
  "example_opts key = producer_defaults\<lparr>po_topic := ''t'', po_key := key\<rparr>"

lemma example_metadata_ok:
  obtains md where "fetch_metadata example_metadata = Some md" "length (snd md) = 1" "leader_address 0 md = Some (''127.0.0.1'', 7700)"
proof -
  have cfg: "\<forall>a \<in> set (cfg_peers config_defaults). length (ba_host a) \<le> 255" "length (cfg_peers config_defaults) + 1 < 2 ^ 16"
    "length [0 :: u32] < 2 ^ 16" "listed_brokers config_defaults = [(0, ''127.0.0.1'', 7700)]"
    by (simp_all add: config_defaults_def listed_brokers_def)
  obtain brokers leaders where md: "parse_metadata (metadata_body config_defaults [0]) = Some (brokers, leaders)"
    "map_of brokers 0 = Some (info_of (0, ''127.0.0.1'', 7700))" "length leaders = 1" "map_of leaders 0 = Some 0"
    using parse_metadata_body [OF cfg(1-3)] cfg(4) by auto
  have "fetch_metadata example_metadata = Some (brokers, leaders)"
    using fetch_metadata_delivers [of _ "[]", OF _ _ _ length_metadata_body [OF cfg(1-3)]] md(1) by (simp add: example_metadata_def)
  then show ?thesis using that [of "(brokers, leaders)"] md by (simp add: leader_address_def info_of_def)
qed

lemma example_request:
  assumes "publish_request (example_opts key) 0 [8, 9] = Inr buf" "length key \<le> 255"
  shows "snd (snd (write_frame PUBLISH_V2 buf [Sent 600, Sent 600])) = Some True"
proof -
  have "length buf = 520" using assms publish_v2.width_enc by (auto simp: publish_request_ok example_opts_def producer_defaults_def)
  then show ?thesis by (auto simp: write_frame_def mem_swap)
qed

section \<open>Properties\<close>



text \<open>The producer asks a broker that is not the leader forever. Each round of its loop in which the broker that the metadata
  names as the leader answers that it is not leaves the retry counter alone, so that after any number of rounds the
  producer has sent the message once per round and is still running. (When three lookups fail, it gives up.)\<close>

theorem producer_asks_non_leader_forever:
  assumes "fetch_metadata mrs = Some md" "snd md \<noteq> []" "po_key o1 \<noteq> []" "length (po_key o1) \<le> 255" "md_retries < 3"
    and "leader_address (choose_partition (po_key o1) rr (length (snd md))) md = Some addr"
    and "publish_request o1 (choose_partition (po_key o1) rr (length (snd md))) payload = Inr buf"
    and "delivers rs (encode_error NOT_LEADER msg)" "length msg \<le> 255" "snd (snd (write_frame PUBLISH_V2 buf ss)) = Some True"
  shows "publish_message o1 payload (replicate k \<lparr>at_metadata = mrs, at_leader = Some (ss, rs)\<rparr>) md_retries rr
       = Inr (replicate k (addr, encode_frame \<lparr>frame_op = PUBLISH_V2, frame_payload = buf\<rparr>), PublishRunning, rr, [])
     \<and> publish_message o1 payload (replicate 3 \<lparr>at_metadata = None, at_leader = None\<rparr>) 0 rr = Inr ([], PublishExit, rr, [])"
proof
  obtain rs1 p where r: "read_frame rs = (Some \<lparr>frame_op = ERR, frame_payload = p\<rparr>, rs1)" "error_text p = Inr (err_byte NOT_LEADER, msg)"
    using read_error [OF assms(8,9)] by blast
  obtain ss1 where w: "write_frame PUBLISH_V2 buf ss = (encode_frame \<lparr>frame_op = PUBLISH_V2, frame_payload = buf\<rparr>, ss1, Some True)"
    using assms(10) write_frame_all [of PUBLISH_V2 buf ss] by (metis prod.collapse)
  have l: "request_loop b buf ss rs = Inr (encode_frame \<lparr>frame_op = PUBLISH_V2, frame_payload = buf\<rparr>, ReqMoved)" for b
    by (subst request_loop.simps) (simp add: w r)
  show "publish_message o1 payload (replicate k \<lparr>at_metadata = mrs, at_leader = Some (ss, rs)\<rparr>) md_retries rr
      = Inr (replicate k (addr, encode_frame \<lparr>frame_op = PUBLISH_V2, frame_payload = buf\<rparr>), PublishRunning, rr, [])"
    by (induction k) (use assms l in \<open>simp_all add: Let_def\<close>)
  show "publish_message o1 payload (replicate 3 \<lparr>at_metadata = None, at_leader = None\<rparr>) 0 rr = Inr ([], PublishExit, rr, [])"
    by (simp add: numeral_eq_Suc fetch_metadata_def)
qed

theorem producer_asks_non_leader_forever_witness:
  "\<exists>buf. publish_message (example_opts ''k'') [8, 9]
       (replicate 7 \<lparr>at_metadata = example_metadata, at_leader = Some ([Sent 600, Sent 600], [RecvData (encode_error NOT_LEADER ''no'')])\<rparr>) 0 5
     = Inr (replicate 7 ((''127.0.0.1'', 7700), encode_frame \<lparr>frame_op = PUBLISH_V2, frame_payload = buf\<rparr>), PublishRunning, 5, [])"
proof -
  let ?o1 = "example_opts ''k''" and ?rs = "[RecvData (encode_error NOT_LEADER ''no'')]"
  obtain md where md: "fetch_metadata example_metadata = Some md" "length (snd md) = 1" "leader_address 0 md = Some (''127.0.0.1'', 7700)"
    by (rule example_metadata_ok)
  have o: "po_key ?o1 \<noteq> []" "length (po_key ?o1) \<le> 255" "snd md \<noteq> []" "choose_partition (po_key ?o1) 5 (length (snd md)) = 0"
    using md(2) by (auto simp: example_opts_def producer_defaults_def choose_partition_def)
  obtain buf where b: "publish_request ?o1 0 [8, 9] = Inr buf" using publish_request_ok [OF o(2), of 0 "[8, 9]"] by simp
  have w: "snd (snd (write_frame PUBLISH_V2 buf [Sent 600, Sent 600])) = Some True" by (rule example_request [OF b]) simp
  have d: "delivers ?rs (encode_error NOT_LEADER ''no'')"
    unfolding delivers_def by (rule exI [of _ "[encode_error NOT_LEADER ''no'']"]) (simp add: encode_error_def encode_frame_def)
  show ?thesis
    using producer_asks_non_leader_forever [OF md(1) o(3,1,2), of 0 5 "(''127.0.0.1'', 7700)" "[8, 9]" buf ?rs "''no''" "[Sent 600, Sent 600]" 7]
      o(4) md(3) b d w by auto
qed

end
