(* ===== verification/Fell_Consumer_Cli.thy ===== *)
theory Fell_Consumer_Cli
  imports Fell_Producer_Cli
begin

text \<open>
  \<^verbatim>\<open>cli/consumer_cli.cpp\<close>: the command line consumer. As for the producer, what the sockets deliver and accept is an
  argument, one \<open>session\<close> for each round of the loop that connects to the leader. The theorem connects the consumer
  with the request handler of the broker: what it prints is the log.
\<close>

section \<open>Definitions\<close>

subsection \<open>Options\<close>

record consumer_opts =
  co_host :: string
  co_port :: u16
  co_topic :: string
  co_partition :: u16
  co_offset :: u64
  co_count :: int

definition consumer_defaults :: consumer_opts where
  "consumer_defaults =
     \<lparr>co_host = ''127.0.0.1'', co_port = 7700, co_topic = [], co_partition = 0, co_offset = 0, co_count = -1\<rparr>"

fun consumer_args :: "string list \<Rightarrow> consumer_opts \<Rightarrow> fault + consumer_opts" where
  "consumer_args (arg # v # args) o1 =
     (if arg = ''--host'' \<or> arg = ''--bootstrap-host'' then consumer_args args (o1\<lparr>co_host := v\<rparr>)
      else if arg = ''--port'' \<or> arg = ''--bootstrap-port''
      then (case stoi v of Inl e \<Rightarrow> Inl e | Inr n \<Rightarrow> consumer_args args (o1\<lparr>co_port := of_int n\<rparr>))
      else if arg = ''--topic'' then consumer_args args (o1\<lparr>co_topic := v\<rparr>)
      else if arg = ''--partition''
      then (case stoi v of Inl e \<Rightarrow> Inl e | Inr n \<Rightarrow> consumer_args args (o1\<lparr>co_partition := of_int n\<rparr>))
      else if arg = ''--offset''
      then (if v = ''latest'' then consumer_args args (o1\<lparr>co_offset := 0xFFFFFFFFFFFFFFFF\<rparr>)
            else case stoull v of Inl e \<Rightarrow> Inl e | Inr n \<Rightarrow> consumer_args args (o1\<lparr>co_offset := n\<rparr>))
      else if arg = ''--count''
      then (case stoi v of Inl e \<Rightarrow> Inl e | Inr n \<Rightarrow> consumer_args args (o1\<lparr>co_count := n\<rparr>))
      else consumer_args (v # args) o1)"
| "consumer_args args o1 = Inr o1"

subsection \<open>Fetching\<close>

text \<open>A line of output: the timestamp, the offset and the payload.\<close>

type_synonym line = "u64 \<times> u64 \<times> string"

datatype fetch_end = FetchStop | FetchExit | FetchRunning

definition fetch_request :: "consumer_opts \<Rightarrow> u64 \<Rightarrow> bytes" where
  "fetch_request o1 offset =
     encode_fetch_req \<lparr>fr_topic = co_topic o1, fr_partition = co_partition o1, fr_offset = offset, fr_max_messages = 1\<rparr>"

definition error_code :: "bytes \<Rightarrow> fault + u8" where
  "error_code payload = (if payload = [] then Inl OutOfBounds else Inr (payload ! 0))"

definition wants_more :: "consumer_opts \<Rightarrow> int \<Rightarrow> bool" where
  "wants_more o1 read_count \<longleftrightarrow> co_count o1 < 0 \<or> read_count < co_count o1"

text \<open>The bytes sent, the lines printed, how the loop ends, and the offset and the count then.\<close>

function fetch_loop ::
  "consumer_opts \<Rightarrow> u64 \<Rightarrow> int \<Rightarrow> send_result list \<Rightarrow> recv_result list \<Rightarrow> fault + bytes \<times> line list \<times> fetch_end \<times> u64 \<times> int" where
  "fetch_loop o1 offset read_count ss rs =
     (if \<not> wants_more o1 read_count then Inr ([], [], FetchStop, offset, read_count)
      else case write_frame FETCH (fetch_request o1 offset) ss of
        (out, ss1, ok) \<Rightarrow>
          (case ok of
             None \<Rightarrow> Inr (out, [], FetchRunning, offset, read_count)
           | Some False \<Rightarrow> Inr (out, [], FetchStop, offset, read_count)
           | Some True \<Rightarrow>
               (case read_frame rs of
                  (None, _) \<Rightarrow> Inr (out, [], FetchStop, offset, read_count)
                | (Some resp, rs1) \<Rightarrow>
                    if frame_op resp = ERR
                    then (case error_code (frame_payload resp) of
                            Inl e \<Rightarrow> Inl e
                          | Inr code \<Rightarrow>
                              if code = err_byte NOT_LEADER then Inr (out, [], FetchStop, offset, read_count)
                              else (case error_text (frame_payload resp) of
                                      Inl e \<Rightarrow> Inl e
                                    | Inr _ \<Rightarrow> Inr (out, [], FetchExit, offset, read_count)))
                    else if frame_op resp = ACK
                    then map_sum id (map_prod ((@) out) id) (fetch_loop o1 offset read_count ss1 rs1)
                    else if frame_op resp = FETCH_RESPONSE
                    then (if length (frame_payload resp) < 20 then Inr (out, [], FetchStop, offset, read_count)
                          else let hdr = decode_fetch_response_header (frame_payload resp)
                               in if length (frame_payload resp) \<noteq> 20 + unat (fh_payload_size hdr)
                                  then Inr (out, [], FetchStop, offset, read_count)
                                  else map_sum id
                                         (map_prod ((@) out) (map_prod ((#) (fh_timestamp_ms hdr, fh_offset hdr,
                                            str_of (drop 20 (frame_payload resp)))) id))
                                         (fetch_loop o1 (fh_offset hdr + 1) (read_count + 1) ss1 rs1))
                    else Inr (out, [], FetchStop, offset, read_count))))"
  by pat_completeness auto
termination
  by (relation "measure (\<lambda>(o1, offset, read_count, ss, rs). pending rs)") (auto dest: read_frame_pending [OF sym])

declare fetch_loop.simps [simp del]

subsection \<open>Sessions\<close>

definition subscribe_offset :: "frame \<Rightarrow> u64 \<Rightarrow> u64" where
  "subscribe_offset resp offset =
     (if frame_op resp = ACK \<and> length (frame_payload resp) \<ge> 8 \<and> offset = 0xFFFFFFFFFFFFFFFF
      then swap_be64 (load64 (frame_payload resp)) else offset)"

definition consumer_session ::
  "consumer_opts \<Rightarrow> u64 \<Rightarrow> int \<Rightarrow> connection \<Rightarrow> fault + bytes \<times> line list \<times> fetch_end \<times> u64 \<times> int" where
  "consumer_session o1 offset read_count conn =
     (case write_frame SUBSCRIBE
             (encode_subscribe_req \<lparr>sb_topic = co_topic o1, sb_partition = co_partition o1, sb_start_offset = offset\<rparr>) (fst conn) of
        (out, ss1, ok) \<Rightarrow>
          (case ok of
             None \<Rightarrow> Inr (out, [], FetchRunning, offset, read_count)
           | Some False \<Rightarrow> Inr (out, [], FetchStop, offset, read_count)
           | Some True \<Rightarrow>
               (case read_frame (snd conn) of
                  (None, _) \<Rightarrow> Inr (out, [], FetchStop, offset, read_count)
                | (Some resp, rs1) \<Rightarrow>
                    if frame_op resp = ERR
                    then (case error_code (frame_payload resp) of
                            Inl e \<Rightarrow> Inl e
                          | Inr code \<Rightarrow>
                              if code = err_byte NOT_LEADER then Inr (out, [], FetchStop, offset, read_count)
                              else (case error_text (frame_payload resp) of
                                      Inl e \<Rightarrow> Inl e
                                    | Inr _ \<Rightarrow> Inr (out, [], FetchExit, offset, read_count)))
                    else map_sum id (map_prod ((@) out) id)
                           (fetch_loop o1 (subscribe_offset resp offset) read_count ss1 rs1))))"

record session =
  se_metadata :: "recv_result list option"
  se_leader :: "connection option"

fun consumer_loop :: "consumer_opts \<Rightarrow> session list \<Rightarrow> u64 \<Rightarrow> int \<Rightarrow> fault + sent \<times> line list \<times> cli_exit" where
  "consumer_loop o1 [] offset read_count = Inr ([], [], if wants_more o1 read_count then Running else Exit 0)"
| "consumer_loop o1 (s # ses) offset read_count =
     (if \<not> wants_more o1 read_count then Inr ([], [], Exit 0)
      else case cli_connect_to_leader (se_metadata s) (co_partition o1) of
             None \<Rightarrow> consumer_loop o1 ses offset read_count
           | Some addr \<Rightarrow>
               (case se_leader s of
                  None \<Rightarrow> consumer_loop o1 ses offset read_count
                | Some conn \<Rightarrow>
                    (case consumer_session o1 offset read_count conn of
                       Inl e \<Rightarrow> Inl e
                     | Inr (out, lines, FetchRunning, _) \<Rightarrow> Inr ([(addr, out)], lines, Running)
                     | Inr (out, lines, FetchExit, _) \<Rightarrow> Inr ([(addr, out)], lines, Exit 1)
                     | Inr (out, lines, FetchStop, offset1, read_count1) \<Rightarrow>
                         map_sum id (map_prod ((#) (addr, out)) (map_prod ((@) lines) id))
                           (consumer_loop o1 ses offset1 read_count1))))"

definition consumer_main :: "string list \<Rightarrow> session list \<Rightarrow> fault + sent \<times> line list \<times> cli_exit" where
  "consumer_main args ses =
     (case consumer_args args consumer_defaults of
        Inl e \<Rightarrow> Inl e
      | Inr o1 \<Rightarrow>
          if co_topic o1 = [] \<or> length (co_topic o1) > 255 then Inr ([], [], Exit 1)
          else consumer_loop o1 ses (co_offset o1) 0)"

section \<open>A dialogue with the broker\<close>

definition fetch_frame :: "consumer_opts \<Rightarrow> u64 \<Rightarrow> frame" where
  "fetch_frame o1 offset = \<lparr>frame_op = FETCH, frame_payload = fetch_request o1 offset\<rparr>"

text \<open>The replies of the broker to the next \<open>k\<close> requests of a consumer that goes on by one offset after each record.\<close>

fun fetch_replies :: "env \<Rightarrow> consumer_opts \<Rightarrow> nat \<Rightarrow> u64 \<Rightarrow> conn_state \<Rightarrow> 'cb handler \<Rightarrow> bytes list" where
  "fetch_replies e o1 0 offset conn h = []"
| "fetch_replies e o1 (Suc k) offset conn h =
     (case handle e (fetch_frame o1 offset) conn h of
        Inl err \<Rightarrow> []
      | Inr (resp, d, conn', h') \<Rightarrow>
          resp # fetch_replies e o1 k (if resp = encode_ack 0 then offset else offset + 1) conn' h')"

definition line_of :: "log_record \<Rightarrow> line" where
  "line_of r = (rec_timestamp_ms r, rec_offset r, str_of (rec_payload r))"

text \<open>The broker leads the partition that the consumer reads, and its log begins at or before the offset.\<close>

definition reads_from :: "spec_broker \<Rightarrow> spec_log \<Rightarrow> consumer_opts \<Rightarrow> u64 \<Rightarrow> 'cb handler \<Rightarrow> bool" where
  "reads_from A a o1 offset h \<longleftrightarrow> broker_rel (rh_registry h) A \<and> leads h (co_topic o1) (co_partition o1)
     \<and> co_partition o1 < num_partitions (co_topic o1) (rh_registry h) \<and> A (co_topic o1, co_partition o1) = Some a
     \<and> sl_base a \<le> unat offset \<and> length (co_topic o1) \<le> 255 \<and> co_topic o1 \<noteq> []"

lemma leads_check_leader: "leads (snd (check_leader t p h)) u q = leads h u q"
  by (cases "rh_meta h") (simp_all add: check_leader_def meta_of_def leads_def split_beta meta_get_again)

lemma handle_fetch_keeps:
  assumes "handle_fetch f conn h = Inr (resp, d, conn', h')"
  shows "leads h' t p = leads h t p" "num_partitions t (rh_registry h') = num_partitions t (rh_registry h)"
proof -
  have l: "leads (h\<lparr>rh_registry := reg\<rparr>) t p = leads h t p" for h :: "'a handler" and reg by (simp add: leads_def)
  let ?req = "decode_fetch_req (frame_payload f)"
  obtain b h1 where c: "check_leader (fr_topic ?req) (fr_partition ?req) h = (b, h1)" by (cases "check_leader (fr_topic ?req) (fr_partition ?req) h")
  have h1: "leads h1 t p = leads h t p" "rh_registry h1 = rh_registry h"
    using leads_check_leader [of "fr_topic ?req" "fr_partition ?req" h t p] c
      check_leader_eq [of "fr_topic ?req" "fr_partition ?req" h thesis for thesis] by (auto simp: prod_eq_iff)
  show "leads h' t p = leads h t p" "num_partitions t (rh_registry h') = num_partitions t (rh_registry h)"
    using assms h1 by (auto simp: handle_fetch_def fail_def reply_def Let_def l c split: if_splits bool.splits option.splits sum.splits)
qed

lemma message_not_ack: "encode_frame (message_frame r) \<noteq> encode_ack v"
proof
  assume "encode_frame (message_frame r) = encode_ack v"
  then have "encode_frame (message_frame r) ! 4 = encode_ack v ! 4" by simp
  then show False by (simp add: encode_frame_def encode_ack_def message_frame_def nth_append op_code_defs)
qed

lemma fetch_step:
  assumes "reads_from A a o1 offset h"
  obtains (none) conn' h' where "handle e (fetch_frame o1 offset) conn h = Inr (encode_ack 0, None, conn', h')" "reads_from A a o1 offset h'"
  | (some) r conn' h' where "handle e (fetch_frame o1 offset) conn h = Inr (encode_frame (message_frame r), None, conn', h')"
      "reads_from A a o1 (offset + 1) h'" "unat (offset + 1) = unat offset + 1" "unat offset < sl_base a + length (sl_log a)"
      "r = sl_log a ! (unat offset - sl_base a)" "rec_offset r = offset"
proof -
  let ?req = "\<lparr>fr_topic = co_topic o1, fr_partition = co_partition o1, fr_offset = offset, fr_max_messages = 1\<rparr>"
  let ?f = "fetch_frame o1 offset"
  note rf = assms [unfolded reads_from_def]
  have v: "length (fr_topic ?req) \<le> 255" using rf by simp
  have d: "decode_fetch_req (frame_payload ?f) = ?req" "268 \<le> length (frame_payload ?f)"
    using fetch.read_enc [OF v, of "[]"] fetch.width_enc [OF v] by (simp_all add: fetch_frame_def fetch_request_def)
  have pre: "broker_rel (rh_registry h) A" "fr_topic ?req \<noteq> []" "fr_partition ?req < num_partitions (fr_topic ?req) (rh_registry h)"
    "leads h (fr_topic ?req) (fr_partition ?req)" using rf by simp_all
  obtain a0 st rs conn' h' where raw: "A (fr_topic ?req, fr_partition ?req) = Some a0"
    "get_partition (fr_topic ?req) (fr_partition ?req) (rh_registry h) = Some st" "serves st a0"
    "handle_fetch ?f conn h = Inr (if rs = [] then encode_ack 0 else encode_frames (map message_frame rs), None, conn', h')"
    "conn' = (if rs = [] then conn else conn\<lparr>cn_fetch_offset := rec_offset (last rs) + 1\<rparr>)"
    "broker_rel (rh_registry h') A" "\<exists>st'. store_fetch (fr_offset ?req) (fr_max_messages ?req) st = Inr (rs, st')"
    using handle_fetch_ok [OF pre(1) d pre(2-4), of conn] .
  have a0: "a0 = a" using raw(1) rf by simp
  then obtain st' where st: "serves st a" "store_fetch offset 1 st = Inr (rs, st')" using raw(3,7) by auto
  have h: "handle e ?f conn h = handle_fetch ?f conn h" by (simp add: handle_def fetch_frame_def op_code_defs)
  have keep: "leads h' t p = leads h t p" "num_partitions t (rh_registry h') = num_partitions t (rh_registry h)" for t p
    using handle_fetch_keeps [OF raw(4)] by auto
  then have rf': "reads_from A a o1 off h'" if "sl_base a \<le> unat off" for off using rf raw(6) that by (simp add: reads_from_def)
  have law: "length rs \<le> 1" "prefix rs (drop (unat offset - sl_base a) (sl_log a))"
    using store.fet_law [OF st(1), of offset 1] st(2) by auto
  have o: "offsets_from offset rs" using store.fet_offsets(1) [OF st] rf by blast
  show thesis
  proof (cases rs)
    case Nil then show thesis using none raw(4) h rf' rf by auto
  next
    case (Cons r rs')
    then have rs: "rs = [r]" using law(1) by simp
    have lt: "unat offset - sl_base a < length (sl_log a)" using law(2) rs prefix_length_le [OF law(2)] by simp
    then have r: "r = sl_log a ! (unat offset - sl_base a)" using law(2) rs by (simp add: prefix_Cons Cons_nth_drop_Suc [symmetric])
    have "log_end a < 2 ^ 64" using store.rel_offsets [OF st(1)] by simp
    then have "unat offset + 1 < 2 ^ 64" using lt rf by (simp add: log_end_def)
    then have n: "unat (offset + 1) = unat offset + 1" by (simp add: unat_word_ariths)
    show thesis using some [OF _ rf' n _ r] raw(4) h rs lt rf n o by simp
  qed
qed

text \<open>A socket that takes a whole request for at least \<open>k\<close> more requests.\<close>

definition takes_requests :: "nat \<Rightarrow> send_result list \<Rightarrow> bool" where
  "takes_requests k ss \<longleftrightarrow> 2 * k \<le> length ss \<and> list_all (\<lambda>s. \<exists>n. s = Sent n \<and> 268 \<le> n) ss"

lemma write_request:
  assumes "takes_requests (Suc k) ss" "0 < length payload" "length payload \<le> 268"
  shows "\<exists>ss'. write_frame op payload ss = (encode_frame \<lparr>frame_op = op, frame_payload = payload\<rparr>, ss', Some True) \<and> takes_requests k ss'"
proof -
  from assms(1) obtain s1 s2 ss' where ss: "ss = s1 # s2 # ss'" by (cases ss; cases "tl ss") (auto simp: takes_requests_def)
  then obtain m n where mn: "s1 = Sent m" "s2 = Sent n" "268 \<le> m" "268 \<le> n" using assms(1) by (auto simp: takes_requests_def)
  have "write_exact bs (Sent n # ss) = (bs, ss, Some True)" if "0 < length bs" "length bs \<le> n" for bs n ss
    using that by (cases ss) auto
  from this [of _ m "s2 # ss'"] this [OF assms(2), of n ss'] have
    "write_frame op payload ss = (encode_frame \<lparr>frame_op = op, frame_payload = payload\<rparr>, ss', Some True)"
    using mn assms(2,3) by (simp add: ss write_frame_def encode_frame_def mem_swap)
  moreover have "takes_requests k ss'" using assms(1) ss by (simp add: takes_requests_def)
  ultimately show ?thesis by blast
qed

lemma fetch_loop_end:
  assumes "wants_more o1 n" "write_frame FETCH (fetch_request o1 offset) ss = (out, ss1, Some True)" "delivers rs []"
  shows "fetch_loop o1 offset n ss rs = Inr (out, [], FetchStop, offset, n)"
proof -
  have "rs = []" using assms(3) by (auto simp: delivers_def) (metis concat_eq_Nil_conv list.set_intros(1) neq_Nil_conv)
  then have "read_frame rs = (None, [])" by (simp add: read_frame_def read_exact.simps)
  then show ?thesis using assms(1,2) by (simp add: fetch_loop.simps [of o1 offset n ss rs])
qed

lemma fetch_loop_ack:
  assumes "wants_more o1 n" "write_frame FETCH (fetch_request o1 offset) ss = (out, ss1, Some True)"
    "delivers rs (encode_ack v @ rest)"
  shows "\<exists>rs1. fetch_loop o1 offset n ss rs = map_sum id (map_prod ((@) out) id) (fetch_loop o1 offset n ss1 rs1) \<and> delivers rs1 rest"
proof -
  obtain rs1 where r: "read_frame rs = (Some \<lparr>frame_op = ACK, frame_payload = write_be64 v\<rparr>, rs1)" "delivers rs1 rest"
    using read_frame_delivers [of rs "\<lparr>frame_op = ACK, frame_payload = write_be64 v\<rparr>" rest] assms(3) by (auto simp: encode_ack_def)
  have "ACK \<noteq> ERR" by (simp add: op_code_defs)
  then have "fetch_loop o1 offset n ss rs = map_sum id (map_prod ((@) out) id) (fetch_loop o1 offset n ss1 rs1)"
    using assms(1,2) r(1) by (simp add: fetch_loop.simps [of o1 offset n ss rs])
  then show ?thesis using r(2) by blast
qed

lemma fetch_loop_message:
  assumes "wants_more o1 n" "write_frame FETCH (fetch_request o1 offset) ss = (out, ss1, Some True)"
    "delivers rs (encode_frame (message_frame r) @ rest)" "length (rec_payload r) + 21 < 2 ^ 32"
  shows "\<exists>rs1. fetch_loop o1 offset n ss rs = map_sum id (map_prod ((@) out) (map_prod ((#) (line_of r)) id))
     (fetch_loop o1 (rec_offset r + 1) (n + 1) ss1 rs1) \<and> delivers rs1 rest"
proof -
  let ?hdr = "\<lparr>fh_offset = rec_offset r, fh_timestamp_ms = rec_timestamp_ms r, fh_payload_size = of_nat (length (rec_payload r))\<rparr>"
  have hdr: "decode_fetch_response_header (encode_fetch_response_header ?hdr @ rec_payload r) = ?hdr"
    "length (encode_fetch_response_header ?hdr) = 20"
    using fetch_response.read_enc [of ?hdr "rec_payload r"] fetch_response.width_enc [of ?hdr] by simp_all
  have "length (frame_payload (message_frame r)) + 1 < 2 ^ 32" using assms(4) by (simp add: message_frame_def hdr(2))
  from read_frame_delivers [OF assms(3) this] obtain rs1 where r: "read_frame rs = (Some (message_frame r), rs1)" "delivers rs1 rest" by blast
  have u: "unat (of_nat (length (rec_payload r)) :: u32) = length (rec_payload r)" using assms(4) by simp
  have "FETCH_RESPONSE \<noteq> ERR" "FETCH_RESPONSE \<noteq> ACK" by (simp_all add: op_code_defs)
  then have "fetch_loop o1 offset n ss rs = map_sum id (map_prod ((@) out) (map_prod ((#) (line_of r)) id))
      (fetch_loop o1 (rec_offset r + 1) (n + 1) ss1 rs1)"
    using assms(1,2) r(1) u by (simp add: fetch_loop.simps [of o1 offset n ss rs] message_frame_def hdr Let_def line_of_def)
  then show ?thesis using r(2) by blast
qed

lemma fetch_loop_log:
  assumes "reads_from A a o1 offset h" "\<forall>r \<in> set (sl_log a). length (rec_payload r) + 21 < 2 ^ 32"
    and "delivers rs (concat (fetch_replies e o1 k offset conn h))" "takes_requests (Suc k) ss"
  shows "\<exists>out recs. fetch_loop o1 offset n ss rs = Inr (out, map line_of recs, FetchStop, offset + of_nat (length recs), n + int (length recs))
     \<and> prefix recs (drop (unat offset - sl_base a) (sl_log a))
     \<and> (co_count o1 < 0 \<longrightarrow> length recs = length (filter (\<lambda>r. r \<noteq> encode_ack 0) (fetch_replies e o1 k offset conn h)))"
  using assms(1,3,4)
proof (induction k arbitrary: offset h conn rs ss n)
  case (0 offset h conn rs ss n)
  have "length (fetch_request o1 offset) = 268" using 0(1) fetch.width_enc by (simp add: reads_from_def fetch_request_def)
  then show ?case using write_request [OF 0(3), of "fetch_request o1 offset" FETCH] fetch_loop_end [of o1 n offset ss _ _ rs] 0(2)
    by (cases "wants_more o1 n") (auto simp: fetch_loop.simps [of o1 offset n ss rs] wants_more_def)
next
  case (Suc k offset h conn rs ss n)
  have "length (fetch_request o1 offset) = 268" using Suc.prems(1) fetch.width_enc by (simp add: reads_from_def fetch_request_def)
  then obtain out ss1 where w: "write_frame FETCH (fetch_request o1 offset) ss = (out, ss1, Some True)" "takes_requests (Suc k) ss1"
    using write_request [OF Suc.prems(3), of "fetch_request o1 offset" FETCH] by auto
  show ?case
  proof (cases "wants_more o1 n")
    case False
    then show ?thesis by (auto simp: fetch_loop.simps [of o1 offset n ss rs] wants_more_def)
  next
    case True
    from Suc.prems(1) show ?thesis
    proof (cases rule: fetch_step [consumes 1, case_names none some, where e = e and conn = conn])
      case (none conn' h')
      then have "delivers rs (encode_ack 0 @ concat (fetch_replies e o1 k offset conn' h'))" using Suc.prems(2) by simp
      from fetch_loop_ack [OF True w(1) this] obtain rs1 where
        l: "fetch_loop o1 offset n ss rs = map_sum id (map_prod ((@) out) id) (fetch_loop o1 offset n ss1 rs1)"
          "delivers rs1 (concat (fetch_replies e o1 k offset conn' h'))" by blast
      from Suc.IH [OF none(2) l(2) w(2), of n] obtain out' recs where
        i: "fetch_loop o1 offset n ss1 rs1 = Inr (out', map line_of recs, FetchStop, offset + of_nat (length recs), n + int (length recs))"
          "prefix recs (drop (unat offset - sl_base a) (sl_log a))"
          "co_count o1 < 0 \<longrightarrow> length recs = length (filter (\<lambda>r. r \<noteq> encode_ack 0) (fetch_replies e o1 k offset conn' h'))" by blast
      then show ?thesis using l(1) none(1) by (intro exI [of _ "out @ out'"] exI [of _ recs]) simp
    next
      case (some r conn' h')
      then have "delivers rs (encode_frame (message_frame r) @ concat (fetch_replies e o1 k (offset + 1) conn' h'))"
        using Suc.prems(2) message_not_ack [of r 0] by simp
      moreover have idx: "unat offset - sl_base a < length (sl_log a)" using some(4) Suc.prems(1) by (auto simp: reads_from_def)
      then have "length (rec_payload r) + 21 < 2 ^ 32" using assms(2) some(5) by simp
      ultimately obtain rs1 where
        l: "fetch_loop o1 offset n ss rs = map_sum id (map_prod ((@) out) (map_prod ((#) (line_of r)) id))
            (fetch_loop o1 (offset + 1) (n + 1) ss1 rs1)" "delivers rs1 (concat (fetch_replies e o1 k (offset + 1) conn' h'))"
        using fetch_loop_message [OF True w(1)] some(6) by blast
      from Suc.IH [OF some(2) l(2) w(2), of "n + 1"] obtain out' recs where
        i: "fetch_loop o1 (offset + 1) (n + 1) ss1 rs1
            = Inr (out', map line_of recs, FetchStop, offset + 1 + of_nat (length recs), n + 1 + int (length recs))"
          "prefix recs (drop (unat (offset + 1) - sl_base a) (sl_log a))"
          "co_count o1 < 0 \<longrightarrow> length recs = length (filter (\<lambda>r. r \<noteq> encode_ack 0) (fetch_replies e o1 k (offset + 1) conn' h'))" by blast
      have "drop (unat offset - sl_base a) (sl_log a) = r # drop (unat (offset + 1) - sl_base a) (sl_log a)"
        using idx some(3,5) Suc.prems(1) by (simp add: Cons_nth_drop_Suc [symmetric] Suc_diff_le reads_from_def)
      then show ?thesis using i l(1) some(1) message_not_ack [of r 0]
        by (intro exI [of _ "out @ out'"] exI [of _ "r # recs"]) (simp add: algebra_simps)
    qed
  qed
qed

definition subscribe_frame :: "consumer_opts \<Rightarrow> u64 \<Rightarrow> frame" where
  "subscribe_frame o1 offset =
     \<lparr>frame_op = SUBSCRIBE, frame_payload = encode_subscribe_req
        \<lparr>sb_topic = co_topic o1, sb_partition = co_partition o1, sb_start_offset = offset\<rparr>\<rparr>"

text \<open>The broker accepts a subscription up to the end of the log, and answers with the offset at which it starts.\<close>

lemma subscribe_step:
  assumes "reads_from A a o1 offset0 h0" "get_partition (co_topic o1) (co_partition o1) (rh_registry h0) = Some st"
    "offset0 = LATEST \<or> offset0 \<le> next_offset st" "offset = (if offset0 = LATEST then next_offset st else offset0)"
  shows "\<exists>conn h. handle e (subscribe_frame o1 offset0) conn0 h0 = Inr (encode_ack offset, None, conn, h) \<and> reads_from A a o1 offset h"
proof -
  let ?req = "\<lparr>sb_topic = co_topic o1, sb_partition = co_partition o1, sb_start_offset = offset0\<rparr>"
  note rf = assms(1) [unfolded reads_from_def]
  have d: "decode_subscribe_req (encode_subscribe_req ?req) = ?req" "length (encode_subscribe_req ?req) = 266"
    using subscribe.read_enc [of ?req "[]"] subscribe.width_enc [of ?req] rf by simp_all
  obtain h1 where c: "check_leader (co_topic o1) (co_partition o1) h0 = (True, h1)" "rh_registry h1 = rh_registry h0"
    using check_leader_eq [of "co_topic o1" "co_partition o1" h0] rf by metis
  have "serves st a" using broker_relD(1) [of "rh_registry h0" A "co_topic o1" "co_partition o1" a] rf assms(2) by auto
  then have "sl_base a \<le> unat (next_offset st)" by (auto simp: serves_def next_offset_def dest: sys_inv_end(1))
  then have "sl_base a \<le> unat offset" using rf assms(4) by simp
  moreover have "leads h1 t p = leads h0 t p" for t p using leads_check_leader [of "co_topic o1" "co_partition o1" h0 t p] c(1) by simp
  ultimately have "reads_from A a o1 offset h1" using rf c(2) by (simp add: reads_from_def)
  moreover have "co_partition o1 < num_partitions (co_topic o1) (rh_registry h0)" using rf by blast
  then have "num_partitions (co_topic o1) (rh_registry h0) \<noteq> 0" "\<not> num_partitions (co_topic o1) (rh_registry h0) \<le> co_partition o1"
    by (auto simp: not_le)
  then have "\<exists>conn. handle e (subscribe_frame o1 offset0) conn0 h0 = Inr (encode_ack offset, None, conn, h1)"
    using rf assms(2-4) c
    by (auto simp: handle_def subscribe_frame_def op_code_defs handle_subscribe_def sizeof_defs d Let_def reply_def fail_def)
  ultimately show ?thesis by blast
qed

section \<open>Properties\<close>

text \<open>C10. The consumer prints the log in order. It subscribes at a broker that leads the partition, at an offset of the log or at its
  end, and asks for one record after the other. What it prints from the broker's replies, in whatever segments they
  arrive, are consecutive records of the partition's log from that offset on, none left out and none twice; when the connection
  ends, it goes on behind the last one printed. Without a limit it has then printed a line for every reply that carried
  a record.\<close>

theorem consumer_prints_log_in_order:
  assumes "reads_from A a o1 offset0 h0" "get_partition (co_topic o1) (co_partition o1) (rh_registry h0) = Some st"
    and "offset0 = LATEST \<or> offset0 \<le> next_offset st" "offset = (if offset0 = LATEST then next_offset st else offset0)"
    and "\<forall>r \<in> set (sl_log a). length (rec_payload r) + 21 < 2 ^ 32" "takes_requests (k + 2) ss"
  shows "\<exists>conn h. handle e (subscribe_frame o1 offset0) conn0 h0 = Inr (encode_ack offset, None, conn, h)
     \<and> (\<forall>rs. delivers rs (encode_ack offset @ concat (fetch_replies e o1 k offset conn h)) \<longrightarrow>
          (\<exists>out recs. consumer_session o1 offset0 n (ss, rs)
               = Inr (out, map line_of recs, FetchStop, offset + of_nat (length recs), n + int (length recs))
             \<and> prefix recs (drop (unat offset - sl_base a) (sl_log a))
             \<and> (co_count o1 < 0 \<longrightarrow> length recs = length (filter (\<lambda>r. r \<noteq> encode_ack 0) (fetch_replies e o1 k offset conn h)))))"
proof -
  obtain conn h where h: "handle e (subscribe_frame o1 offset0) conn0 h0 = Inr (encode_ack offset, None, conn, h)" "reads_from A a o1 offset h"
    using subscribe_step [OF assms(1-4)] by blast
  let ?sub = "encode_subscribe_req \<lparr>sb_topic = co_topic o1, sb_partition = co_partition o1, sb_start_offset = offset0\<rparr>"
  have "length ?sub = 266" using assms(1) subscribe.width_enc by (simp add: reads_from_def)
  moreover have "takes_requests (Suc (Suc k)) ss" using assms(6) by simp
  ultimately obtain out ss1 where w: "write_frame SUBSCRIBE ?sub ss = (out, ss1, Some True)" "takes_requests (Suc k) ss1"
    using write_request [of "Suc k" ss ?sub SUBSCRIBE] by auto
  have ne: "ACK \<noteq> ERR" by (simp add: op_code_defs)
  have rw: "read_be64 (write_be64 u) = u" for u using read_write_be64 [of u "[]"] by simp
  have off: "subscribe_offset \<lparr>frame_op = ACK, frame_payload = write_be64 offset\<rparr> offset0 = offset"
    using assms(4) rw by (simp add: subscribe_offset_def swap_load LATEST_def)
  have "\<exists>rs1. consumer_session o1 offset0 n (ss, rs) = map_sum id (map_prod ((@) out) id) (fetch_loop o1 offset n ss1 rs1)
      \<and> delivers rs1 rest" if "delivers rs (encode_ack offset @ rest)" for rs rest
    using read_frame_delivers [of rs "\<lparr>frame_op = ACK, frame_payload = write_be64 offset\<rparr>" rest] that w(1) off ne
    by (auto simp: encode_ack_def consumer_session_def)
  then show ?thesis using fetch_loop_log [OF h(2) assms(5) _ w(2), of _ e conn n] h(1) by (intro exI [of _ conn] exI [of _ h]) fastforce
qed

theorem consumer_prints_log_in_order_witness:
  "\<exists>(st :: unit store) conn h out recs. PartitionStore one_record_dir default_options 0 = Inr st
     \<and> handle example_env (subscribe_frame (consumer_defaults\<lparr>co_topic := ''t''\<rparr>) 0) (ConnectionState 100 4) (example_with st)
         = Inr (encode_ack 0, None, conn, h)
     \<and> consumer_session (consumer_defaults\<lparr>co_topic := ''t''\<rparr>) 0 0
           (replicate 6 (Sent 300), [RecvData (encode_ack 0 @ concat (fetch_replies example_env (consumer_defaults\<lparr>co_topic := ''t''\<rparr>) 1 0 conn h))])
         = Inr (out, map line_of recs, FetchStop, of_nat (length recs), int (length recs))
     \<and> prefix recs [first_record]"
proof -
  obtain st :: "unit store" where st: "PartitionStore one_record_dir default_options 0 = Inr st"
    "serves st \<lparr>sl_base = 0, sl_log = [first_record], sl_pending = []\<rparr>" using one_record_store .
  let ?a = "\<lparr>sl_base = 0, sl_log = [first_record], sl_pending = []\<rparr> :: spec_log" and ?o1 = "consumer_defaults\<lparr>co_topic := ''t''\<rparr>"
  let ?h = "example_with st"
  have p: "get_partition ''t'' 0 (rh_registry ?h) = Some st" "num_partitions ''t'' (rh_registry ?h) = 1"
    by (simp_all add: example_with_def get_partition_def num_partitions_def)
  have rf: "reads_from [(''t'', 0) \<mapsto> ?a] ?a ?o1 0 ?h" using example_with_ok [OF st(2)] p
    by (simp add: reads_from_def consumer_defaults_def leads_def example_with_def)
  have g: "get_partition (co_topic ?o1) (co_partition ?o1) (rh_registry ?h) = Some st" using p(1) by (simp add: consumer_defaults_def)
  have small: "\<forall>r \<in> set (sl_log ?a). length (rec_payload r) + 21 < 2 ^ 32" by (simp add: first_record_def)
  have t: "takes_requests (1 + 2) (replicate 6 (Sent 300))" by (simp add: takes_requests_def list_all_iff)
  have l: "0 = LATEST \<or> 0 \<le> next_offset st" "0 = (if (0 :: u64) = LATEST then next_offset st else 0)" by (simp_all add: LATEST_def)
  obtain conn h where c: "handle example_env (subscribe_frame ?o1 0) (ConnectionState 100 4) ?h = Inr (encode_ack 0, None, conn, h)"
    "\<And>rs. delivers rs (encode_ack 0 @ concat (fetch_replies example_env ?o1 1 0 conn h)) \<Longrightarrow>
       \<exists>out recs. consumer_session ?o1 0 0 (replicate 6 (Sent 300), rs)
          = Inr (out, map line_of recs, FetchStop, 0 + of_nat (length recs), 0 + int (length recs)) \<and> prefix recs (drop (unat (0 :: u64) - sl_base ?a) (sl_log ?a))"
    using consumer_prints_log_in_order [OF rf g l small t, of example_env "ConnectionState 100 4" 0] by blast
  have "delivers [RecvData (encode_ack 0 @ concat (fetch_replies example_env ?o1 1 0 conn h))] (encode_ack 0 @ concat (fetch_replies example_env ?o1 1 0 conn h))"
    unfolding delivers_def
    by (rule exI [of _ "[encode_ack 0 @ concat (fetch_replies example_env ?o1 1 0 conn h)]"]) (simp add: encode_ack_def encode_frame_def)
  from c(2) [OF this] c(1) st(1) show ?thesis
    by (intro exI [of _ st] exI [of _ conn] exI [of _ h]) simp
qed

end
