(* ===== verification/Fell_Deferred_Acks.thy ===== *)
theory Fell_Deferred_Acks
  imports Fell_Broker_Properties
begin

text \<open>
  The way of a deferred acknowledgement through the broker: the replication server's callback (\<^verbatim>\<open>Broker::init_broker_\<close>) counts the
  acknowledgement of a follower in the replica manager, responses that this releases are posted to the reactor's queue, and the reactor
  puts them behind the output of the producer's connection and writes them.
\<close>

section \<open>The response queue\<close>

lemma post_responses_queue:
  "post_responses rs br = (replicate (length rs) (SendData (br_notify_write_fd br) [1]), br\<lparr>br_responses := br_responses br @ rs\<rparr>)"
  by (induction rs arbitrary: br) (simp_all add: post_response_def)

text \<open>The bytes for a socket among posted responses.\<close>

definition posted_for :: "int \<Rightarrow> response list \<Rightarrow> bytes" where
  "posted_for fd rs = concat (map snd (filter (\<lambda>r. fst r = fd) rs))"

lemma posted_for_simps [simp]:
  "posted_for fd [] = []" "posted_for fd (r # rs) = (if fst r = fd then snd r else []) @ posted_for fd rs"
  "posted_for fd (rs @ rs') = posted_for fd rs @ posted_for fd rs'"
  by (simp_all add: posted_for_def)

lemma drain_fold:
  assumes "broker_inv b" "br_heap b i = Some c"
  shows "br_heap (fold (\<lambda>(fd, bs) br. case conn_get fd br of None \<Rightarrow> br | Some i \<Rightarrow> append_output i bs br) rs b) i
     = Some (c\<lparr>cn_out_data := cn_out_data c @ posted_for (cn_fd c) rs\<rparr>)"
  using assms
proof (induction rs arbitrary: b c)
  case (Cons r rs)
  obtain fd bs where r: "r = (fd, bs)" by (cases r)
  have own: "br_conns b (cn_fd c) = Some i" using Cons.prems broker_invD by blast
  show ?case
  proof (cases "br_conns b fd")
    case None
    then have "fd \<noteq> cn_fd c" using own by auto
    then show ?thesis using Cons None by (simp add: r conn_get_def)
  next
    case (Some j)
    let ?b = "append_output j bs b" and ?c = "if fd = cn_fd c then c\<lparr>cn_out_data := cn_out_data c @ bs\<rparr> else c"
    have "j = i \<longleftrightarrow> fd = cn_fd c" using own Some Cons.prems broker_inv_conns [OF Cons.prems(1) Some] by auto
    moreover obtain d where "br_heap b j = Some d" using broker_inv_conns [OF Cons.prems(1) Some] by blast
    ultimately have "br_heap ?b i = Some ?c" using Cons.prems(2) by (auto simp: append_output_def poller_modify_def)
    from Cons.IH [OF append_output_inv [OF Cons.prems(1)] this] show ?thesis using Some by (auto simp: r conn_get_def)
  qed
qed simp

lemma drain_output:
  assumes "broker_inv br" "br_heap br i = Some c"
  shows "br_heap (drain_response_queue br) i = Some (c\<lparr>cn_out_data := cn_out_data c @ posted_for (cn_fd c) (br_responses br)\<rparr>)"
proof -
  have "broker_inv (br\<lparr>br_responses := []\<rparr>)" using broker_inv_cong [OF assms(1), of "br\<lparr>br_responses := []\<rparr>"] by simp
  from drain_fold [OF this, of i c] show ?thesis using assms(2) by (simp add: drain_response_queue_def)
qed

text \<open>The reactor writes what it has drained, when the socket takes it.\<close>

lemma on_writable_all:
  assumes "br_heap b i = Some c" "unsent c \<noteq> []" "length (unsent c) \<le> k"
  shows "\<exists>b'. on_writable (Sent k) i b = Inr ([SendData (cn_fd c) (unsent c)], b')"
proof -
  have "min k (length (cn_out_data c) - cn_write_offset c) = length (unsent c)" "cn_write_offset c < length (cn_out_data c)"
    using assms(2,3) by (auto simp: unsent_def)
  then show ?thesis using assms(1,2) unfolding unsent_def by (simp add: on_writable_def Let_def)
qed

lemma turn_writes_posted:
  assumes "broker_inv br" "br_heap br i = Some c" "U = unsent c @ posted_for (cn_fd c) (br_responses br)" "length U \<le> k" "U \<noteq> []"
  shows "\<exists>br'. broker_turn e [ConnEvent i False False True [] (Sent k)] br = Inr ([SendData (cn_fd c) U], br')"
proof -
  let ?c = "c\<lparr>cn_out_data := cn_out_data c @ posted_for (cn_fd c) (br_responses br)\<rparr>"
  have "cn_write_offset c \<le> length (cn_out_data c)" using broker_invD [OF assms(1,2)] by blast
  then have u: "unsent ?c = U" using assms(3) by (simp add: unsent_def)
  obtain br' where "on_writable (Sent k) i (drain_response_queue br) = Inr ([SendData (cn_fd ?c) U], br')"
    using on_writable_all [OF drain_output [OF assms(1,2)]] assms(4,5) unfolding u by blast
  then show ?thesis by (simp add: broker_turn_def)
qed

section \<open>The last missing acknowledgement\<close>

lemma count_ack_releases:
  assumes "pa_leader_committed pa" "pa_offset pa < acked" "fid \<notin> set (pa_acked_followers pa)"
    and "pa_isr_acked pa + 1 = pa_isr_required pa" "pa_ack_response pa \<noteq> []"
  shows "fst (count_ack fid acked pa) = [(pa_producer_fd pa, pa_ack_response pa)]"
  using assms by (auto simp: count_ack_def try_release_def Let_def)

lemma ack_releases:
  assumes "pa \<in> set (rm_pending rm)" "rm_on_replica_ack cfg fid acked m rm = (out, m', rm')"
    and "fst (count_ack fid acked pa) = [r]"
  shows "r \<in> set out"
  using assms by (force simp: rm_on_replica_ack_def over_pending_def Let_def)

lemma replica_ack_cb_posts:
  assumes "br_managers br (replication_key t p) = Some rm" "rh_cfg (br_handler br) = Some cfg"
    and "rm_on_replica_ack cfg fid acked (fst (broker_meta t p br)) rm = (out, m', rm')"
  shows "\<exists>h ms. snd (replica_ack_cb fid acked t p br) = br\<lparr>br_handler := h, br_managers := ms, br_responses := br_responses br @ out\<rparr>"
proof -
  obtain m br1 where b: "broker_meta t p br = (m, br1)" by fastforce
  then obtain h where h: "br1 = br\<lparr>br_handler := h\<rparr>" by (auto simp: broker_meta_def split: prod.splits)
  show ?thesis
    by (rule exI [of _ "h\<lparr>rh_meta := map_option (\<lambda>reg. reg(make_key t p \<mapsto> m')) (rh_meta h)\<rparr>"],
        rule exI [of _ "(br_managers br)(replication_key t p \<mapsto> rm')"])
      (use assms b h in \<open>simp add: replica_ack_cb_def post_responses_queue Let_def\<close>)
qed

section \<open>Properties\<close>

text \<open>C7. A deferred acknowledgement reaches its producer. When the last missing follower acknowledges a record that the leader has
  committed, the response of the waiting publish is among those that the callback posts; and in the next turn in which the
  producer's socket can be written, the reactor sends what was still unsent on that connection, the responses posted for it
  earlier, and the released ones, in this order.\<close>

theorem deferred_ack_reaches_producer:
  assumes "broker_reach br" "br_managers br (replication_key t p) = Some rm" "rh_cfg (br_handler br) = Some cfg"
    and pa: "pa \<in> set (rm_pending rm)" "pa_leader_committed pa" "pa_offset pa < acked" "fid \<notin> set (pa_acked_followers pa)"
      "pa_isr_acked pa + 1 = pa_isr_required pa" "pa_ack_response pa \<noteq> []"
    and out: "rm_on_replica_ack cfg fid acked (fst (broker_meta t p br)) rm = (out, m', rm')"
    and conn: "br_heap br i = Some c" "cn_fd c = pa_producer_fd pa"
      "length (unsent c @ posted_for (cn_fd c) (br_responses br @ out)) \<le> k"
  shows "(cn_fd c, pa_ack_response pa) \<in> set out
     \<and> (\<exists>br'. broker_turn e [ConnEvent i False False True [] (Sent k)] (snd (replica_ack_cb fid acked t p br))
          = Inr ([SendData (cn_fd c) (unsent c @ posted_for (cn_fd c) (br_responses br @ out))], br'))"
proof -
  have mem: "(cn_fd c, pa_ack_response pa) \<in> set out"
    using ack_releases [OF pa(1) out count_ack_releases [OF pa(2,3,4,5,6)]] conn(2) by simp
  obtain h ms where cb: "snd (replica_ack_cb fid acked t p br) = br\<lparr>br_handler := h, br_managers := ms, br_responses := br_responses br @ out\<rparr>"
    using replica_ack_cb_posts [OF assms(2,3) out] by blast
  have "broker_inv (snd (replica_ack_cb fid acked t p br))"
    using reach_inv [OF reach_ack [OF assms(1)]] .
  moreover have "posted_for (cn_fd c) out \<noteq> []" using mem pa(6) by (force simp: posted_for_def)
  ultimately show ?thesis using mem turn_writes_posted [of "snd (replica_ack_cb fid acked t p br)" i c _ k e] conn(1,3) unfolding cb by simp
qed

theorem deferred_ack_reaches_producer_witness:
  "\<exists>(br :: unit broker) br'. broker_reach br
     \<and> broker_turn example_env [ConnEvent 0 False False True [] (Sent 10)] (snd (replica_ack_cb 1 6 ''t'' 0 br)) = Inr ([SendData 4 [7, 8]], br')"
proof -
  let ?pa = "\<lparr>pa_offset = 5, pa_ack_response = [7, 8], pa_producer_fd = 4, pa_leader_committed = True, pa_isr_acked = 0, pa_isr_required = 1,
      pa_acked_followers = []\<rparr>"
  let ?rm = "\<lparr>rm_pending = [?pa], rm_follower_fds = [], rm_commit_queue = [], rm_running = True\<rparr>" and ?c = "ConnectionState 100 4"
  obtain br0 :: "unit broker" where br0: "broker_reach br0" "br_heap br0 = [0 \<mapsto> ?c]" "br_responses br0 = []" by (rule example_accepting)
  define br where "br = br0\<lparr>br_handler := (br_handler br0)\<lparr>rh_cfg := Some config_defaults\<rparr>, br_managers := [replication_key ''t'' 0 \<mapsto> ?rm]\<rparr>"
  have r: "broker_reach br" unfolding br_def by (rule reach_other [OF br0(1)])
  have f: "br_managers br (replication_key ''t'' 0) = Some ?rm" "rh_cfg (br_handler br) = Some config_defaults" "br_heap br 0 = Some ?c"
    "br_responses br = []" by (simp_all add: br_def br0)
  obtain m' rm' where o: "rm_on_replica_ack config_defaults 1 6 (fst (broker_meta ''t'' 0 br)) ?rm = ([(4, [7, 8])], m', rm')"
    by (simp add: rm_on_replica_ack_def over_pending_def count_ack_def try_release_def Let_def)
  have c: "cn_fd ?c = 4" "unsent ?c = []" by (simp_all add: ConnectionState_def unsent_def)
  have "\<exists>br'. broker_turn example_env [ConnEvent 0 False False True [] (Sent 10)] (snd (replica_ack_cb 1 6 ''t'' 0 br)) = Inr ([SendData 4 [7, 8]], br')"
    using deferred_ack_reaches_producer [OF r f(1,2) _ _ _ _ _ _ o f(3), of ?pa 10 example_env] c f(4) by simp
  with r show ?thesis by blast
qed

end
