(* ===== verification/Fell_Poller.thy ===== *)
theory Fell_Poller
  imports Fell_Broker_Properties
begin

text \<open>
  The pollers of \<^verbatim>\<open>platform/ipoller.hpp\<close>: \<^verbatim>\<open>platform/epoll_poller.cpp\<close> and \<^verbatim>\<open>platform/wsapoll_poller.cpp\<close>. The interest
  list of an epoll instance is modelled by the documented effect of \<^verbatim>\<open>epoll_ctl\<close>; what \<^verbatim>\<open>epoll_wait\<close> and \<^verbatim>\<open>WSAPoll\<close>
  report is an argument, and their documented promise about it is a predicate. The locale states what the reactor
  relies on; both implementations are interpretations of it, and the reactor's registrations are shown to follow its
  connection table through either of them.
\<close>

section \<open>Definitions\<close>

subsection \<open>Interface\<close>

definition PF_READ :: u32 where "PF_READ = 1"
definition PF_WRITE :: u32 where "PF_WRITE = 2"
definition PF_HUP :: u32 where "PF_HUP = 4"

record 'c PollEvent =
  pe_ctx :: 'c
  pe_flags :: u32

subsection \<open>platform/epoll\_poller.cpp\<close>

text \<open>The bits of \<^verbatim>\<open>sys/epoll.h\<close>.\<close>

definition EPOLLIN :: u32 where "EPOLLIN = 1"
definition EPOLLOUT :: u32 where "EPOLLOUT = 4"
definition EPOLLERR :: u32 where "EPOLLERR = 8"
definition EPOLLHUP :: u32 where "EPOLLHUP = 16"

definition to_epoll :: "u32 \<Rightarrow> u32" where
  "to_epoll f =
     (let e = EPOLLERR OR EPOLLHUP;
          e = (if f AND PF_READ \<noteq> 0 then e OR EPOLLIN else e)
      in if f AND PF_WRITE \<noteq> 0 then e OR EPOLLOUT else e)"

definition from_epoll :: "u32 \<Rightarrow> u32" where
  "from_epoll e =
     (let f = 0;
          f = (if e AND EPOLLIN \<noteq> 0 then f OR PF_READ else f);
          f = (if e AND EPOLLOUT \<noteq> 0 then f OR PF_WRITE else f)
      in if e AND (EPOLLERR OR EPOLLHUP) \<noteq> 0 then f OR PF_HUP else f)"

text \<open>The interest list. \<^verbatim>\<open>EPOLL_CTL_ADD\<close> fails on a registered descriptor, \<^verbatim>\<open>EPOLL_CTL_MOD\<close> and \<^verbatim>\<open>EPOLL_CTL_DEL\<close> on one
  that is not; the poller ignores the result.\<close>

type_synonym 'c interest = "int \<rightharpoonup> u32 \<times> 'c"

definition epoll_add :: "int \<Rightarrow> u32 \<Rightarrow> 'c \<Rightarrow> 'c interest \<Rightarrow> 'c interest" where
  "epoll_add fd flags ctx s = (case s fd of None \<Rightarrow> s(fd \<mapsto> (to_epoll flags, ctx)) | Some _ \<Rightarrow> s)"

definition epoll_modify :: "int \<Rightarrow> u32 \<Rightarrow> 'c \<Rightarrow> 'c interest \<Rightarrow> 'c interest" where
  "epoll_modify fd flags ctx s = (case s fd of None \<Rightarrow> s | Some _ \<Rightarrow> s(fd \<mapsto> (to_epoll flags, ctx)))"

definition epoll_remove :: "int \<Rightarrow> 'c interest \<Rightarrow> 'c interest" where
  "epoll_remove fd s = s(fd := None)"

definition kMaxBatch :: nat where
  "kMaxBatch = 64"

text \<open>\<^verbatim>\<open>epoll_wait\<close> is an argument: for the size of the buffer, \<open>None\<close> for a negative result and otherwise the events it reports.\<close>

definition epoll_poller_wait :: "nat \<Rightarrow> (nat \<Rightarrow> (u32 \<times> 'c) list option) \<Rightarrow> 'c interest \<Rightarrow> 'c PollEvent list" where
  "epoll_poller_wait cap epoll_wait s =
     (case epoll_wait (min cap kMaxBatch) of
        None \<Rightarrow> []
      | Some raw \<Rightarrow> map (\<lambda>(e, c). \<lparr>pe_ctx = c, pe_flags = from_epoll e\<rparr>) raw)"

text \<open>Its promise: at most as many events as asked for, each of a registered descriptor and with bits that were asked for.\<close>

definition epoll_reports :: "'c interest \<Rightarrow> (nat \<Rightarrow> (u32 \<times> 'c) list option) \<Rightarrow> bool" where
  "epoll_reports s epoll_wait \<longleftrightarrow>
     (\<forall>n raw. epoll_wait n = Some raw \<longrightarrow>
        length raw \<le> n \<and> (\<forall>(e, c) \<in> set raw. \<exists>fd m. s fd = Some (m, c) \<and> e AND NOT m = 0))"

subsection \<open>platform/wsapoll\_poller.cpp\<close>

text \<open>The bits of \<^verbatim>\<open>winsock2.h\<close>.\<close>

definition POLLRDNORM :: u16 where "POLLRDNORM = 0x100"
definition POLLWRNORM :: u16 where "POLLWRNORM = 0x10"
definition POLLERR :: u16 where "POLLERR = 1"
definition POLLHUP :: u16 where "POLLHUP = 2"
definition POLLNVAL :: u16 where "POLLNVAL = 4"

text \<open>Two vectors that are kept in step: \<^verbatim>\<open>entries_\<close> and \<^verbatim>\<open>pfds_\<close>, the latter without \<^verbatim>\<open>revents\<close>, which \<^verbatim>\<open>WSAPoll\<close> writes.\<close>

record 'c wsapoll =
  wp_entries :: "(int \<times> 'c) list"
  wp_pfds :: "(int \<times> u16) list"

definition WSAPollPoller :: "'c wsapoll" where
  "WSAPollPoller = \<lparr>wp_entries = [], wp_pfds = []\<rparr>"

definition to_wsapoll :: "u32 \<Rightarrow> u16" where
  "to_wsapoll f =
     (let e = 0;
          e = (if f AND PF_READ \<noteq> 0 then e OR POLLRDNORM else e)
      in if f AND PF_WRITE \<noteq> 0 then e OR POLLWRNORM else e)"

definition from_wsapoll :: "u16 \<Rightarrow> u32" where
  "from_wsapoll e =
     (let f = 0;
          f = (if e AND POLLRDNORM \<noteq> 0 then f OR PF_READ else f);
          f = (if e AND POLLWRNORM \<noteq> 0 then f OR PF_WRITE else f)
      in if e AND (POLLERR OR POLLHUP) \<noteq> 0 then f OR PF_HUP else f)"

definition wsa_add :: "int \<Rightarrow> u32 \<Rightarrow> 'c \<Rightarrow> 'c wsapoll \<Rightarrow> 'c wsapoll" where
  "wsa_add fd flags ctx p =
     p\<lparr>wp_entries := wp_entries p @ [(fd, ctx)], wp_pfds := wp_pfds p @ [(fd, to_wsapoll flags)]\<rparr>"

text \<open>The loop over \<^verbatim>\<open>entries_\<close> that both functions start with: the first index with this descriptor.\<close>

fun wsa_find :: "int \<Rightarrow> (int \<times> 'c) list \<Rightarrow> nat option" where
  "wsa_find fd [] = None"
| "wsa_find fd (e # es) = (if fst e = fd then Some 0 else map_option Suc (wsa_find fd es))"

definition wsa_modify :: "int \<Rightarrow> u32 \<Rightarrow> 'c \<Rightarrow> 'c wsapoll \<Rightarrow> 'c wsapoll" where
  "wsa_modify fd flags ctx p =
     (case wsa_find fd (wp_entries p) of
        None \<Rightarrow> p
      | Some i \<Rightarrow> p\<lparr>wp_entries := (wp_entries p)[i := (fst (wp_entries p ! i), ctx)],
                   wp_pfds := (wp_pfds p)[i := (fst (wp_pfds p ! i), to_wsapoll flags)]\<rparr>)"

definition wsa_remove :: "int \<Rightarrow> 'c wsapoll \<Rightarrow> 'c wsapoll" where
  "wsa_remove fd p =
     (case wsa_find fd (wp_entries p) of
        None \<Rightarrow> p
      | Some i \<Rightarrow> p\<lparr>wp_entries := take i (wp_entries p) @ drop (Suc i) (wp_entries p),
                   wp_pfds := take i (wp_pfds p) @ drop (Suc i) (wp_pfds p)\<rparr>)"

text \<open>The loop of \<^verbatim>\<open>wait\<close>: the entries with the \<^verbatim>\<open>revents\<close> of their descriptors, and the room that is left in \<^verbatim>\<open>out\<close>.\<close>

fun wsa_collect :: "nat \<Rightarrow> (int \<times> 'c) list \<Rightarrow> u16 list \<Rightarrow> 'c PollEvent list" where
  "wsa_collect left (e # es) (r # rs) =
     (if left = 0 then []
      else if r \<noteq> 0 then \<lparr>pe_ctx = snd e, pe_flags = from_wsapoll r\<rparr> # wsa_collect (left - 1) es rs
      else wsa_collect left es rs)"
| "wsa_collect left _ _ = []"

text \<open>\<open>n\<close> is the result of \<^verbatim>\<open>WSAPoll\<close>, \<open>revents\<close> what it wrote.\<close>

definition wsa_wait :: "nat \<Rightarrow> int \<times> u16 list \<Rightarrow> 'c wsapoll \<Rightarrow> 'c PollEvent list" where
  "wsa_wait cap res p =
     (if wp_pfds p = [] then []
      else if fst res \<le> 0 then []
      else wsa_collect cap (wp_entries p) (snd res))"

text \<open>Its promise: the bits that were asked for, and the three that are always reported.\<close>

definition wsa_reports :: "'c wsapoll \<Rightarrow> int \<times> u16 list \<Rightarrow> bool" where
  "wsa_reports p res =
     (list_all2 (\<lambda>pfd r. r AND NOT (snd pfd OR POLLERR OR POLLHUP OR POLLNVAL) = 0) (wp_pfds p) (snd res)
      \<and> fst res = int (length (filter (\<lambda>r. r \<noteq> 0) (snd res))))"

section \<open>Flags\<close>

lemmas poll_bits = PF_READ_def PF_WRITE_def PF_HUP_def EPOLLIN_def EPOLLOUT_def EPOLLERR_def EPOLLHUP_def
  POLLRDNORM_def POLLWRNORM_def POLLERR_def POLLHUP_def POLLNVAL_def

text \<open>A mask of one bit tests that bit.\<close>

lemma and_mask_bit:
  fixes f :: "'a::len word"
  shows "f AND 1 \<noteq> 0 \<longleftrightarrow> bit f 0" "f AND 2 \<noteq> 0 \<longleftrightarrow> bit f 1" "f AND 4 \<noteq> 0 \<longleftrightarrow> bit f 2" "f AND 8 \<noteq> 0 \<longleftrightarrow> bit f 3"
    "f AND 16 \<noteq> 0 \<longleftrightarrow> bit f 4" "f AND 256 \<noteq> 0 \<longleftrightarrow> bit f 8"
  using and_exp_eq_0_iff_not_bit [of f 0] and_exp_eq_0_iff_not_bit [of f 1] and_exp_eq_0_iff_not_bit [of f 2]
    and_exp_eq_0_iff_not_bit [of f 3] and_exp_eq_0_iff_not_bit [of f 4] and_exp_eq_0_iff_not_bit [of f 8]
  by simp_all

lemma bit_power: "k < LENGTH('a) \<Longrightarrow> bit (2 ^ k :: 'a::len word) n \<longleftrightarrow> n = k"
  by (auto simp: bit_exp_iff)

lemma bit_mask:
  "bit (1 :: u32) n \<longleftrightarrow> n = 0" "bit (2 :: u32) n \<longleftrightarrow> n = 1" "bit (4 :: u32) n \<longleftrightarrow> n = 2" "bit (8 :: u32) n \<longleftrightarrow> n = 3"
  "bit (16 :: u32) n \<longleftrightarrow> n = 4" "bit (256 :: u16) n \<longleftrightarrow> n = 8" "bit (16 :: u16) n \<longleftrightarrow> n = 4" "bit (4 :: u16) n \<longleftrightarrow> n = 2"
  "bit (2 :: u16) n \<longleftrightarrow> n = 1" "bit (1 :: u16) n \<longleftrightarrow> n = 0"
proof -
  have p: "(1 :: u32) = 2 ^ 0" "(2 :: u32) = 2 ^ 1" "(4 :: u32) = 2 ^ 2" "(8 :: u32) = 2 ^ 3" "(16 :: u32) = 2 ^ 4"
    "(256 :: u16) = 2 ^ 8" "(16 :: u16) = 2 ^ 4" "(4 :: u16) = 2 ^ 2" "(2 :: u16) = 2 ^ 1" "(1 :: u16) = 2 ^ 0" by simp_all
  show "bit (1 :: u32) n \<longleftrightarrow> n = 0" by (subst p(1)) (rule bit_power, simp)
  show "bit (2 :: u32) n \<longleftrightarrow> n = 1" by (subst p(2)) (rule bit_power, simp)
  show "bit (4 :: u32) n \<longleftrightarrow> n = 2" by (subst p(3)) (rule bit_power, simp)
  show "bit (8 :: u32) n \<longleftrightarrow> n = 3" by (subst p(4)) (rule bit_power, simp)
  show "bit (16 :: u32) n \<longleftrightarrow> n = 4" by (subst p(5)) (rule bit_power, simp)
  show "bit (256 :: u16) n \<longleftrightarrow> n = 8" by (subst p(6)) (rule bit_power, simp)
  show "bit (16 :: u16) n \<longleftrightarrow> n = 4" by (subst p(7)) (rule bit_power, simp)
  show "bit (4 :: u16) n \<longleftrightarrow> n = 2" by (subst p(8)) (rule bit_power, simp)
  show "bit (2 :: u16) n \<longleftrightarrow> n = 1" by (subst p(9)) (rule bit_power, simp)
  show "bit (1 :: u16) n \<longleftrightarrow> n = 0" by (subst p(10)) (rule bit_power, simp)
qed

lemma flag_bits: "f AND PF_READ \<noteq> 0 \<longleftrightarrow> bit f 0" "f AND PF_WRITE \<noteq> 0 \<longleftrightarrow> bit f 1" "f AND PF_HUP \<noteq> 0 \<longleftrightarrow> bit f 2"
  unfolding poll_bits by (rule and_mask_bit)+

lemma and_two_masks: "f AND (a OR b) \<noteq> 0 \<longleftrightarrow> f AND a \<noteq> 0 \<or> f AND b \<noteq> 0" for f :: "'a::len word"
  by (simp add: bit.conj_disj_distrib or_eq_0_iff)

lemmas flag_rules = Let_def poll_bits and_two_masks and_mask_bit if_True if_False bit_or_iff bit_mask bit_0_eq

lemma bit_to_epoll: "bit (to_epoll f) n \<longleftrightarrow> n = 3 \<or> n = 4 \<or> (n = 0 \<and> bit f 0) \<or> (n = 2 \<and> bit f 1)"
  by (cases "bit f 0"; cases "bit f 1") (simp_all only: to_epoll_def flag_rules, auto)

lemma bit_from_epoll: "bit (from_epoll e) n \<longleftrightarrow> (n = 0 \<and> bit e 0) \<or> (n = 1 \<and> bit e 2) \<or> (n = 2 \<and> (bit e 3 \<or> bit e 4))"
  by (cases "bit e 0"; cases "bit e 2"; cases "bit e 3 \<or> bit e 4") (simp_all only: from_epoll_def flag_rules, auto)

lemma bit_to_wsapoll: "bit (to_wsapoll f) n \<longleftrightarrow> (n = 8 \<and> bit f 0) \<or> (n = 4 \<and> bit f 1)"
  by (cases "bit f 0"; cases "bit f 1") (simp_all only: to_wsapoll_def flag_rules, auto)

lemma bit_from_wsapoll: "bit (from_wsapoll e) n \<longleftrightarrow> (n = 0 \<and> bit e 8) \<or> (n = 1 \<and> bit e 4) \<or> (n = 2 \<and> (bit e 0 \<or> bit e 1))"
  by (cases "bit e 8"; cases "bit e 4"; cases "bit e 0 \<or> bit e 1") (simp_all only: from_wsapoll_def flag_rules, auto)

section \<open>The reactor as a client\<close>

text \<open>What the contexts of the broker's registrations point to.\<close>

datatype poll_ctx = NotifySentinel | AcceptorSentinel | ConnAt nat

definition flags_of :: "registration \<Rightarrow> u32" where
  "flags_of r = (if fst r then PF_READ else 0) OR (if fst (snd r) then PF_WRITE else 0)"

lemma bit_flags_of [simp]: "bit (flags_of r) 0 = fst r" "bit (flags_of r) 1 = fst (snd r)" "bit (flags_of r) (Suc 0) = fst (snd r)"
  by (cases "fst r"; cases "fst (snd r)"; simp add: flags_of_def poll_bits bit_or_iff)+

fun perform ::
  "(int \<Rightarrow> u32 \<Rightarrow> poll_ctx \<Rightarrow> 'p \<Rightarrow> 'p) \<Rightarrow> (int \<Rightarrow> u32 \<Rightarrow> poll_ctx \<Rightarrow> 'p \<Rightarrow> 'p) \<Rightarrow> (int \<Rightarrow> 'p \<Rightarrow> 'p) \<Rightarrow> poller_call \<Rightarrow> 'p \<Rightarrow> 'p" where
  "perform add modify remove (CallAdd fd r) p = add fd (flags_of r) (ConnAt (snd (snd r))) p"
| "perform add modify remove (CallModify fd r) p = modify fd (flags_of r) (ConnAt (snd (snd r))) p"
| "perform add modify remove (CallRemove fd) p = remove fd p"

text \<open>The poller of a broker: the notification socket is added first, then the listening socket, then the connections.\<close>

definition broker_poller ::
  "(int \<Rightarrow> u32 \<Rightarrow> poll_ctx \<Rightarrow> 'p \<Rightarrow> 'p) \<Rightarrow> (int \<Rightarrow> u32 \<Rightarrow> poll_ctx \<Rightarrow> 'p \<Rightarrow> 'p) \<Rightarrow> (int \<Rightarrow> 'p \<Rightarrow> 'p) \<Rightarrow> int \<Rightarrow> int \<Rightarrow> poller_call list \<Rightarrow> 'p \<Rightarrow> 'p" where
  "broker_poller add modify remove nfd lfd cs p =
     fold (perform add modify remove) cs (add lfd PF_READ AcceptorSentinel (add nfd PF_READ NotifySentinel p))"

fun call_fd :: "poller_call \<Rightarrow> int" where
  "call_fd (CallAdd fd r) = fd"
| "call_fd (CallModify fd r) = fd"
| "call_fd (CallRemove fd) = fd"

text \<open>The registrations of the broker: its two own sockets, and its connections.\<close>

definition registered :: "int \<Rightarrow> int \<Rightarrow> (int \<rightharpoonup> registration) \<Rightarrow> (int \<rightharpoonup> bool \<times> bool \<times> poll_ctx)" where
  "registered nfd lfd m =
     (\<lambda>fd. map_option (\<lambda>(rd, wr, i). (rd, wr, ConnAt i)) (m fd))
       (nfd \<mapsto> (True, False, NotifySentinel), lfd \<mapsto> (True, False, AcceptorSentinel))"

lemma registered_simps:
  "fd \<noteq> nfd \<Longrightarrow> fd \<noteq> lfd \<Longrightarrow> registered nfd lfd m fd = map_option (\<lambda>(rd, wr, i). (rd, wr, ConnAt i)) (m fd)"
  "fd \<noteq> nfd \<Longrightarrow> fd \<noteq> lfd \<Longrightarrow> (registered nfd lfd m)(fd \<mapsto> (fst r, fst (snd r), ConnAt (snd (snd r)))) = registered nfd lfd (m(fd \<mapsto> r))"
  "fd \<noteq> nfd \<Longrightarrow> fd \<noteq> lfd \<Longrightarrow> (registered nfd lfd m)(fd := None) = registered nfd lfd (m(fd := None))"
  by (auto simp: registered_def fun_eq_iff split_beta)

text \<open>An event is for a live connection, or for one of the broker's own sockets.\<close>

definition event_is_live :: "'cb broker \<Rightarrow> poll_ctx PollEvent \<Rightarrow> bool" where
  "event_is_live br ev \<longleftrightarrow>
     (case pe_ctx ev of
        ConnAt i \<Rightarrow> (\<exists>c. br_heap br i = Some c \<and> (pe_flags ev AND PF_READ \<noteq> 0 \<longrightarrow> \<not> cn_read_disabled c))
      | _ \<Rightarrow> True)"

text \<open>What a poller promises: it keeps a map of registrations, and reports no more than was asked for. What \<open>add\<close> does to
  a descriptor that is registered already is left open.\<close>

locale poller =
  fixes padd pmodify :: "int \<Rightarrow> u32 \<Rightarrow> 'c \<Rightarrow> 'p \<Rightarrow> 'p" and premove :: "int \<Rightarrow> 'p \<Rightarrow> 'p" and pempty :: 'p
    and pwait :: "nat \<Rightarrow> 'r \<Rightarrow> 'p \<Rightarrow> 'c PollEvent list" and reports :: "'p \<Rightarrow> 'r \<Rightarrow> bool"
    and regs :: "'p \<Rightarrow> int \<rightharpoonup> bool \<times> bool \<times> 'c" and pinv :: "'p \<Rightarrow> bool"
  assumes inv_empty: "pinv pempty"
    and regs_empty: "regs pempty = Map.empty"
    and inv_add: "pinv p \<Longrightarrow> regs p fd = None \<Longrightarrow> pinv (padd fd f c p)"
    and regs_add: "pinv p \<Longrightarrow> regs p fd = None \<Longrightarrow> regs (padd fd f c p) = (regs p)(fd \<mapsto> (bit f 0, bit f 1, c))"
    and inv_modify: "pinv p \<Longrightarrow> pinv (pmodify fd f c p)"
    and regs_modify: "pinv p \<Longrightarrow> regs p fd \<noteq> None \<Longrightarrow> regs (pmodify fd f c p) = (regs p)(fd \<mapsto> (bit f 0, bit f 1, c))"
    and modify_unknown: "pinv p \<Longrightarrow> regs p fd = None \<Longrightarrow> pmodify fd f c p = p"
    and inv_remove: "pinv p \<Longrightarrow> pinv (premove fd p)"
    and regs_remove: "pinv p \<Longrightarrow> regs (premove fd p) = (regs p)(fd := None)"
    and wait_sound: "pinv p \<Longrightarrow> reports p r \<Longrightarrow> ev \<in> set (pwait cap r p) \<Longrightarrow>
      \<exists>fd rd wr. regs p fd = Some (rd, wr, pe_ctx ev) \<and> (bit (pe_flags ev) 0 \<longrightarrow> rd) \<and> (bit (pe_flags ev) 1 \<longrightarrow> wr)"
    and wait_cap: "reports p r \<Longrightarrow> length (pwait cap r p) \<le> cap"

text \<open>The reactor as a client: its registrations follow its connection table.\<close>

locale reactor_poller = poller padd pmodify premove pempty pwait reports regs pinv
  for padd pmodify :: "int \<Rightarrow> u32 \<Rightarrow> poll_ctx \<Rightarrow> 'p \<Rightarrow> 'p" and premove pempty
    and pwait :: "nat \<Rightarrow> 'r \<Rightarrow> 'p \<Rightarrow> poll_ctx PollEvent list" and reports regs pinv
begin

lemma perform_registers:
  assumes "pinv p" "regs p = registered nfd lfd m" "apply_call c m = Some m'" "call_fd c \<noteq> nfd" "call_fd c \<noteq> lfd"
  shows "pinv (perform padd pmodify premove c p)" "regs (perform padd pmodify premove c p) = registered nfd lfd m'"
proof -
  have "pinv (perform padd pmodify premove c p) \<and> regs (perform padd pmodify premove c p) = registered nfd lfd m'"
    using assms
    by (cases c) (auto simp: inv_add regs_add inv_modify regs_modify inv_remove regs_remove registered_simps split: if_splits)
  then show "pinv (perform padd pmodify premove c p)" "regs (perform padd pmodify premove c p) = registered nfd lfd m'" by simp_all
qed

lemma fold_perform:
  "pinv p \<Longrightarrow> regs p = registered nfd lfd m \<Longrightarrow> replay cs m = Some m' \<Longrightarrow> \<forall>c \<in> set cs. call_fd c \<noteq> nfd \<and> call_fd c \<noteq> lfd \<Longrightarrow>
     pinv (fold (perform padd pmodify premove) cs p) \<and> regs (fold (perform padd pmodify premove) cs p) = registered nfd lfd m'"
proof (induction cs arbitrary: p m)
  case (Cons c cs)
  from Cons.prems(3) obtain m1 where m1: "apply_call c m = Some m1" "replay cs m1 = Some m'" by (auto simp: bind_eq_Some_conv)
  show ?case using Cons.IH [OF perform_registers [OF Cons.prems(1,2) m1(1)] m1(2)] Cons.prems(4) by simp
qed simp

lemma broker_poller_registers:
  assumes "replay cs Map.empty = Some m" "nfd \<noteq> lfd" "\<forall>c \<in> set cs. call_fd c \<noteq> nfd \<and> call_fd c \<noteq> lfd"
  shows "pinv (broker_poller padd pmodify premove nfd lfd cs pempty)"
    "regs (broker_poller padd pmodify premove nfd lfd cs pempty) = registered nfd lfd m"
proof -
  let ?p1 = "padd nfd PF_READ NotifySentinel pempty"
  let ?p2 = "padd lfd PF_READ AcceptorSentinel ?p1"
  have f: "bit PF_READ 0" "\<not> bit PF_READ (Suc 0)" by (simp_all add: PF_READ_def)
  have 1: "pinv ?p1" "regs ?p1 = [nfd \<mapsto> (True, False, NotifySentinel)]" by (simp_all add: inv_add inv_empty regs_add regs_empty f)
  then have "pinv ?p2" "regs ?p2 = registered nfd lfd Map.empty"
    using assms(2) by (simp_all add: inv_add regs_add f registered_def)
  from fold_perform [OF this assms(1,3)] show "pinv (broker_poller padd pmodify premove nfd lfd cs pempty)"
    "regs (broker_poller padd pmodify premove nfd lfd cs pempty) = registered nfd lfd m" by (simp_all add: broker_poller_def)
qed

lemma events_live:
  assumes "broker_inv br" "nfd \<noteq> lfd" "\<forall>c \<in> set (br_calls br). call_fd c \<noteq> nfd \<and> call_fd c \<noteq> lfd"
    and "reports (broker_poller padd pmodify premove nfd lfd (br_calls br) pempty) r"
    and "ev \<in> set (pwait cap r (broker_poller padd pmodify premove nfd lfd (br_calls br) pempty))"
  shows "event_is_live br ev"
proof -
  note reg = broker_poller_registers [OF broker_inv_replay [OF assms(1)] assms(2,3)]
  obtain fd rd wr where f: "registered nfd lfd (br_poller br) fd = Some (rd, wr, pe_ctx ev)" "bit (pe_flags ev) 0 \<longrightarrow> rd"
    using wait_sound [OF reg(1) assms(4,5)] reg(2) by auto
  show ?thesis
  proof (cases "pe_ctx ev")
    case (ConnAt i)
    then have po: "br_poller br fd = Some (rd, wr, i)" using f(1) by (auto simp: registered_def split: if_splits)
    then have "br_conns br fd = Some i" using broker_inv_poller [OF assms(1)] by fastforce
    then obtain c where c: "br_heap br i = Some c" "cn_fd c = fd" using broker_inv_conns [OF assms(1)] by blast
    have "rd = (\<not> cn_read_disabled c)" by (rule broker_invD [OF assms(1) c(1)]) (use c(2) po in simp)
    then show ?thesis using c(1) f(2) ConnAt by (simp add: event_is_live_def flag_bits)
  qed (simp_all add: event_is_live_def)
qed

end

section \<open>epoll\<close>

definition epoll_regs :: "'c interest \<Rightarrow> int \<rightharpoonup> bool \<times> bool \<times> 'c" where
  "epoll_regs s = (\<lambda>fd. map_option (\<lambda>(m, c). (bit m 0, bit m 2, c)) (s fd))"

lemma bit_subset: "e AND NOT m = 0 \<Longrightarrow> bit e n \<Longrightarrow> bit m n" for e :: "'a::len word"
proof -
  assume e: "e AND NOT m = 0" "bit e n"
  have "\<not> bit (e AND NOT m) n" using e(1) by simp
  then show "bit m n" using e(2) by (simp add: bit_and_iff bit_not_iff bit_imp_le_length)
qed

lemma epoll_wait_sound:
  assumes "epoll_reports s r" "ev \<in> set (epoll_poller_wait cap r s)"
  shows "\<exists>fd rd wr. epoll_regs s fd = Some (rd, wr, pe_ctx ev) \<and> (bit (pe_flags ev) 0 \<longrightarrow> rd) \<and> (bit (pe_flags ev) 1 \<longrightarrow> wr)"
proof -
  obtain raw e where r: "r (min cap kMaxBatch) = Some raw" "(e, pe_ctx ev) \<in> set raw" "pe_flags ev = from_epoll e"
    using assms(2) by (cases "r (min cap kMaxBatch)") (auto simp: epoll_poller_wait_def)
  then obtain fd m where m: "s fd = Some (m, pe_ctx ev)" "e AND NOT m = 0" using assms(1) unfolding epoll_reports_def by fastforce
  then show ?thesis using r(3) bit_subset [OF m(2)] by (intro exI [of _ fd]) (simp add: epoll_regs_def bit_from_epoll)
qed

interpretation epoll: reactor_poller epoll_add epoll_modify epoll_remove Map.empty epoll_poller_wait epoll_reports epoll_regs "\<lambda>_. True"
proof (unfold_locales, goal_cases)
  case 10 then show ?case using epoll_wait_sound by blast
next
  case (11 s r cap)
  then show ?case unfolding epoll_reports_def epoll_poller_wait_def by (force split: option.split)
qed (auto simp: epoll_add_def epoll_modify_def epoll_remove_def epoll_regs_def bit_to_epoll fun_eq_iff split: option.split)

section \<open>WSAPoll\<close>

text \<open>Two vectors in step are a map, when the keys are distinct.\<close>

lemma map_of_zip_update:
  "distinct ks \<Longrightarrow> length vs = length ks \<Longrightarrow> i < length ks \<Longrightarrow> map_of (zip ks (vs[i := v])) = (map_of (zip ks vs))(ks ! i \<mapsto> v)"
proof (induction ks arbitrary: vs i)
  case (Cons k ks)
  then obtain w ws where "vs = w # ws" by (cases vs) auto
  with Cons show ?case by (cases i) (auto simp: fun_eq_iff)
qed simp

lemma map_of_zip_snoc:
  "length ks = length vs \<Longrightarrow> k \<notin> set ks \<Longrightarrow> map_of (zip (ks @ [k]) (vs @ [v])) = (map_of (zip ks vs))(k \<mapsto> v)"
  by (induction ks vs rule: list_induct2) (auto simp: fun_eq_iff)

lemma map_of_zip_erase:
  "distinct ks \<Longrightarrow> length vs = length ks \<Longrightarrow> i < length ks \<Longrightarrow>
     map_of (zip (take i ks @ drop (Suc i) ks) (take i vs @ drop (Suc i) vs)) = (map_of (zip ks vs))(ks ! i := None)"
proof (induction ks arbitrary: vs i)
  case (Cons k ks)
  then obtain w ws where v: "vs = w # ws" by (cases vs) auto
  have "map_of (zip ks ws) k = None" using Cons.prems v by simp
  with Cons v show ?case by (cases i) (auto simp: fun_eq_iff)
qed simp

lemma distinct_erase: "distinct xs \<Longrightarrow> distinct (take i xs @ drop (Suc i) xs)"
  by (induction xs arbitrary: i) (auto simp: take_Cons drop_Cons split: nat.split dest: in_set_takeD in_set_dropD)

definition wsa_inv :: "'c wsapoll \<Rightarrow> bool" where
  "wsa_inv p \<longleftrightarrow> map fst (wp_pfds p) = map fst (wp_entries p) \<and> distinct (map fst (wp_entries p))"

definition wsa_regs :: "'c wsapoll \<Rightarrow> int \<rightharpoonup> bool \<times> bool \<times> 'c" where
  "wsa_regs p =
     map_of (zip (map fst (wp_entries p)) (map2 (\<lambda>e m. (bit (snd m) 8, bit (snd m) 4, snd e)) (wp_entries p) (wp_pfds p)))"

lemma wsa_inv_length: "wsa_inv p \<Longrightarrow> length (wp_pfds p) = length (wp_entries p)"
  unfolding wsa_inv_def by (metis length_map)

lemma wsa_find_None: "wsa_find fd es = None \<longleftrightarrow> fd \<notin> fst ` set es"
  by (induction es) auto

lemma wsa_find_Some: "wsa_find fd es = Some i \<Longrightarrow> i < length es \<and> fst (es ! i) = fd"
  by (induction es arbitrary: i) (auto split: if_splits)

lemma wsa_regs_None: "wsa_inv p \<Longrightarrow> wsa_regs p fd = None \<longleftrightarrow> wsa_find fd (wp_entries p) = None"
  by (simp add: wsa_regs_def wsa_find_None wsa_inv_length)

lemma wsa_regs_nth:
  assumes "wsa_inv p" "i < length (wp_entries p)"
  shows "wsa_regs p (fst (wp_entries p ! i)) = Some (bit (snd (wp_pfds p ! i)) 8, bit (snd (wp_pfds p ! i)) 4, snd (wp_entries p ! i))"
proof -
  let ?ks = "map fst (wp_entries p)" and ?vs = "map2 (\<lambda>e m. (bit (snd m) 8, bit (snd m) 4, snd e)) (wp_entries p) (wp_pfds p)"
  have "map_of (zip ?ks ?vs) (?ks ! i) = Some (?vs ! i)"
    by (rule map_of_zip_nth) (use assms wsa_inv_length [OF assms(1)] in \<open>simp_all add: wsa_inv_def\<close>)
  moreover have "?ks ! i = fst (wp_entries p ! i)" "?vs ! i = (bit (snd (wp_pfds p ! i)) 8, bit (snd (wp_pfds p ! i)) 4, snd (wp_entries p ! i))"
    using assms wsa_inv_length [OF assms(1)] by simp_all
  ultimately show ?thesis unfolding wsa_regs_def by (simp only:)
qed

lemma wsa_add_ok:
  assumes "wsa_inv p" "wsa_regs p fd = None"
  shows "wsa_inv (wsa_add fd f c p)" "wsa_regs (wsa_add fd f c p) = (wsa_regs p)(fd \<mapsto> (bit f 0, bit f 1, c))"
proof -
  have new: "fd \<notin> fst ` set (wp_entries p)" using assms by (simp add: wsa_regs_None wsa_find_None)
  then show "wsa_inv (wsa_add fd f c p)" using assms(1) by (simp add: wsa_inv_def wsa_add_def)
  let ?g = "\<lambda>(e :: int \<times> 'a) (m :: int \<times> u16). (bit (snd m) 8, bit (snd m) 4, snd e)"
  have "map2 ?g (wp_entries p @ [(fd, c)]) (wp_pfds p @ [(fd, to_wsapoll f)]) = map2 ?g (wp_entries p) (wp_pfds p) @ [(bit f 0, bit f 1, c)]"
    using wsa_inv_length [OF assms(1)] by (simp add: bit_to_wsapoll)
  then show "wsa_regs (wsa_add fd f c p) = (wsa_regs p)(fd \<mapsto> (bit f 0, bit f 1, c))"
    using map_of_zip_snoc [of "map fst (wp_entries p)" "map2 ?g (wp_entries p) (wp_pfds p)" fd "(bit f 0, bit f 1, c)"]
      new wsa_inv_length [OF assms(1)] by (simp add: wsa_regs_def wsa_add_def)
qed

lemma wsa_modify_ok:
  assumes "wsa_inv p"
  shows "wsa_inv (wsa_modify fd f c p)"
    "wsa_regs p fd \<noteq> None \<Longrightarrow> wsa_regs (wsa_modify fd f c p) = (wsa_regs p)(fd \<mapsto> (bit f 0, bit f 1, c))"
proof -
  have i: "map fst (xs[i := (fst (xs ! i), v)]) = map fst xs" if "i < length xs" for i v and xs :: "(int \<times> 'v) list"
    using that list_update_id [of "map fst xs" i] by (simp add: map_update)
  show "wsa_inv (wsa_modify fd f c p)"
    using assms wsa_inv_length [OF assms] by (auto simp: wsa_modify_def wsa_inv_def i dest!: wsa_find_Some split: option.split)
  assume "wsa_regs p fd \<noteq> None"
  then obtain j where j: "wsa_find fd (wp_entries p) = Some j" using assms by (auto simp: wsa_regs_None)
  note jl = wsa_find_Some [OF j]
  let ?g = "\<lambda>(e :: int \<times> 'a) (m :: int \<times> u16). (bit (snd m) 8, bit (snd m) 4, snd e)"
  have "map2 ?g ((wp_entries p)[j := (fst (wp_entries p ! j), c)]) ((wp_pfds p)[j := (fst (wp_pfds p ! j), to_wsapoll f)])
      = (map2 ?g (wp_entries p) (wp_pfds p))[j := (bit f 0, bit f 1, c)]"
    by (simp add: zip_update map_update bit_to_wsapoll)
  then show "wsa_regs (wsa_modify fd f c p) = (wsa_regs p)(fd \<mapsto> (bit f 0, bit f 1, c))"
    using map_of_zip_update [of "map fst (wp_entries p)" "map2 ?g (wp_entries p) (wp_pfds p)" j "(bit f 0, bit f 1, c)"]
      i [of j "wp_entries p" c] j jl assms wsa_inv_length [OF assms] by (simp add: wsa_regs_def wsa_modify_def wsa_inv_def)
qed

lemma wsa_remove_ok:
  assumes "wsa_inv p"
  shows "wsa_inv (wsa_remove fd p)" "wsa_regs (wsa_remove fd p) = (wsa_regs p)(fd := None)"
proof -
  have e: "map g (take i xs @ drop (Suc i) xs) = take i (map g xs) @ drop (Suc i) (map g xs)" for g i xs by (simp add: take_map drop_map)
  show "wsa_inv (wsa_remove fd p)"
    using assms by (simp add: wsa_remove_def wsa_inv_def e distinct_erase del: map_append distinct_append split: option.split)
  show "wsa_regs (wsa_remove fd p) = (wsa_regs p)(fd := None)"
  proof (cases "wsa_find fd (wp_entries p)")
    case None
    then show ?thesis using wsa_regs_None [OF assms, of fd] by (simp add: wsa_remove_def fun_upd_idem)
  next
    case (Some j)
    note jl = wsa_find_Some [OF Some] and len = wsa_inv_length [OF assms]
    have z: "zip (take j xs @ drop (Suc j) xs) (take j ys @ drop (Suc j) ys) = take j (zip xs ys) @ drop (Suc j) (zip xs ys)"
      if "length xs = length ys" for xs :: "'x list" and ys :: "'y list" using that by (simp add: take_zip drop_zip zip_append)
    let ?ks = "map fst (wp_entries p)" and ?vs = "map2 (\<lambda>e m. (bit (snd m) 8, bit (snd m) 4, snd e)) (wp_entries p) (wp_pfds p)"
    have "wsa_regs (wsa_remove fd p) = map_of (zip (take j ?ks @ drop (Suc j) ?ks) (take j ?vs @ drop (Suc j) ?vs))"
      unfolding wsa_regs_def e [symmetric] z [OF len [symmetric], symmetric] using Some by (simp add: wsa_remove_def)
    also have "\<dots> = (wsa_regs p)(?ks ! j := None)"
      unfolding wsa_regs_def by (rule map_of_zip_erase) (use assms jl len in \<open>simp_all add: wsa_inv_def\<close>)
    finally show ?thesis using jl by simp
  qed
qed

lemma wsa_collect_take:
  "length rs = length es \<Longrightarrow>
     wsa_collect cap es rs = take cap (map (\<lambda>(e, r). \<lparr>pe_ctx = snd e, pe_flags = from_wsapoll r\<rparr>) (filter (\<lambda>(e, r). r \<noteq> 0) (zip es rs)))"
  by (induction cap es rs rule: wsa_collect.induct) (auto simp: take_Cons')

lemma wsa_wait_sound:
  assumes "wsa_inv p" "wsa_reports p r" "ev \<in> set (wsa_wait cap r p)"
  shows "\<exists>fd rd wr. wsa_regs p fd = Some (rd, wr, pe_ctx ev) \<and> (bit (pe_flags ev) 0 \<longrightarrow> rd) \<and> (bit (pe_flags ev) 1 \<longrightarrow> wr)"
proof -
  have len: "length (snd r) = length (wp_entries p)" using assms(2) wsa_inv_length [OF assms(1)] by (auto simp: wsa_reports_def dest: list_all2_lengthD)
  then obtain e b where e: "(e, b) \<in> set (zip (wp_entries p) (snd r))" "ev = \<lparr>pe_ctx = snd e, pe_flags = from_wsapoll b\<rparr>"
    using assms(3) by (auto simp: wsa_wait_def wsa_collect_take split: if_splits dest!: in_set_takeD)
  then obtain i where i: "i < length (wp_entries p)" "wp_entries p ! i = e" "snd r ! i = b" by (auto simp: set_zip)
  let ?m = "snd (wp_pfds p ! i)"
  have "b AND NOT (?m OR POLLERR OR POLLHUP OR POLLNVAL) = 0"
    using assms(2) i wsa_inv_length [OF assms(1)] by (auto simp: wsa_reports_def list_all2_conv_all_nth)
  from bit_subset [OF this] have "bit b 8 \<Longrightarrow> bit ?m 8" "bit b 4 \<Longrightarrow> bit ?m 4"
    by (fastforce simp: bit_or_iff POLLERR_def POLLHUP_def POLLNVAL_def)+
  then show ?thesis using wsa_regs_nth [OF assms(1) i(1)] i(2) e(2) by (intro exI [of _ "fst e"]) (simp add: bit_from_wsapoll)
qed

lemma wsa_collect_cap: "length (wsa_collect cap es rs) \<le> cap"
  by (induction cap es rs rule: wsa_collect.induct) auto

lemma wsa_empty: "wsa_inv WSAPollPoller" "wsa_regs WSAPollPoller = Map.empty"
  by (simp_all add: WSAPollPoller_def wsa_inv_def wsa_regs_def)

lemma wsa_modify_unknown: "wsa_inv p \<Longrightarrow> wsa_regs p fd = None \<Longrightarrow> wsa_modify fd f c p = p"
  by (simp add: wsa_regs_None wsa_modify_def)

interpretation wsa: reactor_poller wsa_add wsa_modify wsa_remove WSAPollPoller wsa_wait wsa_reports wsa_regs wsa_inv
  by unfold_locales
    (fact wsa_empty wsa_add_ok wsa_modify_ok wsa_modify_unknown wsa_remove_ok wsa_wait_sound | simp add: wsa_wait_def wsa_collect_cap)+

text \<open>When more sockets are ready than the caller has room for, the ones that were added first are served.\<close>

lemma wsa_wait_serves_first:
  assumes "wsa_inv p" "wsa_reports p r"
  shows "wsa_wait cap r p
     = take cap (map (\<lambda>(e, b). \<lparr>pe_ctx = snd e, pe_flags = from_wsapoll b\<rparr>) (filter (\<lambda>(e, b). b \<noteq> 0) (zip (wp_entries p) (snd r))))"
proof -
  have len: "length (snd r) = length (wp_entries p)" "length (wp_pfds p) = length (wp_entries p)"
    using assms wsa_inv_length [OF assms(1)] by (auto simp: wsa_reports_def dest: list_all2_lengthD)
  have "filter (\<lambda>(e, b). b \<noteq> 0) (zip es rs) = []" if "filter (\<lambda>b. b \<noteq> 0) rs = []" for es :: "(int \<times> 'a) list" and rs :: "u16 list"
    using that by (auto simp: filter_empty_conv dest: set_zip_rightD)
  then show ?thesis using len assms(2) by (auto simp: wsa_wait_def wsa_reports_def wsa_collect_take)
qed

section \<open>Properties\<close>

text \<open>C17. The poller follows the connection table, on both platforms. In every state the broker reaches, the calls it has made
  have registered exactly its two own sockets and its live connections, with the interest the reactor keeps for them; and
  whatever the operating system reports within its contract, every event that \<^verbatim>\<open>wait\<close> returns is for one of the broker's
  own sockets or for a connection that is alive, and is a reading event only when reading is not suspended. The
  broker's own sockets stay open, so no connection has their numbers.\<close>

theorem poller_reports_live_connections:
  assumes "broker_reach br" "nfd \<noteq> lfd" "\<forall>c \<in> set (br_calls br). call_fd c \<noteq> nfd \<and> call_fd c \<noteq> lfd"
    and "s = broker_poller epoll_add epoll_modify epoll_remove nfd lfd (br_calls br) Map.empty"
    and "p = broker_poller wsa_add wsa_modify wsa_remove nfd lfd (br_calls br) WSAPollPoller"
  shows "epoll_regs s = registered nfd lfd (br_poller br) \<and> wsa_regs p = registered nfd lfd (br_poller br)
     \<and> (\<forall>os cap ev. epoll_reports s os \<and> ev \<in> set (epoll_poller_wait cap os s) \<longrightarrow> event_is_live br ev)
     \<and> (\<forall>os cap ev. wsa_reports p os \<and> ev \<in> set (wsa_wait cap os p) \<longrightarrow> event_is_live br ev)"
proof -
  have inv: "broker_inv br" using assms(1) by (rule reach_inv)
  show ?thesis unfolding assms(4,5)
    using epoll.broker_poller_registers [OF broker_inv_replay [OF inv] assms(2,3)] wsa.broker_poller_registers [OF broker_inv_replay [OF inv] assms(2,3)]
      epoll.events_live [OF inv assms(2,3)] wsa.events_live [OF inv assms(2,3)] by blast
qed

theorem poller_reports_live_connections_witness:
  "\<exists>br :: unit broker. broker_reach br
     \<and> wsa_regs (broker_poller wsa_add wsa_modify wsa_remove 7 8 (br_calls br) WSAPollPoller) 4 = Some (True, False, ConnAt 0)
     \<and> event_is_live br \<lparr>pe_ctx = ConnAt 0, pe_flags = PF_READ\<rparr>"
proof -
  obtain br :: "unit broker" where br: "broker_reach br" "br_calls br = [CallAdd 4 (True, False, 0)]" "br_poller br = [4 \<mapsto> (True, False, 0)]"
    by (rule example_accepting)
  let ?p = "broker_poller wsa_add wsa_modify wsa_remove 7 8 (br_calls br) WSAPollPoller"
  have fds: "(7 :: int) \<noteq> 8" "\<forall>c \<in> set (br_calls br). call_fd c \<noteq> 7 \<and> call_fd c \<noteq> 8" by (simp_all add: br(2))
  note live = poller_reports_live_connections [OF br(1) fds refl refl]
  have f: "flags_of (True, False, 0) = PF_READ" "to_wsapoll PF_READ = POLLRDNORM" "from_wsapoll POLLRDNORM = PF_READ" "POLLRDNORM \<noteq> 0"
    by (simp_all add: flags_of_def to_wsapoll_def from_wsapoll_def poll_bits)
  have p: "wp_pfds ?p = [(7, POLLRDNORM), (8, POLLRDNORM), (4, POLLRDNORM)]"
    "wp_entries ?p = [(7, NotifySentinel), (8, AcceptorSentinel), (4, ConnAt 0)]"
    by (simp_all add: br(2) broker_poller_def wsa_add_def WSAPollPoller_def f)
  have "wsa_reports ?p (1, [0, 0, POLLRDNORM])" by (simp add: wsa_reports_def p poll_bits)
  moreover have "\<lparr>pe_ctx = ConnAt 0, pe_flags = PF_READ\<rparr> \<in> set (wsa_wait 64 (1, [0, 0, POLLRDNORM]) ?p)"
    by (simp add: wsa_wait_def p f)
  ultimately have "event_is_live br \<lparr>pe_ctx = ConnAt 0, pe_flags = PF_READ\<rparr>" using live by blast
  moreover have "wsa_regs ?p 4 = Some (True, False, ConnAt 0)" using live by (simp add: registered_def br(3))
  ultimately show ?thesis using br(1) by blast
qed

end
