(* ===== verification/Fell_Sockets.thy ===== *)
theory Fell_Sockets
  imports Fell_Prelude "HOL-Library.State_Monad"
begin

text \<open>
  \<^verbatim>\<open>platform/socket_posix.cpp\<close> and \<^verbatim>\<open>platform/socket_win.cpp\<close>. A function is a computation in the state monad: the state
  holds the results that the coming system calls will have, and the trace of the calls made so far with their results. When the
  results are used up, calls fail. A \<^verbatim>\<open>std::runtime_error\<close> is a fault. An invalid socket is \<open>-1\<close> on both
  platforms (on Windows, \<^verbatim>\<open>INVALID_SOCKET\<close> is the largest value of its unsigned type). The lemmas follow the descriptors
  that a function owns along its trace.
\<close>

section \<open>Definitions\<close>

subsection \<open>System calls\<close>

datatype os_call =
    Socket
  | SetReuseAddr int
  | SetNodelay int
  | Bind int u32 u16            \<comment> \<open>address and port\<close>
  | Listen int nat
  | GetFlags int                \<comment> \<open>\<^verbatim>\<open>fcntl F_GETFL\<close>\<close>
  | SetFlags int int            \<comment> \<open>\<^verbatim>\<open>fcntl F_SETFL\<close>\<close>
  | IoctlNonblock int           \<comment> \<open>\<^verbatim>\<open>ioctlsocket FIONBIO\<close>\<close>
  | CloseSock int
  | AcceptSock int
  | InetPton string
  | GetAddrInfo string
  | FreeAddrInfo
  | Connect int u32 u16
  | Pipe
  | GetSockName int
  | WsaStartup
  | WsaCleanup

text \<open>The returned value, and what the call writes through its pointers: the two ends of a pipe, or an address and a port.\<close>

record os_result =
  os_ret :: int
  os_out :: int
  os_out2 :: int

type_synonym trace = "(os_call \<times> os_result) list"
type_synonym net = "os_result list \<times> trace"

definition call_failed :: os_result where
  "call_failed = \<lparr>os_ret = -1, os_out = 0, os_out2 = 0\<rparr>"

definition next_result :: "os_result list \<Rightarrow> os_result" where
  "next_result rs = (case rs of [] \<Rightarrow> call_failed | r # _ \<Rightarrow> r)"

definition sys :: "os_call \<Rightarrow> (net, os_result) state" where
  "sys c = State (\<lambda>(rs, tr). (next_result rs, (tl rs, tr @ [(c, next_result rs)])))"

definition INVALID_SOCKET :: int where "INVALID_SOCKET = -1"
definition INADDR_ANY :: u32 where "INADDR_ANY = 0"
definition INADDR_LOOPBACK :: u32 where "INADDR_LOOPBACK = 0x7F000001"
definition O_NONBLOCK :: int where "O_NONBLOCK = 2048"

text \<open>The conversion to a 32 bit \<^verbatim>\<open>int\<close>.\<close>

definition to_int :: "int \<Rightarrow> int" where
  "to_int x = signed_take_bit 31 x"

subsection \<open>platform/socket\_posix.cpp\<close>

definition set_nonblocking :: "int \<Rightarrow> (net, fault + unit) state" where
  "set_nonblocking fd = do {
     flags \<leftarrow> sys (GetFlags fd);
     if os_ret flags = -1 then State_Monad.return (Inl IoError)
     else do {
       r \<leftarrow> sys (SetFlags fd (os_ret flags OR O_NONBLOCK));
       State_Monad.return (if os_ret r = -1 then Inl IoError else Inr ())
     }
   }"

definition close_socket :: "int \<Rightarrow> (net, int) state" where
  "close_socket fd = do { r \<leftarrow> sys (CloseSock fd); State_Monad.return (os_ret r) }"

text \<open>The error path that several functions share: close, then throw.\<close>

definition close_and_throw :: "int list \<Rightarrow> (net, fault + 'a) state" where
  "close_and_throw fds = fold (\<lambda>fd m. do { _ \<leftarrow> close_socket fd; m }) (rev fds) (State_Monad.return (Inl IoError))"

definition create_listen_socket :: "u16 \<Rightarrow> (net, fault + int) state" where
  "create_listen_socket port = do {
     s \<leftarrow> sys Socket;
     if os_ret s < 0 then State_Monad.return (Inl IoError)
     else do {
       _ \<leftarrow> sys (SetReuseAddr (os_ret s));
       b \<leftarrow> sys (Bind (os_ret s) INADDR_ANY port);
       if os_ret b < 0 then close_and_throw [os_ret s]
       else do {
         l \<leftarrow> sys (Listen (os_ret s) 128);
         if os_ret l < 0 then close_and_throw [os_ret s]
         else do {
           nb \<leftarrow> set_nonblocking (os_ret s);
           State_Monad.return (map_sum id (\<lambda>_. os_ret s) nb)
         }
       }
     }
   }"

text \<open>\<^verbatim>\<open>EWOULDBLOCK\<close> is another name of \<^verbatim>\<open>EAGAIN\<close>.\<close>

definition EAGAIN :: int where "EAGAIN = 11"
definition EWOULDBLOCK :: int where "EWOULDBLOCK = EAGAIN"

definition would_block :: "int \<Rightarrow> bool" where
  "would_block errno = (errno = EAGAIN \<or> errno = EWOULDBLOCK)"

definition accept_connection :: "int \<Rightarrow> (net, int) state" where
  "accept_connection listen_fd = do { r \<leftarrow> sys (AcceptSock listen_fd); State_Monad.return (os_ret r) }"

definition set_tcp_nodelay :: "int \<Rightarrow> (net, unit) state" where
  "set_tcp_nodelay fd = do { _ \<leftarrow> sys (SetNodelay fd); State_Monad.return () }"

text \<open>The address of the host: a literal, or looked up.\<close>

definition resolve :: "string \<Rightarrow> (net, u32 option) state" where
  "resolve host = do {
     a \<leftarrow> sys (InetPton host);
     if os_ret a \<le> 0
     then do {
       g \<leftarrow> sys (GetAddrInfo host);
       if os_ret g = 0 then do { _ \<leftarrow> sys FreeAddrInfo; State_Monad.return (Some (of_int (os_out g))) }
       else State_Monad.return None
     }
     else State_Monad.return (Some (of_int (os_out a)))
   }"

definition connect_socket :: "string \<Rightarrow> u16 \<Rightarrow> (net, int) state" where
  "connect_socket host port = do {
     s \<leftarrow> sys Socket;
     if os_ret s < 0 then State_Monad.return INVALID_SOCKET
     else do {
       addr \<leftarrow> resolve host;
       case addr of
         None \<Rightarrow> do { _ \<leftarrow> close_socket (os_ret s); State_Monad.return INVALID_SOCKET }
       | Some a \<Rightarrow> do {
           c \<leftarrow> sys (Connect (os_ret s) a port);
           if os_ret c < 0 then do { _ \<leftarrow> close_socket (os_ret s); State_Monad.return INVALID_SOCKET }
           else do { _ \<leftarrow> set_tcp_nodelay (os_ret s); State_Monad.return (os_ret s) }
         }
     }
   }"

text \<open>\<^verbatim>\<open>send\<close> and \<^verbatim>\<open>recv\<close> are functions from the length to the result, a 64 bit value that is returned as an \<^verbatim>\<open>int\<close>.\<close>

definition send_data :: "(nat \<Rightarrow> int) \<Rightarrow> nat \<Rightarrow> int" where
  "send_data send len = to_int (send len)"

definition recv_data :: "(nat \<Rightarrow> int) \<Rightarrow> nat \<Rightarrow> int" where
  "recv_data recv len = to_int (recv len)"

definition create_notify_pair :: "(net, fault + int \<times> int) state" where
  "create_notify_pair = do {
     p \<leftarrow> sys Pipe;
     if os_ret p = -1 then State_Monad.return (Inl IoError)
     else do {
       n0 \<leftarrow> set_nonblocking (os_out p);
       case n0 of
         Inl e \<Rightarrow> State_Monad.return (Inl e)
       | Inr _ \<Rightarrow> do {
           n1 \<leftarrow> set_nonblocking (os_out2 p);
           State_Monad.return (map_sum id (\<lambda>_. (os_out p, os_out2 p)) n1)
         }
     }
   }"

text \<open>What \<^verbatim>\<open>Acceptor::accept_all\<close> does to the sockets: it accepts until there is none left, and makes each one non-blocking. The
  first argument bounds the number of rounds; \<open>None\<close> means that it was reached.\<close>

fun accept_loop :: "nat \<Rightarrow> int \<Rightarrow> (net, (fault + int list) option) state" where
  "accept_loop 0 listen_fd = State_Monad.return None"
| "accept_loop (Suc n) listen_fd = do {
     fd \<leftarrow> accept_connection listen_fd;
     if fd = INVALID_SOCKET then State_Monad.return (Some (Inr []))
     else do {
       nb \<leftarrow> set_nonblocking fd;
       case nb of
         Inl e \<Rightarrow> State_Monad.return (Some (Inl e))
       | Inr _ \<Rightarrow> do {
           _ \<leftarrow> set_tcp_nodelay fd;
           r \<leftarrow> accept_loop n listen_fd;
           State_Monad.return (map_option (map_sum id ((#) fd)) r)
         }
     }
   }"

subsection \<open>platform/socket\_win.cpp\<close>

definition platform_net_init_win :: "(net, fault + unit) state" where
  "platform_net_init_win = do { r \<leftarrow> sys WsaStartup; State_Monad.return (if os_ret r \<noteq> 0 then Inl IoError else Inr ()) }"

definition platform_net_cleanup_win :: "(net, unit) state" where
  "platform_net_cleanup_win = do { _ \<leftarrow> sys WsaCleanup; State_Monad.return () }"

definition set_nonblocking_win :: "int \<Rightarrow> (net, fault + unit) state" where
  "set_nonblocking_win fd = do {
     r \<leftarrow> sys (IoctlNonblock fd);
     State_Monad.return (if os_ret r \<noteq> 0 then Inl IoError else Inr ())
   }"

definition create_listen_socket_win :: "u16 \<Rightarrow> (net, fault + int) state" where
  "create_listen_socket_win port = do {
     s \<leftarrow> sys Socket;
     if os_ret s = INVALID_SOCKET then State_Monad.return (Inl IoError)
     else do {
       _ \<leftarrow> sys (SetReuseAddr (os_ret s));
       b \<leftarrow> sys (Bind (os_ret s) INADDR_ANY port);
       if os_ret b = -1 then close_and_throw [os_ret s]
       else do {
         l \<leftarrow> sys (Listen (os_ret s) 128);
         if os_ret l = -1 then close_and_throw [os_ret s]
         else do {
           nb \<leftarrow> set_nonblocking_win (os_ret s);
           State_Monad.return (map_sum id (\<lambda>_. os_ret s) nb)
         }
       }
     }
   }"

text \<open>\<^verbatim>\<open>WSAEWOULDBLOCK\<close>.\<close>

definition would_block_win :: "int \<Rightarrow> bool" where
  "would_block_win err = (err = 10035)"

definition accept_connection_win :: "int \<Rightarrow> (net, int) state" where
  "accept_connection_win listen_fd = do {
     r \<leftarrow> sys (AcceptSock listen_fd);
     State_Monad.return (if os_ret r = INVALID_SOCKET then INVALID_SOCKET else os_ret r)
   }"

text \<open>The socket is returned as an \<^verbatim>\<open>int\<close>.\<close>

definition connect_socket_win :: "string \<Rightarrow> u16 \<Rightarrow> (net, int) state" where
  "connect_socket_win host port = do {
     s \<leftarrow> sys Socket;
     if os_ret s = INVALID_SOCKET then State_Monad.return INVALID_SOCKET
     else do {
       addr \<leftarrow> resolve host;
       case addr of
         None \<Rightarrow> do { _ \<leftarrow> close_socket (os_ret s); State_Monad.return INVALID_SOCKET }
       | Some a \<Rightarrow> do {
           c \<leftarrow> sys (Connect (os_ret s) a port);
           if os_ret c = -1 then do { _ \<leftarrow> close_socket (os_ret s); State_Monad.return INVALID_SOCKET }
           else do { _ \<leftarrow> set_tcp_nodelay (to_int (os_ret s)); State_Monad.return (to_int (os_ret s)) }
         }
     }
   }"

text \<open>Here the length is converted.\<close>

definition send_data_win :: "(int \<Rightarrow> int) \<Rightarrow> nat \<Rightarrow> int" where
  "send_data_win send len = send (to_int (int len))"

definition recv_data_win :: "(int \<Rightarrow> int) \<Rightarrow> nat \<Rightarrow> int" where
  "recv_data_win recv len = recv (to_int (int len))"

text \<open>After the listener is closed: both ends are made non-blocking, then \<^verbatim>\<open>TCP_NODELAY\<close> is set on them.\<close>

definition finish_notify_pair :: "int \<Rightarrow> int \<Rightarrow> (net, fault + int \<times> int) state" where
  "finish_notify_pair client server = do {
     n0 \<leftarrow> set_nonblocking_win client;
     case n0 of
       Inl e \<Rightarrow> State_Monad.return (Inl e)
     | Inr _ \<Rightarrow> do {
         n1 \<leftarrow> set_nonblocking_win server;
         case n1 of
           Inl e \<Rightarrow> State_Monad.return (Inl e)
         | Inr _ \<Rightarrow> do {
             _ \<leftarrow> set_tcp_nodelay client;
             _ \<leftarrow> set_tcp_nodelay server;
             State_Monad.return (Inr (server, client))
           }
       }
   }"

text \<open>The second half: the listener is bound, and its address known.\<close>

definition connect_notify_pair :: "int \<Rightarrow> u32 \<Rightarrow> u16 \<Rightarrow> (net, fault + int \<times> int) state" where
  "connect_notify_pair listener addr port = do {
     c \<leftarrow> sys Socket;
     if os_ret c = INVALID_SOCKET then close_and_throw [listener]
     else do {
       k \<leftarrow> sys (Connect (os_ret c) addr port);
       if os_ret k = -1 then close_and_throw [listener, os_ret c]
       else do {
         s \<leftarrow> sys (AcceptSock listener);
         if os_ret s = INVALID_SOCKET then close_and_throw [listener, os_ret c]
         else do {
           _ \<leftarrow> close_socket listener;
           finish_notify_pair (os_ret c) (os_ret s)
         }
       }
     }
   }"

definition create_notify_pair_win :: "(net, fault + int \<times> int) state" where
  "create_notify_pair_win = do {
     l \<leftarrow> sys Socket;
     if os_ret l = INVALID_SOCKET then State_Monad.return (Inl IoError)
     else do {
       b \<leftarrow> sys (Bind (os_ret l) INADDR_LOOPBACK 0);
       if os_ret b = -1 then close_and_throw [os_ret l]
       else do {
         n \<leftarrow> sys (Listen (os_ret l) 1);
         if os_ret n = -1 then close_and_throw [os_ret l]
         else do {
           g \<leftarrow> sys (GetSockName (os_ret l));
           if os_ret g = -1 then close_and_throw [os_ret l]
           else connect_notify_pair (os_ret l) (of_int (os_out g)) (of_int (os_out2 g))
         }
       }
     }
   }"

section \<open>Descriptors\<close>

text \<open>The descriptors that are open after the calls of a trace.\<close>

fun own_step :: "os_call \<times> os_result \<Rightarrow> int multiset \<Rightarrow> int multiset" where
  "own_step (Socket, r) M = (if os_ret r = -1 then M else add_mset (os_ret r) M)"
| "own_step (AcceptSock l, r) M = (if os_ret r = -1 then M else add_mset (os_ret r) M)"
| "own_step (Pipe, r) M = (if os_ret r = -1 then M else add_mset (os_out r) (add_mset (os_out2 r) M))"
| "own_step (CloseSock fd, r) M = M - {#fd#}"
| "own_step _ M = M"

definition owned :: "trace \<Rightarrow> int multiset" where
  "owned tr = fold own_step tr {#}"

lemma owned_simps [simp]: "owned [] = {#}" "owned (x # tr) = fold own_step tr (own_step x {#})" "owned (tr @ tr') = fold own_step tr' (owned tr)"
  by (simp_all add: owned_def)

lemma run_simps [simp]:
  "run_state (sys c) (rs, tr) = (next_result rs, (tl rs, tr @ [(c, next_result rs)]))"
  "run_state (State_Monad.bind m f) st = (case run_state m st of (a, st') \<Rightarrow> run_state (f a) st')"
  "run_state (State_Monad.return a) st = (a, st)"
  by (simp_all add: sys_def State_Monad.bind_def State_Monad.return_def)

text \<open>A descriptor-valued result that is not \<open>-1\<close> is not negative.\<close>

definition sound_results :: "os_result list \<Rightarrow> bool" where
  "sound_results rs \<longleftrightarrow> (\<forall>r \<in> set rs. -1 \<le> os_ret r)"

lemma next_result_sound: "sound_results rs \<Longrightarrow> -1 \<le> os_ret (next_result rs) \<and> sound_results (tl rs)"
  by (cases rs) (auto simp: sound_results_def next_result_def call_failed_def)

text \<open>The last call of the trace was a failing attempt to make a socket non-blocking.\<close>

fun nonblock_failure :: "os_call \<times> os_result \<Rightarrow> bool" where
  "nonblock_failure (GetFlags fd, r) = (os_ret r = -1)"
| "nonblock_failure (SetFlags fd f, r) = (os_ret r = -1)"
| "nonblock_failure (IoctlNonblock fd, r) = (os_ret r \<noteq> 0)"
| "nonblock_failure _ = False"

definition nonblock_failed :: "trace \<Rightarrow> bool" where
  "nonblock_failed tr = (tr \<noteq> [] \<and> nonblock_failure (last tr))"

lemmas sock_defs = create_listen_socket_def create_listen_socket_win_def set_nonblocking_def set_nonblocking_win_def close_and_throw_def
  close_socket_def resolve_def connect_socket_def connect_socket_win_def set_tcp_nodelay_def create_notify_pair_def
  create_notify_pair_win_def connect_notify_pair_def finish_notify_pair_def INVALID_SOCKET_def nonblock_failed_def

text \<open>What a function leaves open: what it returns, and nothing when it fails.\<close>

definition owns_result :: "('a \<Rightarrow> int multiset) \<Rightarrow> (fault + 'a) \<times> net \<Rightarrow> bool" where
  "owns_result fds run =
     (case run of (Inr a, _, tr) \<Rightarrow> owned tr = fds a | (Inl _, _, tr) \<Rightarrow> owned tr = {#} \<or> nonblock_failed tr)"

lemma listen_owned:
  assumes "sound_results rs"
  shows "owns_result (\<lambda>s. {#s#}) (run_state (create_listen_socket port) (rs, []))"
    "owns_result (\<lambda>s. {#s#}) (run_state (create_listen_socket_win port) (rs, []))"
proof -
  have "\<not> os_ret (next_result rs) < 0 \<longleftrightarrow> os_ret (next_result rs) \<noteq> -1" using next_result_sound [OF assms] by auto
  then show "owns_result (\<lambda>s. {#s#}) (run_state (create_listen_socket port) (rs, []))"
    "owns_result (\<lambda>s. {#s#}) (run_state (create_listen_socket_win port) (rs, []))"
    by (auto simp: owns_result_def sock_defs split: prod.splits sum.splits)
qed

lemma notify_pair_owned:
  "owns_result (\<lambda>(r, w). {#r, w#}) (run_state create_notify_pair (rs, []))"
  "owns_result (\<lambda>(r, w). {#r, w#}) (run_state create_notify_pair_win (rs, []))"
  by (auto simp: owns_result_def sock_defs split: prod.splits sum.splits)

lemma to_int_id: "-1 \<le> x \<Longrightarrow> x < 2 ^ 31 \<Longrightarrow> to_int x = x"
  by (simp add: to_int_def signed_take_bit_int_eq_self)

lemma connect_owned:
  assumes "sound_results rs" "run_state (connect_socket host port) (rs, []) = (s, rs', tr)"
  shows "owned tr = (if s = INVALID_SOCKET then {#} else {#s#})"
proof -
  have "os_ret (next_result rs) < 0 \<longleftrightarrow> os_ret (next_result rs) = -1" using next_result_sound [OF assms(1)] by auto
  then show ?thesis using assms(2) by (auto simp: sock_defs split: if_splits option.splits)
qed

lemma connect_win_owned:
  assumes "run_state (connect_socket_win host port) (rs, []) = (s, rs', tr)"
    and "os_ret (next_result rs) < 2 ^ 31" "sound_results rs"
  shows "owned tr = (if s = INVALID_SOCKET then {#} else {#s#})"
proof -
  have "to_int (os_ret (next_result rs)) = os_ret (next_result rs)" using next_result_sound [OF assms(3)] assms(2) by (simp add: to_int_id)
  then show ?thesis using assms(1) by (auto simp: sock_defs split: if_splits option.splits)
qed

text \<open>The calls of a successful run, in their order: the address can be reused before it is bound, and the socket is
  non-blocking before it is returned.\<close>

lemma listen_success_calls:
  assumes "run_state (create_listen_socket port) (rs, []) = (Inr s, rs', tr)"
  shows "\<exists>f. map fst tr = [Socket, SetReuseAddr s, Bind s INADDR_ANY port, Listen s 128, GetFlags s, SetFlags s (f OR O_NONBLOCK)]"
  using assms by (auto simp: sock_defs split: if_splits)

lemma send_data_id:
  assumes "-1 \<le> send len" "send len < 2 ^ 31" "len < 2 ^ 31"
  shows "send_data send len = send len" "send_data_win (\<lambda>n. send (nat n)) len = send len"
  using assms by (simp_all add: send_data_def send_data_win_def to_int_id)

text \<open>The accepting loop ends, since \<^verbatim>\<open>accept\<close> fails in the end, and the accepted sockets are those it owns.\<close>

lemma accept_loop_ends:
  "length rs < n \<Longrightarrow> run_state (accept_loop n l) (rs, tr) = (r, rs', tr') \<Longrightarrow>
     \<exists>res. r = Some res \<and> (case res of Inr fds \<Rightarrow> owned tr' = owned tr + mset fds | Inl _ \<Rightarrow> nonblock_failed tr')"
proof (induction n arbitrary: rs tr r rs' tr')
  case (Suc n)
  let ?fd = "os_ret (next_result rs)"
  show ?case
  proof (cases "?fd = -1")
    case True then show ?thesis using Suc.prems by (auto simp: accept_connection_def INVALID_SOCKET_def)
  next
    case False
    then have len: "length (tl rs) < length rs" by (cases rs) (simp_all add: next_result_def call_failed_def)
    obtain nb rs1 tr1 where nb: "run_state (set_nonblocking ?fd) (tl rs, tr @ [(AcceptSock l, next_result rs)]) = (nb, rs1, tr1)"
      by (metis prod.collapse)
    then have tr1: "owned tr1 = add_mset ?fd (owned tr)" "length rs1 \<le> length (tl rs)" "nb = Inl e \<Longrightarrow> nonblock_failed tr1" for e
      using False by (auto simp: sock_defs split: if_splits)
    show ?thesis
    proof (cases nb)
      case (Inl e) then show ?thesis using Suc.prems nb tr1(3) False by (auto simp: accept_connection_def INVALID_SOCKET_def)
    next
      case (Inr u)
      obtain q rs2 tr2 where q: "run_state (accept_loop n l) (tl rs1, tr1 @ [(SetNodelay ?fd, next_result rs1)]) = (q, rs2, tr2)"
        by (metis prod.collapse)
      have "length (tl rs1) < n" using Suc.prems(1) len tr1(2) by simp
      from Suc.IH [OF this q] obtain res where res: "q = Some res"
        "case res of Inr fds \<Rightarrow> owned tr2 = owned (tr1 @ [(SetNodelay ?fd, next_result rs1)]) + mset fds | Inl _ \<Rightarrow> nonblock_failed tr2" by blast
      have "r = Some (map_sum id ((#) ?fd) res)" "tr' = tr2"
        using Suc.prems nb q Inr False res(1) by (auto simp: accept_connection_def INVALID_SOCKET_def set_tcp_nodelay_def)
      with res(2) tr1(1) show ?thesis by (cases res) auto
    qed
  qed
qed simp

section \<open>Properties\<close>

text \<open>C32. No socket is left behind. Whatever the system calls return, a function that creates sockets leaves open exactly the ones it
  returns, and none when it fails; the one exception is a failure to make a socket non-blocking, which throws past the code
  that would close it. The loop that accepts connections ends, and hands over every socket that it has accepted.\<close>

theorem sockets_closed_on_failure:
  assumes "sound_results rs"
  shows "owns_result (\<lambda>s. {#s#}) (run_state (create_listen_socket port) (rs, []))
     \<and> owns_result (\<lambda>s. {#s#}) (run_state (create_listen_socket_win port) (rs, []))
     \<and> owns_result (\<lambda>(r, w). {#r, w#}) (run_state create_notify_pair (rs, []))
     \<and> owns_result (\<lambda>(r, w). {#r, w#}) (run_state create_notify_pair_win (rs, []))
     \<and> (case run_state (connect_socket host port) (rs, []) of (s, _, tr) \<Rightarrow> owned tr = (if s = INVALID_SOCKET then {#} else {#s#}))
     \<and> (case run_state (accept_loop (Suc (length rs)) l) (rs, []) of
          (Some (Inr fds), _, tr) \<Rightarrow> owned tr = mset fds | (Some (Inl _), _, tr) \<Rightarrow> nonblock_failed tr | (None, _) \<Rightarrow> False)"
proof -
  obtain s rs1 tr1 where s: "run_state (connect_socket host port) (rs, []) = (s, rs1, tr1)" by (metis prod.collapse)
  obtain r rs2 tr2 where r: "run_state (accept_loop (Suc (length rs)) l) (rs, []) = (r, rs2, tr2)" by (metis prod.collapse)
  obtain res where "r = Some res" "case res of Inr fds \<Rightarrow> owned tr2 = mset fds | Inl _ \<Rightarrow> nonblock_failed tr2"
    using accept_loop_ends [OF lessI r] by (auto cong: sum.case_cong)
  then show ?thesis unfolding s r using listen_owned [OF assms] notify_pair_owned connect_owned [OF assms s] by (cases res) simp_all
qed

theorem sockets_closed_on_failure_witness:
  "owns_result (\<lambda>s. {#s#}) (run_state (create_listen_socket 7700) ([\<lparr>os_ret = 3, os_out = 0, os_out2 = 0\<rparr>, \<lparr>os_ret = 0, os_out = 0, os_out2 = 0\<rparr>], []))
     \<and> fst (run_state (create_listen_socket 7700) ([\<lparr>os_ret = 3, os_out = 0, os_out2 = 0\<rparr>, \<lparr>os_ret = 0, os_out = 0, os_out2 = 0\<rparr>], [])) = Inl IoError"
proof -
  let ?rs = "[\<lparr>os_ret = 3, os_out = 0, os_out2 = 0\<rparr>, \<lparr>os_ret = 0, os_out = 0, os_out2 = 0\<rparr>]"
  have "sound_results ?rs" by (simp add: sound_results_def)
  from sockets_closed_on_failure [OF this, of 7700] have "owns_result (\<lambda>s. {#s#}) (run_state (create_listen_socket 7700) (?rs, []))" by blast
  moreover have "fst (run_state (create_listen_socket 7700) (?rs, [])) = Inl IoError" by (simp add: sock_defs next_result_def call_failed_def)
  ultimately show ?thesis by blast
qed

text \<open>The exceptions: a listening socket that cannot be made non-blocking stays open; and on Windows a socket whose number does not
  fit into 31 bits is returned as another one.\<close>

theorem listen_socket_leaks:
  assumes "0 \<le> s" "rs = map (\<lambda>r. \<lparr>os_ret = r, os_out = 0, os_out2 = 0\<rparr>) [s, 0, 0, 0, -1]"
  shows "\<exists>rs' tr. run_state (create_listen_socket port) (rs, []) = (Inl IoError, rs', tr) \<and> owned tr = {#s#}"
  using assms by (simp add: sock_defs next_result_def)

theorem connect_win_truncates:
  assumes "rs = map (\<lambda>r. \<lparr>os_ret = r, os_out = 0, os_out2 = 0\<rparr>) [2 ^ 32 + 5, 1, 0, 0]"
  shows "\<exists>rs' tr. run_state (connect_socket_win host port) (rs, []) = (5, rs', tr) \<and> owned tr = {#2 ^ 32 + 5#}"
  using assms by (simp add: sock_defs next_result_def to_int_def)

end
