(* ===== verification/Fell_Wakeup.thy ===== *)
theory Fell_Wakeup
  imports Fell_Replication_Properties Fell_Sockets
begin

text \<open>
  The wake-up channel of the replication client, across \<^verbatim>\<open>platform/socket_posix.cpp\<close> and
  \<^verbatim>\<open>replication/replication_client.cpp\<close>: \<^verbatim>\<open>start\<close> creates a notify pair, the commit callback queues an acknowledgement and sends
  a byte to one end, and \<^verbatim>\<open>event_loop\<close> sends the queued acknowledgements when the poller reports the other end. The steps here are
  the turns of that loop and the commits of the partition's I/O thread, in any order. The state beside the client is the number of
  bytes waiting in the channel; \<^verbatim>\<open>send\<close> and \<^verbatim>\<open>recv\<close> are parameters.
\<close>

section \<open>Definitions\<close>

text \<open>The bytes that the effects leave in the channel.\<close>

fun into_channel :: "(int \<Rightarrow> nat \<Rightarrow> int) \<Rightarrow> int option \<Rightarrow> effect \<Rightarrow> nat \<Rightarrow> nat" where
  "into_channel send wfd (SendData fd bs) n = (if wfd = Some fd then n + nat (send_data (send fd) (length bs)) else n)"
| "into_channel send wfd _ n = n"

text \<open>The I/O thread of the client's partition makes progress, and calls its callbacks.\<close>

definition partition_commits :: "io_progress \<Rightarrow> repl_client \<Rightarrow> effect list \<times> repl_client" where
  "partition_commits io rc =
     (case get_partition (rc_topic rc) (rc_partition rc) (rc_registry rc) of
        None \<Rightarrow> ([], rc)
      | Some p \<Rightarrow> (case io p of (evs, p') \<Rightarrow>
          run_callbacks evs (rc\<lparr>rc_registry := set_partition (rc_topic rc) (rc_partition rc) p' (rc_registry rc)\<rparr>)))"

text \<open>The poller reports the channel only while there are bytes in it; the loop then reads up to 64 of them.\<close>

inductive follower_step ::
  "(int \<Rightarrow> nat \<Rightarrow> int) \<Rightarrow> (nat \<Rightarrow> int) \<Rightarrow> repl_client \<times> nat \<Rightarrow> effect list \<Rightarrow> repl_client \<times> nat \<Rightarrow> bool"
  for send recv where
  turn: "client_turn cn io now evs rc = Some (Inr (es, rc')) \<Longrightarrow> (ClientNotify \<in> set evs \<Longrightarrow> 0 < n) \<Longrightarrow>
     m = (if ClientNotify \<in> set evs then n - nat (recv_data recv 64) else n) \<Longrightarrow>
     follower_step send recv (rc, n) es (rc', fold (into_channel send (rc_notify_write_fd rc)) es m)"
| commit: "partition_commits io rc = (es, rc') \<Longrightarrow>
     follower_step send recv (rc, n) es (rc', fold (into_channel send (rc_notify_write_fd rc)) es n)"

inductive follower_steps ::
  "(int \<Rightarrow> nat \<Rightarrow> int) \<Rightarrow> (nat \<Rightarrow> int) \<Rightarrow> repl_client \<times> nat \<Rightarrow> effect list \<Rightarrow> repl_client \<times> nat \<Rightarrow> bool"
  for send recv where
  stop: "follower_steps send recv s [] s"
| more: "follower_steps send recv s es s1 \<Longrightarrow> follower_step send recv s1 es' s2 \<Longrightarrow> follower_steps send recv s (es @ es') s2"

text \<open>The descriptors that a trace of system calls made with \<^verbatim>\<open>pipe\<close>.\<close>

definition pipe_ends :: "trace \<Rightarrow> int set" where
  "pipe_ends tr = {fd. \<exists>r. (Pipe, r) \<in> set tr \<and> os_ret r \<noteq> -1 \<and> (fd = os_out r \<or> fd = os_out2 r)}"

section \<open>What a turn does without a wake-up\<close>

text \<open>Acknowledgements are queued and none is sent.\<close>

definition no_ack :: "effect list \<Rightarrow> bool" where
  "no_ack es = (\<forall>fd. SendData fd [REPLICA_ACK] \<notin> set es)"

definition only_queues :: "repl_client \<Rightarrow> effect list \<Rightarrow> repl_client \<Rightarrow> bool" where
  "only_queues rc es rc' = (prefix (rc_out_acks rc) (rc_out_acks rc') \<and> no_ack es \<and> rc_notify_write_fd rc' = rc_notify_write_fd rc)"

lemma no_ack_simps [simp]:
  "no_ack []" "no_ack (es @ es') \<longleftrightarrow> no_ack es \<and> no_ack es'" "no_ack (e # es) \<longleftrightarrow> (\<forall>fd. e \<noteq> SendData fd [REPLICA_ACK]) \<and> no_ack es"
  by (auto simp: no_ack_def)

lemma only_queues_refl [intro, simp]: "only_queues rc [] rc"
  by (simp add: only_queues_def)

lemma only_queues_trans: "only_queues rc es rc1 \<Longrightarrow> only_queues rc1 es' rc2 \<Longrightarrow> only_queues rc (es @ es') rc2"
  by (auto simp: only_queues_def intro: prefix_order.trans)

text \<open>A relation that the frame handler satisfies, the two loops around it satisfy.\<close>

lemma repl_frames_related:
  assumes "repl_frames lost hnd buf s = Some (Inr (es, buf', s'))"
    and "\<And>s. R s [] s" "\<And>s es s1 es' s2. R s es s1 \<Longrightarrow> R s1 es' s2 \<Longrightarrow> R s (es @ es') s2"
    and "\<And>op av n s es b s'. hnd op av n s = Some (Inr (es, b, s')) \<Longrightarrow> R s es s'"
  shows "R s es s'"
  using assms(1)
proof (induction lost hnd\<equiv>hnd buf s arbitrary: es buf' s' rule: repl_frames.induct)
  case (1 lost buf s)
  let ?len = "be32_to_host (load32 (bytes_at 0 4 buf))"
  show ?case
  proof (cases "length buf < 5 \<or> length buf < unat (4 + ?len)")
    case True
    then show ?thesis using "1.prems" by (subst (asm) repl_frames.simps) (auto simp: Let_def assms(2) split: if_splits)
  next
    case False
    then obtain e1 s1 where h: "hnd (buf ! 4) (drop 5 buf) (unat (?len - 1)) s = Some (Inr (e1, False, s1))"
      and len: "\<not> length buf < 4 + unat ?len"
      and rest: "case repl_frames lost hnd (drop (4 + unat ?len) buf) s1 of
            None \<Rightarrow> False | Some (Inl e) \<Rightarrow> False | Some (Inr (e2, b2, s2)) \<Rightarrow> es = e1 @ e2 \<and> s' = s2"
      using "1.prems" by (subst (asm) repl_frames.simps) (auto simp: Let_def split: if_splits option.splits sum.splits)
    from rest obtain e2 b2 where r: "repl_frames lost hnd (drop (4 + unat ?len) buf) s1 = Some (Inr (e2, b2, s'))" "es = e1 @ e2"
      by (auto split: option.splits sum.splits)
    have "R s1 e2 s'" using False len by (intro "1.hyps" [OF _ refl _ h refl refl refl _ _ r(1)]) simp_all
    then show ?thesis using r(2) assms(3,4) h by blast
  qed
qed

lemma repl_recv_related:
  assumes "repl_recv lost hnd rs buf s = Some (Inr (es, res, s'))"
    and "\<And>s. R s [] s" "\<And>s es s1 es' s2. R s es s1 \<Longrightarrow> R s1 es' s2 \<Longrightarrow> R s (es @ es') s2"
    and "\<And>op av n s es b s'. hnd op av n s = Some (Inr (es, b, s')) \<Longrightarrow> R s es s'"
  shows "R s es s'"
  using assms(1)
proof (induction lost hnd\<equiv>hnd rs buf s arbitrary: es res s' rule: repl_recv.induct)
  case (1 lost d rs buf s)
  then show ?case
    by (auto split: option.splits sum.splits prod.splits intro: assms(3) repl_frames_related [where R = R, OF _ assms(2,3,4)])
qed (auto simp: assms(2))

lemma wake_no_ack [simp]: "no_ack (wake rc)"
  by (simp add: wake_def REPLICA_ACK_def split: option.split)

lemma run_callbacks_only_queues: "run_callbacks evs rc = (es, rc') \<Longrightarrow> only_queues rc es rc'"
proof (induction evs rc arbitrary: es rc' rule: run_callbacks.induct)
  case (2 hdr evs rc)
  obtain es1 where r: "run_callbacks evs (rc\<lparr>rc_out_acks := rc_out_acks rc @ [ack_of (rc_cfg rc) hdr]\<rparr>) = (es1, rc')" "es = wake rc @ es1"
    using "2.prems" by (auto split: prod.splits)
  from "2.IH" [OF r(1)] show ?case using r(2) by (auto simp: only_queues_def intro: append_prefixD)
qed simp_all

lemma disconnect_only_queues: "disconnect rc = (es, rc') \<Longrightarrow> only_queues rc es rc'"
  by (auto simp: disconnect_def only_queues_def split: option.splits)

lemma registry_only_queues: "only_queues (rc\<lparr>rc_registry := r\<rparr>) es rc' \<longleftrightarrow> only_queues rc es rc'"
  "only_queues rc es (rc'\<lparr>rc_registry := r\<rparr>) \<longleftrightarrow> only_queues rc es rc'"
  by (simp_all add: only_queues_def)

lemma struct_sends_no_ack: "op \<noteq> REPLICA_ACK \<Longrightarrow> length body \<noteq> 1 \<Longrightarrow> no_ack (struct_sends fd op body)"
  by (auto simp: struct_sends_def dest: arg_cong [where f = length])

lemma send_fetch_log_no_ack [simp]: "no_ack (send_fetch_log rc)"
proof -
  have "length (fl_topic (build_fetch_log_request rc)) \<le> 255" by (simp add: build_fetch_log_request_def)
  then have "length (encode_fetch_log_req (build_fetch_log_request rc)) = 270" by (rule fetch_log.width_enc)
  then show ?thesis by (simp add: send_fetch_log_def struct_sends_no_ack FETCH_LOG_def REPLICA_ACK_def split: option.split)
qed

lemma broadcast_no_ack: "length (le_topic le) \<le> 255 \<Longrightarrow> no_ack (broadcast_election cn peer le)"
  using election.width_enc [of le]
  by (simp add: broadcast_election_def struct_sends_no_ack LEADER_ELECTION_def REPLICA_ACK_def split: option.split)

lemma no_ack_concat: "no_ack (concat ess) \<longleftrightarrow> (\<forall>es \<in> set ess. no_ack es)"
  by (auto simp: no_ack_def)

lemma maybe_elect_only_queues: "maybe_elect_self cn rc = (es, rc') \<Longrightarrow> only_queues rc es rc'"
  by (auto simp: maybe_elect_self_def only_queues_def Let_def no_ack_concat broadcast_no_ack split: option.splits prod.splits if_splits)

lemma connect_only_queues:
  assumes "connect_to_leader cn rc = (es, rc')"
  shows "only_queues rc es rc'"
proof -
  have meta: "only_queues (rc\<lparr>rc_meta := m\<rparr>) es rc' \<longleftrightarrow> only_queues rc es rc'" for m by (simp add: only_queues_def)
  show ?thesis using assms meta
    by (auto simp: connect_to_leader_def Let_def split: option.splits prod.splits if_splits
        dest!: maybe_elect_only_queues) (auto simp: only_queues_def)
qed

lemma sync_only_queues:
  assumes "on_replica_sync io now hdr avail rc = Inr (es, b, rc')"
  shows "only_queues rc es rc'"
proof (cases "get_partition (sy_topic hdr) (sy_partition hdr) (rc_registry rc)")
  case None
  then show ?thesis using assms by (simp add: on_replica_sync_def)
next
  case (Some p0)
  obtain ios p where io: "io p0 = (ios, p)" by fastforce
  obtain e0 rc0 where c0: "run_callbacks ios (rc\<lparr>rc_registry := set_partition (sy_topic hdr) (sy_partition hdr) p (rc_registry rc)\<rparr>) = (e0, rc0)"
    by fastforce
  obtain e rd where d: "disconnect rc0 = (e, rd)" by fastforce
  obtain p1 calls where cb: "set_once_commit_callback (sy_offset hdr) hdr p = (p1, calls)" by fastforce
  obtain e1 rc1 where c1: "run_callbacks calls rc0 = (e1, rc1)" by fastforce
  obtain res p2 where ap: "store_append now (take (unat (sy_payload_size hdr)) avail) p1 = (res, p2)" by fastforce
  define rc2 where "rc2 = rc1\<lparr>rc_registry := set_partition (sy_topic hdr) (sy_partition hdr) p2 (rc_registry rc1)\<rparr>"
  obtain e2 re where d2: "disconnect rc2 = (e2, re)" by fastforce
  have q: "only_queues rc e0 rc0" "only_queues rc0 e rd" "only_queues rc0 e1 rc2" "only_queues rc2 e2 re"
    using run_callbacks_only_queues [OF c0] run_callbacks_only_queues [OF c1] disconnect_only_queues [OF d] disconnect_only_queues [OF d2]
    by (simp_all add: registry_only_queues rc2_def)
  have "(es, rc') \<in> {(e0 @ e, rd), (e0 @ e1 @ e2, re), (e0 @ e1, rc2)}"
    using assms Some io c0 d cb c1 ap d2
    by (auto simp: on_replica_sync_def Let_def rc2_def [symmetric] split: if_splits)
  then show ?thesis using q only_queues_trans [OF q(1)] only_queues_trans [OF q(3,4)] by auto
qed

lemma event_only_queues:
  assumes "client_poll_event io now ev rc = Some (Inr (es, rc'))" "ev \<noteq> ClientNotify"
  shows "only_queues rc es rc'"
proof -
  have hnd: "only_queues s e s'" if "client_handle_frame io now op av n s = Some (Inr (e, b, s'))" for op av n s e b s'
    using that by (auto simp: client_handle_frame_def split: if_splits intro: sync_only_queues)
  have "only_queues rc es rc'" if r: "client_on_readable io now rs rc = Some (Inr (es, rc'))" for rs
  proof -
    obtain e res rc1 where l: "repl_recv OutOfBounds (client_handle_frame io now) rs (rc_recv_buf rc) rc = Some (Inr (e, res, rc1))"
      using r by (auto simp: client_on_readable_def split: option.splits sum.splits)
    have q: "only_queues rc e rc1"
      by (rule repl_recv_related [where R = only_queues, OF l only_queues_refl only_queues_trans hnd])
    show ?thesis
    proof (cases res)
      case None
      then show ?thesis using r l only_queues_trans [OF q disconnect_only_queues]
        by (auto simp: client_on_readable_def split: prod.splits)
    next
      case (Some buf)
      then show ?thesis using r l q by (auto simp: client_on_readable_def only_queues_def)
    qed
  qed
  then show ?thesis using assms disconnect_only_queues by (cases ev) (auto split: if_splits)
qed

lemma events_only_queues:
  "client_events io now evs rc = Some (Inr (es, rc')) \<Longrightarrow> ClientNotify \<notin> set evs \<Longrightarrow> only_queues rc es rc'"
proof (induction evs arbitrary: rc es)
  case (Cons ev evs)
  then obtain e1 rc1 e2 where "client_poll_event io now ev rc = Some (Inr (e1, rc1))" "client_events io now evs rc1 = Some (Inr (e2, rc'))" "es = e1 @ e2"
    by (auto split: option.splits sum.splits)
  then show ?case using Cons event_only_queues only_queues_trans by (metis list.set_intros(1,2))
qed simp

lemma turn_only_queues:
  assumes "client_turn cn io now evs rc = Some (Inr (es, rc'))" "ClientNotify \<notin> set evs"
  shows "only_queues rc es rc'"
proof -
  obtain e1 rc1 e2 where "(if rc_fd rc = None then connect_to_leader cn rc else ([], rc)) = (e1, rc1)"
      "client_events io now evs rc1 = Some (Inr (e2, rc'))" "es = e1 @ e2"
    using assms(1) by (auto simp: client_turn_def split: option.splits sum.splits prod.splits)
  moreover from this(1) have "only_queues rc e1 rc1" using connect_only_queues by (auto split: if_splits)
  ultimately show ?thesis using events_only_queues assms(2) only_queues_trans by metis
qed

lemma commits_only_queues: "partition_commits io rc = (es, rc') \<Longrightarrow> only_queues rc es rc'"
  by (auto simp: partition_commits_def registry_only_queues split: option.splits prod.splits dest!: run_callbacks_only_queues)

section \<open>A channel that takes nothing\<close>

lemma into_channel_none:
  assumes "\<And>len. send wfd len = -1"
  shows "fold (into_channel send (Some wfd)) es n = n"
proof (induction es)
  case (Cons e es)
  have "send_data (send wfd) len = -1" for len by (simp add: send_data_def assms to_int_id)
  then have "into_channel send (Some wfd) e n = n" by (cases e) auto
  then show ?case using Cons by simp
qed simp

lemma mute_step:
  assumes "follower_step send recv (rc, 0) es (rc', n)" "rc_notify_write_fd rc = Some wfd" "\<And>len. send wfd len = -1"
  shows "n = 0 \<and> only_queues rc es rc'"
  using assms(1)
proof (cases rule: follower_step.cases)
  case (turn cn io now evs)
  then have "ClientNotify \<notin> set evs" by blast
  then show ?thesis using turn assms(2) into_channel_none [of send, OF assms(3)] turn_only_queues by auto
next
  case (commit io)
  then show ?thesis using assms(2) into_channel_none [of send, OF assms(3)] commits_only_queues by auto
qed

lemma mute_steps:
  assumes "follower_steps send recv s es s'" "s = (rc, 0)" "rc_notify_write_fd rc = Some wfd" "\<And>len. send wfd len = -1"
  shows "snd s' = 0 \<and> only_queues rc es (fst s')"
  using assms
proof (induction rule: follower_steps.induct)
  case (more s es s1 es' s2)
  then have q: "snd s1 = 0" "only_queues rc es (fst s1)" by simp_all
  then have "rc_notify_write_fd (fst s1) = Some wfd" using more.prems(2) by (simp add: only_queues_def)
  then have "snd s2 = 0 \<and> only_queues (fst s1) es' (fst s2)"
    using mute_step [of send recv "fst s1" es' "fst s2" "snd s2"] more.hyps(2) q(1) more.prems(3) by (metis prod.collapse)
  then show ?case using q(2) only_queues_trans by blast
qed simp

lemma notify_pair_pipe:
  assumes "run_state create_notify_pair (rs, []) = (Inr (rfd, wfd), rs', tr)"
  shows "rfd \<in> pipe_ends tr" "wfd \<in> pipe_ends tr"
proof -
  have "(Pipe, next_result rs) \<in> set tr \<and> os_ret (next_result rs) \<noteq> -1 \<and> rfd = os_out (next_result rs) \<and> wfd = os_out2 (next_result rs)"
    using assms by (auto simp: create_notify_pair_def set_nonblocking_def split: if_splits sum.splits)
  then show "rfd \<in> pipe_ends tr" "wfd \<in> pipe_ends tr" by (auto simp: pipe_ends_def)
qed

text \<open>With a pair of sockets the wake-up arrives: one commit makes the poller report the channel, and the next turn sends what is queued.\<close>

lemma socket_pair_wakes:
  assumes "get_partition (rc_topic rc) (rc_partition rc) (rc_registry rc) = Some p" "(io :: io_progress) p = ([CallOnce hdr], p')"
    and "rc_notify_write_fd rc = Some wfd" "send wfd 1 = 1" "rc_fd rc = Some fd"
  shows "\<exists>es rc1 n es' rc2 n'. follower_step send recv (rc, 0) es (rc1, n) \<and> 0 < n \<and> follower_step send recv (rc1, n) es' (rc2, n')
     \<and> SendData fd [REPLICA_ACK] \<in> set es' \<and> rc_out_acks rc2 = []"
proof -
  let ?rc1 = "rc\<lparr>rc_registry := set_partition (rc_topic rc) (rc_partition rc) p' (rc_registry rc),
      rc_out_acks := rc_out_acks rc @ [ack_of (rc_cfg rc) hdr]\<rparr>"
  have c: "partition_commits io rc = ([SendData wfd [1]], ?rc1)" using assms by (simp add: partition_commits_def wake_def)
  have one: "fold (into_channel send (rc_notify_write_fd rc)) [SendData wfd [1]] 0 = 1"
    using assms(3,4) by (simp add: send_data_def to_int_id)
  have "follower_step send recv (rc, 0) [SendData wfd [1]] (?rc1, 1)"
    using follower_step.commit [OF c, of send recv 0] unfolding one .
  moreover have "client_turn (\<lambda>_ _. None) io 0 [ClientNotify] ?rc1 = Some (Inr (flush_acks ?rc1))"
    using assms(5) by (simp add: client_turn_def flush_acks_def)
  then have "follower_step send recv (?rc1, 1) (fst (flush_acks ?rc1))
       (snd (flush_acks ?rc1), fold (into_channel send (rc_notify_write_fd ?rc1)) (fst (flush_acks ?rc1)) (1 - nat (recv_data recv 64)))"
    by (intro follower_step.turn) (auto simp: prod_eq_iff)
  moreover have "SendData fd [REPLICA_ACK] \<in> set (fst (flush_acks ?rc1))" "rc_out_acks (snd (flush_acks ?rc1)) = []"
    using assms(5) by (auto simp: flush_acks_def struct_sends_def)
  ultimately show ?thesis by (metis zero_less_one)
qed

section \<open>Properties\<close>

text \<open>C36. On POSIX systems a follower never acknowledges. The notify pair that \<^verbatim>\<open>create_notify_pair\<close> makes is a pipe, and \<^verbatim>\<open>send\<close> on an
  end of a pipe fails. Then, in every run of a replication client that was started with such a pair, no wake-up arrives,
  no acknowledgement is sent to anyone, and every acknowledgement that was ever queued stays queued.\<close>

theorem posix_follower_never_acks:
  assumes "run_state create_notify_pair (rs, []) = (Inr (rfd, wfd), rs', tr)"
    and enotsock: "\<forall>fd \<in> pipe_ends tr. \<forall>len. send fd len = -1"
    and "client_start rfd wfd (ReplicationClient topic part cfg meta reg) = (es0, rc)"
    and "follower_steps send recv (rc, 0) es (rc1, n)" "follower_steps send recv (rc1, n) es' (rc2, n')"
  shows "n' = 0 \<and> SendData fd [REPLICA_ACK] \<notin> set (es0 @ es @ es') \<and> prefix (rc_out_acks rc1) (rc_out_acks rc2)"
proof -
  have mute: "send wfd len = -1" for len using notify_pair_pipe [OF assms(1)] enotsock by blast
  have start: "rc_notify_write_fd rc = Some wfd" "no_ack es0" using assms(3) by (auto simp: client_start_def ReplicationClient_def)
  have 1: "n = 0" "only_queues rc es rc1" using mute_steps [OF assms(4) refl start(1) mute] by simp_all
  then have "rc_notify_write_fd rc1 = Some wfd" using start(1) by (simp add: only_queues_def)
  with 1(1) have "n' = 0" "only_queues rc1 es' rc2" using mute_steps [OF assms(5) _ _ mute, of rc1] by simp_all
  then show ?thesis using 1(2) start(2) by (auto simp: only_queues_def no_ack_def)
qed

text \<open>A started client, and the notify pair it was started with.\<close>

definition example_pipe :: "os_result list" where
  "example_pipe = [\<lparr>os_ret = 0, os_out = 3, os_out2 = 4\<rparr>] @ replicate 4 \<lparr>os_ret = 0, os_out = 0, os_out2 = 0\<rparr>"

definition example_header :: replica_sync_header where
  "example_header = \<lparr>sy_topic = ''t'', sy_partition = 0, sy_epoch = 1, sy_offset = 0, sy_timestamp_ms = 5, sy_payload_size = 2\<rparr>"

definition started_client :: repl_client where
  "started_client = snd (client_start 3 4 (ReplicationClient ''t'' 0 (rc_cfg example_client) Map.empty (rc_registry example_client)))"

lemma example_commit:
  "\<exists>es rc1. follower_steps send recv (started_client, 0) es (rc1, fold (into_channel send (Some 4)) [SendData 4 [1]] 0)
     \<and> rc_out_acks rc1 = [ack_of (rc_cfg example_client) example_header]"
proof -
  let ?io = "\<lambda>p. ([CallOnce example_header], p)"
  have part: "get_partition ''t'' 0 (rc_registry started_client) = Some (empty_store default_options 0)"
    using example_client_partition by (simp add: started_client_def client_start_def ReplicationClient_def)
  have f: "rc_topic started_client = ''t''" "rc_partition started_client = 0" "rc_notify_write_fd started_client = Some 4"
      "rc_out_acks started_client = []" "rc_cfg started_client = rc_cfg example_client"
    by (simp_all add: started_client_def client_start_def ReplicationClient_def)
  obtain rc1 where c: "partition_commits ?io started_client = ([SendData 4 [1]], rc1)" "rc_out_acks rc1 = [ack_of (rc_cfg example_client) example_header]"
    using part f by (simp add: partition_commits_def wake_def)
  have "follower_steps send recv (started_client, 0) ([] @ [SendData 4 [1]]) (rc1, fold (into_channel send (rc_notify_write_fd started_client)) [SendData 4 [1]] 0)"
    by (rule follower_steps.more [OF follower_steps.stop follower_step.commit [OF c(1)]])
  then show ?thesis using c(2) f(3) by metis
qed

theorem posix_follower_never_acks_witness:
  "\<exists>es rc1. follower_steps (\<lambda>_ _. -1) (\<lambda>_. -1) (started_client, 0) es (rc1, 0)
     \<and> rc_out_acks rc1 = [ack_of (rc_cfg example_client) example_header] \<and> SendData 9 [REPLICA_ACK] \<notin> set es"
proof -
  let ?send = "\<lambda>_ _. -1 :: int"
  obtain es rc1 where s: "follower_steps ?send (\<lambda>_. -1) (started_client, 0) es (rc1, 0)"
      "rc_out_acks rc1 = [ack_of (rc_cfg example_client) example_header]"
    using example_commit [of ?send "\<lambda>_. -1"] into_channel_none [of ?send 4 "[SendData 4 [1]]" 0] by auto
  obtain rs' tr where p: "run_state create_notify_pair (example_pipe, []) = (Inr (3, 4), rs', tr)"
    by (simp add: create_notify_pair_def set_nonblocking_def example_pipe_def next_result_def eval_nat_numeral)
  obtain es0 where st: "client_start 3 4 (ReplicationClient ''t'' 0 (rc_cfg example_client) Map.empty (rc_registry example_client)) = (es0, started_client)"
    by (metis prod.collapse started_client_def)
  have "SendData 9 [REPLICA_ACK] \<notin> set (es0 @ es @ [])"
    using posix_follower_never_acks [OF p _ st s(1) follower_steps.stop, of 9] by simp
  then show ?thesis using s by auto
qed

end
