(* ===== verification/Fell_Files_Win.thy ===== *)
theory Fell_Files_Win
  imports Fell_Files
begin

text \<open>
  The rest of the file layer: \<^verbatim>\<open>platform/file_win.cpp\<close>, and the functions of \<^verbatim>\<open>platform/file_posix.cpp\<close> whose effect the
  storage theories do not need. The results of the system calls are arguments, with their documented promises as
  predicates. The lemmas show that the two layers do the same to the files when the system does what it is asked for,
  and what they report otherwise.
\<close>

section \<open>Definitions\<close>

subsection \<open>platform/file\_posix.cpp\<close>

text \<open>The descriptors that are given to \<^verbatim>\<open>close\<close>.\<close>

definition close_file :: "int \<Rightarrow> int list" where
  "close_file fd = (if fd \<ge> 0 then [fd] else [])"

text \<open>\<open>r\<close> is the result of \<^verbatim>\<open>fdatasync\<close> and of \<^verbatim>\<open>ftruncate\<close>; the latter changes the file when it succeeds.\<close>

definition flush_file :: "int \<Rightarrow> bool" where
  "flush_file r = (r = 0)"

definition truncate_file :: "int \<Rightarrow> dir \<Rightarrow> fname \<Rightarrow> u64 \<Rightarrow> bool \<times> dir" where
  "truncate_file r d f new_size = (if r = 0 then (True, resize_file d f (unat new_size)) else (False, d))"

subsection \<open>platform/file\_win.cpp\<close>

text \<open>\<open>ok\<close>: \<^verbatim>\<open>CreateFileW\<close> gave a handle. \<^verbatim>\<open>OPEN_ALWAYS\<close> creates a missing file, \<^verbatim>\<open>OPEN_EXISTING\<close> fails on it.\<close>

definition open_file_append_win :: "bool \<Rightarrow> dir \<Rightarrow> fname \<Rightarrow> fault + dir" where
  "open_file_append_win ok d f =
     (if \<not> ok then Inl IoError else Inr (case map_of d f of None \<Rightarrow> file_put d f [] | Some _ \<Rightarrow> d))"

definition open_file_read_win :: "bool \<Rightarrow> dir \<Rightarrow> fname \<Rightarrow> fault + fname" where
  "open_file_read_win ok d f = (if \<not> ok \<or> map_of d f = None then Inl IoError else Inr f)"

definition kStackSize :: nat where
  "kStackSize = 4096"

text \<open>The copying loop: one \<^verbatim>\<open>memcpy\<close> for each buffer, at the current offset of the staging area.\<close>

fun stage :: "bytes list \<Rightarrow> nat \<Rightarrow> bytes \<Rightarrow> fault + bytes" where
  "stage [] offset area = Inr area"
| "stage (b # bs) offset area =
     (if length area < offset + length b then Inl OutOfBounds
      else stage bs (offset + length b) (take offset area @ b @ drop (offset + length b) area))"

text \<open>\<open>stack\<close> is what \<^verbatim>\<open>stack_buf\<close> holds at first. \<^verbatim>\<open>WriteFile\<close> is an argument: for the number of bytes it is asked to write, its
  result and the number of bytes it wrote.\<close>

definition write_file_vec_win ::
  "bytes \<Rightarrow> (u32 \<Rightarrow> bool \<times> u32) \<Rightarrow> dir \<Rightarrow> fname \<Rightarrow> bytes list \<Rightarrow> fault + bool \<times> dir" where
  "write_file_vec_win stack WriteFile d f buffers =
     (let total_size = sum_list (map length buffers)
      in case stage buffers 0 (if total_size > kStackSize then replicate total_size 0 else stack) of
           Inl e \<Rightarrow> Inl e
         | Inr staging \<Rightarrow>
             (case WriteFile (of_nat total_size) of
                (result, bytes_written) \<Rightarrow>
                  Inr (result \<and> bytes_written = of_nat total_size,
                       file_put d f (file_contents d f @ take (unat bytes_written) staging))))"

text \<open>Its promise: it writes no more than it was asked to.\<close>

definition writes_at_most :: "(u32 \<Rightarrow> bool \<times> u32) \<Rightarrow> bool" where
  "writes_at_most WriteFile \<longleftrightarrow> (\<forall>n. snd (WriteFile n) \<le> n)"

definition ERROR_HANDLE_EOF :: u32 where
  "ERROR_HANDLE_EOF = 38"

text \<open>\<^verbatim>\<open>ReadFile\<close> is an argument: for the two halves of the offset and the number of bytes, an error code or the bytes read.\<close>

definition pread_file_win :: "(u32 \<Rightarrow> u32 \<Rightarrow> u32 \<Rightarrow> u32 + bytes) \<Rightarrow> nat \<Rightarrow> u64 \<Rightarrow> bytes option" where
  "pread_file_win ReadFile nbytes offset =
     (case ReadFile (ucast (offset AND 0xFFFFFFFF)) (ucast (drop_bit 32 offset AND 0xFFFFFFFF)) (of_nat nbytes) of
        Inl err \<Rightarrow> if err = ERROR_HANDLE_EOF then Some [] else None
      | Inr bs \<Rightarrow> Some bs)"

text \<open>Its promise on a file: the bytes from the offset on, or the error for the end of the file.\<close>

definition reads_file :: "(u32 \<Rightarrow> u32 \<Rightarrow> u32 \<Rightarrow> u32 + bytes) \<Rightarrow> bytes \<Rightarrow> bool" where
  "reads_file ReadFile c \<longleftrightarrow>
     (\<forall>lo hi n. let off = unat hi * 2 ^ 32 + unat lo
       in ReadFile lo hi n = (if length c \<le> off \<and> n \<noteq> 0 then Inl ERROR_HANDLE_EOF else Inr (bytes_at off (unat n) c)))"

definition flush_file_win :: "int \<Rightarrow> bool" where
  "flush_file_win r = (r \<noteq> 0)"

text \<open>The results of \<^verbatim>\<open>SetFilePointerEx\<close> and \<^verbatim>\<open>SetEndOfFile\<close>.\<close>

definition truncate_file_win :: "int \<Rightarrow> int \<Rightarrow> dir \<Rightarrow> fname \<Rightarrow> u64 \<Rightarrow> bool \<times> dir" where
  "truncate_file_win seek_ok end_ok d f new_size =
     (if seek_ok = 0 then (False, d)
      else if end_ok \<noteq> 0 then (True, resize_file d f (unat new_size)) else (False, d))"

section \<open>Staging\<close>

lemma stage_ok:
  "offset + sum_list (map length bs) \<le> length area \<Longrightarrow>
     stage bs offset area = Inr (take offset area @ concat bs @ drop (offset + sum_list (map length bs)) area)"
proof (induction bs arbitrary: offset area)
  case (Cons b bs)
  let ?a = "take offset area @ b @ drop (offset + length b) area"
  have len: "length ?a = length area" using Cons.prems by simp
  have "take (offset + length b) ?a = take offset area @ b" using Cons.prems by simp
  moreover have "drop (offset + length b + sum_list (map length bs)) ?a = drop (offset + sum_list (map length (b # bs))) area"
    using Cons.prems by (simp add: ac_simps)
  ultimately show ?case using Cons.IH [of "offset + length b" ?a] Cons.prems len by (simp add: add.assoc)
qed simp

lemma stage_buffers:
  assumes "length stack = kStackSize"
  shows "\<exists>rest. stage buffers 0 (if sum_list (map length buffers) > kStackSize then replicate (sum_list (map length buffers)) 0 else stack)
     = Inr (concat buffers @ rest)"
  using assms by (simp add: stage_ok)

section \<open>Both platforms\<close>

lemma write_win_eq:
  assumes "length stack = kStackSize" "writes_at_most WriteFile" "sum_list (map length buffers) < 2 ^ 32"
  shows "\<exists>ok n. WriteFile (of_nat (sum_list (map length buffers))) = (ok, n) \<and> unat n \<le> length (concat buffers)
     \<and> write_file_vec_win stack WriteFile d f buffers
       = Inr (ok \<and> unat n = length (concat buffers), file_put d f (file_contents d f @ take (unat n) (concat buffers)))"
proof -
  let ?t = "sum_list (map length buffers)"
  obtain ok n where w: "WriteFile (of_nat ?t) = (ok, n)" by (metis prod.collapse)
  have t: "?t = length (concat buffers)" by (simp add: length_concat)
  have u: "unat (of_nat ?t :: u32) = ?t" using assms(3) by simp
  have n: "unat n \<le> ?t" using assms(2) w u unfolding writes_at_most_def by (metis snd_conv word_le_nat_alt)
  have eq: "(n = of_nat ?t) = (unat n = ?t)" using u by (metis word_unat_eq_iff)
  obtain rest where st: "stage buffers 0 (if ?t > kStackSize then replicate ?t 0 else stack) = Inr (concat buffers @ rest)"
    using stage_buffers [OF assms(1)] by blast
  have "write_file_vec_win stack WriteFile d f buffers = Inr (ok \<and> unat n = ?t, file_put d f (file_contents d f @ take (unat n) (concat buffers)))"
    unfolding write_file_vec_win_def Let_def st w using n t eq by simp
  then show ?thesis using w n t by simp
qed

lemma offset_halves:
  "unat (ucast (drop_bit 32 off AND 0xFFFFFFFF) :: u32) * 2 ^ 32 + unat (ucast (off AND 0xFFFFFFFF) :: u32) = unat (off :: u64)"
proof -
  have m: "(0xFFFFFFFF :: u64) = mask 32" by (simp add: mask_eq_exp_minus_1)
  have lo: "unat (ucast (w AND 0xFFFFFFFF) :: u32) = unat w mod 2 ^ 32" for w :: u64
    unfolding m take_bit_eq_mask [symmetric] unsigned_ucast_eq unsigned_take_bit_eq by (simp add: take_bit_eq_mod)
  have "unat (drop_bit 32 off) = unat off div 2 ^ 32" by (simp add: drop_bit_eq_div unat_div)
  moreover have "unat off div 2 ^ 32 < 2 ^ 32" using unat_lt_u64 [of off] by (simp add: less_mult_imp_div_less)
  ultimately show ?thesis unfolding lo by (simp only: mod_less) (simp add: div_mult_mod_eq)
qed

lemma pread_win_eq:
  assumes "reads_file ReadFile (file_contents d f)" "n < 2 ^ 32" "unat off < 2 ^ 63"
  shows "pread_file_win ReadFile n off = pread_file d (Some f) n off"
proof -
  define lo :: u32 where "lo = ucast (off AND 0xFFFFFFFF)"
  define hi :: u32 where "hi = ucast (drop_bit 32 off AND 0xFFFFFFFF)"
  have off: "unat hi * 2 ^ 32 + unat lo = unat off" unfolding lo_def hi_def by (rule offset_halves)
  have n: "unat (of_nat n :: u32) = n" using assms(2) by simp
  have r: "ReadFile lo hi (of_nat n)
      = (if length (file_contents d f) \<le> unat off \<and> of_nat n \<noteq> (0 :: u32) then Inl ERROR_HANDLE_EOF else Inr (bytes_at (unat off) n (file_contents d f)))"
    using assms(1) unfolding reads_file_def Let_def by (simp only: off n)
  show ?thesis
    unfolding pread_file_win_def lo_def [symmetric] hi_def [symmetric] r by (simp add: pread_file_at [OF assms(3)] bytes_at_def)
qed

section \<open>Properties\<close>

text \<open>C33. The two file layers agree. When the system does what it is asked for, appending a group of buffers (of less than 4 GiB, in at most
  \<^verbatim>\<open>IOV_MAX\<close> parts), reading at an offset and truncating do the same to the files on Windows and on POSIX systems. When the
  system writes less, the Windows layer reports a failure, and the POSIX layer reports success; both leave the part that was
  written in the file.\<close>

theorem file_layers_agree:
  assumes "length stack = kStackSize" "writes_at_most WriteFile" "length (concat buffers) < 2 ^ 32" "length buffers \<le> iov_max"
    and "WriteFile (of_nat (length (concat buffers))) = (True, n)" "reads_file ReadFile (file_contents d f)" "m < 2 ^ 32" "unat off < 2 ^ 63"
  shows "write_file_vec_win stack WriteFile d f buffers
       = Inr (unat n = length (concat buffers), snd (write_file_vec (int (unat n)) d f buffers))
     \<and> fst (write_file_vec (int (unat n)) d f buffers)
     \<and> pread_file_win ReadFile m off = pread_file d (Some f) m off
     \<and> truncate_file_win 1 1 d f size' = truncate_file 0 d f size'"
proof -
  have t: "sum_list (map length buffers) = length (concat buffers)" by (simp add: length_concat)
  show ?thesis
    using write_win_eq [OF assms(1,2), of buffers d f] assms(3-5) pread_win_eq [OF assms(6-8)]
    by (auto simp: t write_file_vec_def truncate_file_win_def truncate_file_def)
qed

theorem file_layers_agree_witness:
  "write_file_vec_win (replicate 4096 7) (\<lambda>n. (True, min n 3)) [(''f'', [9])] ''f'' [[1, 2], [3, 4]] = Inr (False, [(''f'', [9, 1, 2, 3])])
     \<and> write_file_vec 3 [(''f'', [9])] ''f'' [[1, 2], [3, 4]] = (True, [(''f'', [9, 1, 2, 3])])"
proof -
  let ?R = "\<lambda>lo hi n :: u32. let off = unat hi * 2 ^ 32 + unat lo
       in if length [9 :: u8] \<le> off \<and> n \<noteq> 0 then Inl ERROR_HANDLE_EOF else Inr (bytes_at off (unat n) [9])"
  have "reads_file ?R (file_contents [(''f'', [9])] ''f'')" by (simp add: reads_file_def file_contents_def)
  then have "write_file_vec_win (replicate 4096 7) (\<lambda>n. (True, min n 3)) [(''f'', [9])] ''f'' [[1, 2], [3, 4]]
      = Inr (unat (3 :: u32) = 4, snd (write_file_vec (int (unat (3 :: u32))) [(''f'', [9])] ''f'' [[1, 2], [3, 4]]))"
    using file_layers_agree [of "replicate 4096 7" "\<lambda>n. (True, min n 3)" "[[1, 2], [3, 4]]" 3 ?R "[(''f'', [9])]" "''f''" 1 0 0]
    by (simp add: kStackSize_def writes_at_most_def iov_max_def)
  then show ?thesis by (simp add: write_file_vec_def iov_max_def file_contents_def)
qed

text \<open>A group of exactly 4 GiB is reported as written on Windows, and nothing of it is.\<close>

theorem win_write_4gib_lost:
  assumes "length stack = kStackSize" "writes_at_most WriteFile" "length (concat buffers) = 2 ^ 32" "fst (WriteFile 0)"
  shows "\<exists>d'. write_file_vec_win stack WriteFile d f buffers = Inr (True, d') \<and> file_contents d' f = file_contents d f"
proof -
  have t: "sum_list (map length buffers) = 2 ^ 32" using assms(3) by (simp add: length_concat)
  have z: "of_nat (2 ^ 32) = (0 :: u32)" by simp
  have "snd (WriteFile 0) \<le> 0" using assms(2) unfolding writes_at_most_def by blast
  then have w: "WriteFile 0 = (True, 0)" using assms(4) by (metis prod.collapse word_le_0_iff)
  obtain rest where st: "stage buffers 0 (if sum_list (map length buffers) > kStackSize then replicate (sum_list (map length buffers)) 0 else stack)
      = Inr (concat buffers @ rest)" using stage_buffers [OF assms(1)] by blast
  show ?thesis unfolding write_file_vec_win_def Let_def st unfolding t z using w by simp
qed

end
