(* ===== verification/Fell_Debug_Mutex.thy ===== *)
theory Fell_Debug_Mutex
  imports Fell_Prelude
begin

text \<open>
  \<^verbatim>\<open>storage/debug_mutex.hpp\<close>: the mutex that looks for locking mistakes. Each access to the underlying \<^verbatim>\<open>std::mutex\<close> and to
  an atomic member is one step, and the steps of any number of threads interleave. A failing assertion ends the
  program. The theorem shows that under every interleaving the mutex reports a mistake exactly when there is one.
\<close>

section \<open>Definitions\<close>

type_synonym tid = nat

record debug_mutex =
  dm_mu :: "tid option"           \<comment> \<open>the thread that holds \<^verbatim>\<open>mu_\<close>\<close>
  dm_owner :: "tid option"        \<comment> \<open>\<open>None\<close> is the default \<^verbatim>\<open>thread::id\<close>\<close>
  dm_lock_count :: u64
  dm_lock_time :: nat             \<comment> \<open>in milliseconds\<close>

definition DebugMutex :: debug_mutex where
  "DebugMutex = \<lparr>dm_mu = None, dm_owner = None, dm_lock_count = 0, dm_lock_time = 0\<rparr>"

text \<open>Where a thread is: outside of the mutex's functions, or behind one of their steps.\<close>

datatype dm_pc =
    Outside
  | LockChecked | LockTaken | LockOwned | LockTimed
  | UnlockChecked | UnlockCleared
  | TryTaken

datatype dm_alarm = DoubleLock tid | NotOwner tid

record dm_system =
  ds_mutex :: debug_mutex
  ds_pc :: "tid \<Rightarrow> dm_pc"
  ds_slow :: "(tid \<times> nat) list"       \<comment> \<open>reports of slow unlocks\<close>
  ds_alarm :: "dm_alarm option"

definition dm_start :: dm_system where
  "dm_start = \<lparr>ds_mutex = DebugMutex, ds_pc = (\<lambda>_. Outside), ds_slow = [], ds_alarm = None\<rparr>"

definition at_pc :: "tid \<Rightarrow> dm_pc \<Rightarrow> debug_mutex \<Rightarrow> dm_system \<Rightarrow> dm_system" where
  "at_pc t pc m s = s\<lparr>ds_mutex := m, ds_pc := (ds_pc s)(t := pc)\<rparr>"

text \<open>The first step of each function. \<^verbatim>\<open>mu_.try_lock()\<close> fails when the mutex is held.\<close>

definition lock_call :: "tid \<Rightarrow> dm_system \<Rightarrow> dm_system" where
  "lock_call t s =
     (if dm_owner (ds_mutex s) = Some t then s\<lparr>ds_alarm := Some (DoubleLock t)\<rparr> else at_pc t LockChecked (ds_mutex s) s)"

definition unlock_call :: "tid \<Rightarrow> dm_system \<Rightarrow> dm_system" where
  "unlock_call t s =
     (if dm_owner (ds_mutex s) \<noteq> Some t then s\<lparr>ds_alarm := Some (NotOwner t)\<rparr> else at_pc t UnlockChecked (ds_mutex s) s)"

definition try_lock_call :: "tid \<Rightarrow> dm_system \<Rightarrow> dm_system" where
  "try_lock_call t s =
     (if dm_mu (ds_mutex s) = None then at_pc t TryTaken ((ds_mutex s)\<lparr>dm_mu := Some t\<rparr>) s else s)"

text \<open>The step that follows, at a time. \<open>None\<close>: the thread waits for \<^verbatim>\<open>mu_\<close>, or is outside.\<close>

definition proceed :: "tid \<Rightarrow> nat \<Rightarrow> dm_system \<Rightarrow> dm_system option" where
  "proceed t now s =
     (let m = ds_mutex s
      in case ds_pc s t of
           Outside \<Rightarrow> None
         | LockChecked \<Rightarrow> if dm_mu m = None then Some (at_pc t LockTaken (m\<lparr>dm_mu := Some t\<rparr>) s) else None
         | LockTaken \<Rightarrow> Some (at_pc t LockOwned (m\<lparr>dm_owner := Some t\<rparr>) s)
         | LockOwned \<Rightarrow> Some (at_pc t LockTimed (m\<lparr>dm_lock_time := now\<rparr>) s)
         | LockTimed \<Rightarrow> Some (at_pc t Outside (m\<lparr>dm_lock_count := dm_lock_count m + 1\<rparr>) s)
         | UnlockChecked \<Rightarrow>
             let held = now - dm_lock_time m;
                 s1 = (if held > 5 then s\<lparr>ds_slow := ds_slow s @ [(t, held)]\<rparr> else s)
             in Some (at_pc t UnlockCleared (m\<lparr>dm_owner := None\<rparr>) s1)
         | UnlockCleared \<Rightarrow> Some (at_pc t Outside (m\<lparr>dm_mu := None\<rparr>) s)
         | TryTaken \<Rightarrow> Some (at_pc t Outside (m\<lparr>dm_owner := Some t\<rparr>) s))"

datatype dm_action = CallLock tid | CallUnlock tid | CallTryLock tid | Proceed tid nat

text \<open>Only a thread that is outside calls a function, and nothing happens after an alarm.\<close>

inductive dm_step :: "dm_system \<Rightarrow> dm_action \<Rightarrow> dm_system \<Rightarrow> bool" where
  step_lock: "ds_alarm s = None \<Longrightarrow> ds_pc s t = Outside \<Longrightarrow> dm_step s (CallLock t) (lock_call t s)"
| step_unlock: "ds_alarm s = None \<Longrightarrow> ds_pc s t = Outside \<Longrightarrow> dm_step s (CallUnlock t) (unlock_call t s)"
| step_try_lock: "ds_alarm s = None \<Longrightarrow> ds_pc s t = Outside \<Longrightarrow> dm_step s (CallTryLock t) (try_lock_call t s)"
| step_proceed: "ds_alarm s = None \<Longrightarrow> proceed t now s = Some s' \<Longrightarrow> dm_step s (Proceed t now) s'"

inductive dm_run :: "dm_action list \<Rightarrow> dm_system \<Rightarrow> bool" where
  run_start: "dm_run [] dm_start"
| run_step: "dm_run as s \<Longrightarrow> dm_step s a s' \<Longrightarrow> dm_run (as @ [a]) s'"


section \<open>Invariant\<close>

text \<open>Between taking \<^verbatim>\<open>mu_\<close> and releasing it a thread holds it. The holder is recorded as the owner except right after it has
  taken \<^verbatim>\<open>mu_\<close>, and right before it releases it; nobody else is.\<close>

definition thread_ok :: "debug_mutex \<Rightarrow> tid \<Rightarrow> dm_pc \<Rightarrow> bool" where
  "thread_ok m t pc \<longleftrightarrow>
     (pc \<notin> {Outside, LockChecked} \<longrightarrow> dm_mu m = Some t) \<and> (pc = LockChecked \<longrightarrow> dm_mu m \<noteq> Some t)
     \<and> (dm_owner m = Some t \<longleftrightarrow> dm_mu m = Some t \<and> pc \<notin> {LockTaken, UnlockCleared, TryTaken})"

definition dm_inv :: "dm_system \<Rightarrow> bool" where
  "dm_inv s \<longleftrightarrow> (\<forall>t. thread_ok (ds_mutex s) t (ds_pc s t))"

lemma dm_inv_start: "dm_inv dm_start"
  by (simp add: dm_inv_def thread_ok_def dm_start_def DebugMutex_def)

lemma dm_inv_owner: "dm_inv s \<Longrightarrow> ds_pc s t = Outside \<Longrightarrow> dm_owner (ds_mutex s) = Some t \<longleftrightarrow> dm_mu (ds_mutex s) = Some t"
  unfolding dm_inv_def by (drule spec [of _ t]) (auto simp: thread_ok_def)

text \<open>One step changes what holds for its thread; for another thread the two have to be looked at together.\<close>

lemma dm_invI:
  assumes "dm_inv s"
    and "thread_ok (ds_mutex s) t (ds_pc s t) \<Longrightarrow> thread_ok (ds_mutex s') t (ds_pc s' t)"
    and "\<And>u. u \<noteq> t \<Longrightarrow> thread_ok (ds_mutex s) t (ds_pc s t) \<Longrightarrow> thread_ok (ds_mutex s) u (ds_pc s u) \<Longrightarrow> thread_ok (ds_mutex s') u (ds_pc s' u)"
  shows "dm_inv s'"
  using assms unfolding dm_inv_def by metis

lemma call_inv:
  assumes "dm_inv s" "ds_pc s t = Outside"
  shows "dm_inv (lock_call t s)" "dm_inv (unlock_call t s)" "dm_inv (try_lock_call t s)"
proof -
  show "dm_inv (lock_call t s)"
    by (rule dm_invI [OF assms(1), where t = t]) (use assms(2) in \<open>auto simp: thread_ok_def lock_call_def at_pc_def\<close>)
  show "dm_inv (unlock_call t s)"
    by (rule dm_invI [OF assms(1), where t = t]) (use assms(2) in \<open>auto simp: thread_ok_def unlock_call_def at_pc_def\<close>)
  show "dm_inv (try_lock_call t s)"
    by (rule dm_invI [OF assms(1), where t = t]) (use assms(2) in \<open>auto simp: thread_ok_def try_lock_call_def at_pc_def\<close>)
qed

lemma proceed_inv:
  assumes "dm_inv s" "proceed t now s = Some s'"
  shows "dm_inv s'"
proof (rule dm_invI [OF assms(1), where t = t])
  assume "thread_ok (ds_mutex s) t (ds_pc s t)"
  then show "thread_ok (ds_mutex s') t (ds_pc s' t)"
    using assms(2) by (cases "ds_pc s t") (auto simp: thread_ok_def proceed_def at_pc_def Let_def split: if_splits)
next
  fix u
  assume "u \<noteq> t" "thread_ok (ds_mutex s) t (ds_pc s t)" "thread_ok (ds_mutex s) u (ds_pc s u)"
  then show "thread_ok (ds_mutex s') u (ds_pc s' u)"
    using assms(2) by (cases "ds_pc s t") (auto simp: thread_ok_def proceed_def at_pc_def Let_def split: if_splits)
qed

lemma dm_run_inv: "dm_run as s \<Longrightarrow> dm_inv s"
proof (induction rule: dm_run.induct)
  case run_start show ?case by (rule dm_inv_start)
next
  case (run_step as s a s')
  from run_step(2,3) show ?case by (cases rule: dm_step.cases) (auto intro: call_inv proceed_inv)
qed

lemma alarm_kept: "ds_alarm (at_pc t pc m s) = ds_alarm s" "ds_alarm (s\<lparr>ds_slow := x\<rparr>) = ds_alarm s"
  by (simp_all add: at_pc_def)

lemma proceed_alarm: "proceed t now s = Some s' \<Longrightarrow> ds_alarm s' = ds_alarm s"
  by (auto simp: proceed_def Let_def alarm_kept split: dm_pc.splits if_splits)

lemma dm_inv_holds: "dm_inv s \<Longrightarrow> ds_pc s t \<notin> {Outside, LockChecked} \<Longrightarrow> dm_mu (ds_mutex s) = Some t"
  unfolding dm_inv_def by (drule spec [of _ t]) (simp add: thread_ok_def)

section \<open>Properties\<close>

text \<open>C34. The debugging mutex reports mistakes, all of them and nothing else. Under every interleaving of the steps of any threads, a call to
  \<^verbatim>\<open>lock\<close> raises the alarm exactly when the calling thread holds the mutex already, a call to \<^verbatim>\<open>unlock\<close> exactly when it does
  not hold it, and no other step does; at most one thread is between taking and releasing the mutex, and only that thread
  reads or writes \<^verbatim>\<open>lock_time_\<close>, which is not atomic.\<close>

theorem debug_mutex_alarms_exact:
  assumes "dm_run as s" "dm_step s a s'"
  shows "ds_alarm s' = (case a of
       CallLock t \<Rightarrow> if dm_mu (ds_mutex s) = Some t then Some (DoubleLock t) else None
     | CallUnlock t \<Rightarrow> if dm_mu (ds_mutex s) = Some t then None else Some (NotOwner t)
     | _ \<Rightarrow> None)
     \<and> (\<forall>t u. ds_pc s t \<notin> {Outside, LockChecked} \<and> ds_pc s u \<notin> {Outside, LockChecked} \<longrightarrow> t = u)
     \<and> (dm_lock_time (ds_mutex s') \<noteq> dm_lock_time (ds_mutex s) \<longrightarrow> (\<exists>t now. a = Proceed t now \<and> dm_mu (ds_mutex s) = Some t))"
proof (intro conjI allI impI)
  have inv: "dm_inv s" using assms(1) by (rule dm_run_inv)
  from assms(2) show "ds_alarm s' = (case a of
       CallLock t \<Rightarrow> if dm_mu (ds_mutex s) = Some t then Some (DoubleLock t) else None
     | CallUnlock t \<Rightarrow> if dm_mu (ds_mutex s) = Some t then None else Some (NotOwner t)
     | _ \<Rightarrow> None)"
    by (cases rule: dm_step.cases)
      (auto simp: lock_call_def unlock_call_def try_lock_call_def alarm_kept proceed_alarm dm_inv_owner [OF inv])
  show "t = u" if "ds_pc s t \<notin> {Outside, LockChecked} \<and> ds_pc s u \<notin> {Outside, LockChecked}" for t u
    using dm_inv_holds [OF inv, of t] dm_inv_holds [OF inv, of u] that by simp
  assume lt: "dm_lock_time (ds_mutex s') \<noteq> dm_lock_time (ds_mutex s)"
  from assms(2) show "\<exists>t now. a = Proceed t now \<and> dm_mu (ds_mutex s) = Some t"
  proof (cases rule: dm_step.cases)
    case (step_proceed t now)
    then have "ds_pc s t = LockOwned" using lt by (auto simp: proceed_def at_pc_def Let_def split: dm_pc.splits if_splits)
    then show ?thesis using step_proceed dm_inv_holds [OF inv, of t] by simp
  qed (use lt in \<open>auto simp: lock_call_def unlock_call_def try_lock_call_def at_pc_def split: if_splits\<close>)
qed

text \<open>A thread that calls its functions one after the other.\<close>

fun dm_exec :: "dm_action list \<Rightarrow> dm_system \<Rightarrow> dm_system option" where
  "dm_exec [] s = Some s"
| "dm_exec (a # as) s =
     (if ds_alarm s \<noteq> None then None
      else case a of
        CallLock t \<Rightarrow> if ds_pc s t = Outside then dm_exec as (lock_call t s) else None
      | CallUnlock t \<Rightarrow> if ds_pc s t = Outside then dm_exec as (unlock_call t s) else None
      | CallTryLock t \<Rightarrow> if ds_pc s t = Outside then dm_exec as (try_lock_call t s) else None
      | Proceed t now \<Rightarrow> (case proceed t now s of None \<Rightarrow> None | Some s' \<Rightarrow> dm_exec as s'))"

lemma dm_exec_run: "dm_run bs s \<Longrightarrow> dm_exec as s = Some s' \<Longrightarrow> dm_run (bs @ as) s'"
proof (induction as arbitrary: bs s)
  case (Cons a as)
  then obtain s1 where "dm_step s a s1" "dm_exec as s1 = Some s'"
    by (cases a) (auto split: if_splits option.splits intro: dm_step.intros)
  then show ?case using Cons.IH [OF run_step [OF Cons.prems(1)]] by simp
qed simp

theorem debug_mutex_alarms_exact_witness:
  "\<exists>s. dm_run [CallLock 1, Proceed 1 0, Proceed 1 0, CallLock 2, Proceed 1 3, Proceed 1 3] s \<and> ds_alarm (lock_call 1 s) = Some (DoubleLock 1)
     \<and> ds_alarm (unlock_call 1 s) = None"
proof -
  let ?as = "[CallLock 1, Proceed 1 0, Proceed 1 0, CallLock 2, Proceed 1 3, Proceed 1 3]"
  obtain s where s: "dm_exec ?as dm_start = Some s" "ds_alarm s = None" "ds_pc s 1 = Outside" "dm_mu (ds_mutex s) = Some 1"
    by (simp add: dm_start_def DebugMutex_def lock_call_def at_pc_def proceed_def Let_def)
  have r: "dm_run ?as s" using dm_exec_run [OF run_start s(1)] by simp
  have "ds_alarm (lock_call 1 s) = Some (DoubleLock 1)"
    using debug_mutex_alarms_exact [OF r step_lock [OF s(2,3)]] s(4) by simp
  moreover have "ds_alarm (unlock_call 1 s) = None"
    using debug_mutex_alarms_exact [OF r step_unlock [OF s(2,3)]] s(4) by simp
  ultimately show ?thesis using r by blast
qed

text \<open>\<^verbatim>\<open>try_lock\<close> does not set \<^verbatim>\<open>lock_time_\<close>: a thread that takes the mutex with it at the time \<open>now\<close> and releases it at once is
  reported as having held it since the last \<^verbatim>\<open>lock\<close>, or since the start.\<close>

theorem try_lock_reports_stale_time:
  assumes "now > 5"
  shows "\<exists>s. dm_run [CallTryLock t, Proceed t now, CallUnlock t, Proceed t now] s \<and> ds_slow s = [(t, now)]"
proof -
  obtain s where "dm_exec [CallTryLock t, Proceed t now, CallUnlock t, Proceed t now] dm_start = Some s" "ds_slow s = [(t, now)]"
    using assms by (simp add: dm_start_def DebugMutex_def try_lock_call_def unlock_call_def at_pc_def proceed_def Let_def)
  then show ?thesis using dm_exec_run [OF run_start] by fastforce
qed

end
