(* ===== verification/Fell_Network_Bench.thy ===== *)
theory Fell_Network_Bench
  imports Fell_Producer_Cli
begin

text \<open>
  \<^verbatim>\<open>bench/sys/network_bench.cpp\<close>: the load generator. Its helpers for byte order, exact reads and writes, and frames (of clients
  and of the replication protocol) are copies of those of the command line tools, and are modelled by the same definitions. What the
  sockets deliver and accept, and the time an operation takes, are arguments; floating point values are an
  abstract ordered type, whose products with a size are an argument as well. A worker that has used up what
  its sockets give is still running. The lemmas show that the generator publishes to the partition whose leader it is
  connected to, that it counts what the broker acknowledged, and that its start barrier opens.
\<close>

section \<open>Definitions\<close>

subsection \<open>Options\<close>

record 'd run_config =
  rc_host :: string
  rc_leader_port :: u16
  rc_repl_port :: u16
  rc_replication_mode :: string
  rc_scenario :: string
  rc_topic :: string
  rc_partitions :: u16
  rc_total_ops :: int
  rc_warmup_ops :: int
  rc_num_threads :: int
  rc_payload_sz :: int
  rc_pipeline :: int
  rc_shared_partition :: bool
  rc_routing_key :: string
  rc_retry_on_busy :: bool
  rc_create_topic :: bool
  rc_expected_followers :: int
  rc_baseline_throughput :: 'd
  rc_baseline_p50_us :: 'd
  rc_baseline_p99_us :: 'd

definition RunConfig :: "'d::zero run_config" where
  "RunConfig =
     \<lparr>rc_host = ''127.0.0.1'', rc_leader_port = 7700, rc_repl_port = 8700, rc_replication_mode = ''acks1'', rc_scenario = ''producer'',
      rc_topic = ''bench'', rc_partitions = 1, rc_total_ops = 100000, rc_warmup_ops = 0, rc_num_threads = 4, rc_payload_sz = 256,
      rc_pipeline = 1, rc_shared_partition = False, rc_routing_key = [], rc_retry_on_busy = False, rc_create_topic = True,
      rc_expected_followers = 0, rc_baseline_throughput = 0, rc_baseline_p50_us = 0, rc_baseline_p99_us = 0\<rparr>"

definition bench_flag :: "string \<Rightarrow> 'd run_config \<Rightarrow> 'd run_config" where
  "bench_flag a cfg =
     (if a = ''--shared-partition'' then cfg\<lparr>rc_shared_partition := True\<rparr>
      else if a = ''--retry-on-busy'' then cfg\<lparr>rc_retry_on_busy := True\<rparr>
      else if a = ''--create-topic'' then cfg\<lparr>rc_create_topic := True\<rparr> else cfg)"

text \<open>An option with its value; \<open>None\<close> when the argument is not such an option. \<^verbatim>\<open>std::stod\<close> is an argument.\<close>

definition bench_value ::
  "(string \<Rightarrow> fault + 'd) \<Rightarrow> string \<Rightarrow> string \<Rightarrow> 'd run_config \<Rightarrow> (fault + 'd run_config) option" where
  "bench_value stod a v cfg =
     (if a = ''--host'' then Some (Inr (cfg\<lparr>rc_host := v\<rparr>))
      else if a = ''--port'' \<or> a = ''--leader-port'' then Some (map_sum id (\<lambda>n. cfg\<lparr>rc_leader_port := of_int n\<rparr>) (stoi v))
      else if a = ''--repl-port'' then Some (map_sum id (\<lambda>n. cfg\<lparr>rc_repl_port := of_int n\<rparr>) (stoi v))
      else if a = ''--replication-mode'' then Some (Inr (cfg\<lparr>rc_replication_mode := v\<rparr>))
      else if a = ''--scenario'' then Some (Inr (cfg\<lparr>rc_scenario := v\<rparr>))
      else if a = ''--topic'' then Some (Inr (cfg\<lparr>rc_topic := v\<rparr>))
      else if a = ''--partitions'' then Some (map_sum id (\<lambda>n. cfg\<lparr>rc_partitions := of_int n\<rparr>) (stoi v))
      else if a = ''--ops'' then Some (map_sum id (\<lambda>n. cfg\<lparr>rc_total_ops := n\<rparr>) (stoi v))
      else if a = ''--warmup-ops'' then Some (map_sum id (\<lambda>n. cfg\<lparr>rc_warmup_ops := n\<rparr>) (stoi v))
      else if a = ''--threads'' then Some (map_sum id (\<lambda>n. cfg\<lparr>rc_num_threads := n\<rparr>) (stoi v))
      else if a = ''--payload-size'' then Some (map_sum id (\<lambda>n. cfg\<lparr>rc_payload_sz := n\<rparr>) (stoi v))
      else if a = ''--pipeline'' then Some (map_sum id (\<lambda>n. cfg\<lparr>rc_pipeline := n\<rparr>) (stoi v))
      else if a = ''--key'' then Some (Inr (cfg\<lparr>rc_routing_key := v\<rparr>))
      else if a = ''--expected-followers'' then Some (map_sum id (\<lambda>n. cfg\<lparr>rc_expected_followers := n\<rparr>) (stoi v))
      else if a = ''--baseline-throughput'' then Some (map_sum id (\<lambda>x. cfg\<lparr>rc_baseline_throughput := x\<rparr>) (stod v))
      else if a = ''--baseline-p50-us'' then Some (map_sum id (\<lambda>x. cfg\<lparr>rc_baseline_p50_us := x\<rparr>) (stod v))
      else if a = ''--baseline-p99-us'' then Some (map_sum id (\<lambda>x. cfg\<lparr>rc_baseline_p99_us := x\<rparr>) (stod v))
      else None)"

fun bench_args :: "(string \<Rightarrow> fault + 'd) \<Rightarrow> string list \<Rightarrow> 'd run_config \<Rightarrow> fault + 'd run_config" where
  "bench_args stod [] cfg = Inr cfg"
| "bench_args stod [a] cfg = Inr (bench_flag a cfg)"
| "bench_args stod (a # v # args) cfg =
     (case bench_value stod a v cfg of
        Some (Inl e) \<Rightarrow> Inl e
      | Some (Inr cfg') \<Rightarrow> bench_args stod args cfg'
      | None \<Rightarrow> bench_args stod (v # args) (bench_flag a cfg))"

subsection \<open>Metadata\<close>

text \<open>The result is \<open>None\<close> while the request is still being sent; otherwise \<open>None\<close> inside stands for \<^verbatim>\<open>false\<close>.\<close>

definition bench_fetch_metadata :: "string \<Rightarrow> connection option \<Rightarrow> metadata option option" where
  "bench_fetch_metadata topic conn =
     (case conn of
        None \<Rightarrow> Some None
      | Some (ss, rs) \<Rightarrow>
          (case snd (snd (write_frame METADATA_REQ (encode_metadata_req \<lparr>md_topic = take 255 topic\<rparr>) ss)) of
             None \<Rightarrow> None
           | Some False \<Rightarrow> Some None
           | Some True \<Rightarrow>
               Some (case fst (read_frame rs) of
                       None \<Rightarrow> None
                     | Some resp \<Rightarrow>
                         if frame_op resp = ERR \<or> frame_op resp \<noteq> METADATA_RESP then None else parse_metadata (frame_payload resp))))"

definition bench_connect_to_leader :: "string \<Rightarrow> u16 \<Rightarrow> connection option \<Rightarrow> (string \<times> u16) option option" where
  "bench_connect_to_leader topic part conn =
     map_option (\<lambda>md. case md of None \<Rightarrow> None | Some md \<Rightarrow> leader_address part md) (bench_fetch_metadata topic conn)"

text \<open>The hash of the routing key, and the partition of a worker.\<close>

definition bench_fnv1a :: "bytes \<Rightarrow> u64" where
  "bench_fnv1a data = foldl (\<lambda>hash b. (hash XOR ucast b) * 1099511628211) 14695981039346656037 data"

definition partition_idx :: "'d run_config \<Rightarrow> nat \<Rightarrow> nat" where
  "partition_idx cfg thread_id =
     (let n = max 1 (unat (rc_partitions cfg))
      in if rc_routing_key cfg = [] then (if rc_shared_partition cfg then 0 else thread_id mod n)
         else unat (bench_fnv1a (bytes_of (rc_routing_key cfg))) mod n)"

text \<open>\<open>idx\<close> is the product of the size and the quantile, cut to an integer.\<close>

definition percentile :: "'d list \<Rightarrow> nat \<Rightarrow> 'd::zero" where
  "percentile xs idx = (if xs = [] then 0 else xs ! min idx (length xs - 1))"

subsection \<open>Publishing\<close>

definition build_publish_payload :: "'d run_config \<Rightarrow> nat \<Rightarrow> bytes" where
  "build_publish_payload cfg part =
     (let msg_data = replicate (nat (rc_payload_sz cfg)) (byte_of CHR ''X'')
      in if rc_routing_key cfg \<noteq> []
         then encode_publish_v2_req \<lparr>pv_topic = take 255 (rc_topic cfg), pv_partition = 0xFFFF,
                pv_key = take 255 (rc_routing_key cfg), pv_payload_size = of_nat (length msg_data)\<rparr> @ msg_data
         else encode_publish_req \<lparr>pr_topic = take 255 (rc_topic cfg), pr_partition = of_nat part,
                pr_payload_size = of_nat (length msg_data)\<rparr> @ msg_data)"

datatype op_end = OpDone | OpFailed | OpRunning

text \<open>The loop that repeats one request while the broker is busy: what is sent, how often the broker was busy, how it ended,
  and what is left of the connection.\<close>

function publish_op ::
  "bool \<Rightarrow> op_code \<Rightarrow> bytes \<Rightarrow> send_result list \<Rightarrow> recv_result list \<Rightarrow> bytes \<times> nat \<times> op_end \<times> send_result list \<times> recv_result list" where
  "publish_op retry send_op pub_buf ss rs =
     (case write_frame send_op pub_buf ss of
        (out, ss1, None) \<Rightarrow> (out, 0, OpRunning, ss1, rs)
      | (out, ss1, Some False) \<Rightarrow> (out, 0, OpFailed, ss1, rs)
      | (out, ss1, Some True) \<Rightarrow>
          (case read_frame rs of
             (None, rs1) \<Rightarrow> (out, 0, OpFailed, ss1, rs1)
           | (Some resp, rs1) \<Rightarrow>
               if frame_op resp = ERR \<and> length (frame_payload resp) \<ge> 257
               then if frame_payload resp ! 0 = err_byte BUSY \<and> retry
                    then (case publish_op retry send_op pub_buf ss1 rs1 of (out', busy, e) \<Rightarrow> (out @ out', Suc busy, e))
                    else (out, 0, OpFailed, ss1, rs1)
               else (out, 0, OpDone, ss1, rs1)))"
  by pat_completeness auto
termination
  by (relation "measure (\<lambda>(retry, op, buf, ss, rs). pending rs)") (auto dest: read_frame_pending [OF sym])

declare publish_op.simps [simp del]

text \<open>One request after the other; \<open>lat\<close> gives the time that each one takes. The results: the bytes sent, the latencies, the number of
  completed operations, the number of retries, and how it ended.\<close>

fun sync_ops ::
  "bool \<Rightarrow> op_code \<Rightarrow> bytes \<Rightarrow> (nat \<Rightarrow> 'd) \<Rightarrow> nat \<Rightarrow> nat \<Rightarrow> send_result list \<Rightarrow> recv_result list
     \<Rightarrow> bytes \<times> 'd list \<times> nat \<times> nat \<times> op_end \<times> send_result list \<times> recv_result list" where
  "sync_ops retry send_op pub_buf lat 0 i ss rs = ([], [], 0, 0, OpDone, ss, rs)"
| "sync_ops retry send_op pub_buf lat (Suc n) i ss rs =
     (case publish_op retry send_op pub_buf ss rs of
        (out, busy, OpDone, ss1, rs1) \<Rightarrow>
          (case sync_ops retry send_op pub_buf lat n (Suc i) ss1 rs1 of
             (out', lats, completed, busy', e) \<Rightarrow> (out @ out', lat i # lats, Suc completed, busy + busy', e))
      | (out, busy, e) \<Rightarrow> (out, [], 0, busy, e))"

text \<open>A batch of requests, and then the replies to them.\<close>

fun pipeline_writes :: "nat \<Rightarrow> op_code \<Rightarrow> bytes \<Rightarrow> send_result list \<Rightarrow> bytes \<times> op_end \<times> send_result list" where
  "pipeline_writes 0 send_op pub_buf ss = ([], OpDone, ss)"
| "pipeline_writes (Suc n) send_op pub_buf ss =
     (case write_frame send_op pub_buf ss of
        (out, ss1, None) \<Rightarrow> (out, OpRunning, ss1)
      | (out, ss1, Some False) \<Rightarrow> (out, OpFailed, ss1)
      | (out, ss1, Some True) \<Rightarrow> (case pipeline_writes n send_op pub_buf ss1 of (out', e) \<Rightarrow> (out @ out', e)))"

fun pipeline_reads :: "nat \<Rightarrow> recv_result list \<Rightarrow> bool \<times> recv_result list" where
  "pipeline_reads 0 rs = (True, rs)"
| "pipeline_reads (Suc n) rs =
     (case read_frame rs of
        (None, rs1) \<Rightarrow> (False, rs1)
      | (Some resp, rs1) \<Rightarrow> if frame_op resp = ERR then (False, rs1) else pipeline_reads n rs1)"

function pipe_ops ::
  "nat \<Rightarrow> op_code \<Rightarrow> bytes \<Rightarrow> nat \<Rightarrow> send_result list \<Rightarrow> recv_result list
     \<Rightarrow> bytes \<times> nat \<times> op_end \<times> send_result list \<times> recv_result list" where
  "pipe_ops pipeline send_op pub_buf ops ss rs =
     (if ops = 0 then ([], 0, OpDone, ss, rs)
      else if pipeline = 0 then ([], 0, OpRunning, ss, rs)
      else let batch = min pipeline ops
           in case pipeline_writes batch send_op pub_buf ss of
                (out, OpDone, ss1) \<Rightarrow>
                  (case pipeline_reads batch rs of
                     (False, rs1) \<Rightarrow> (out, 0, OpFailed, ss1, rs1)
                   | (True, rs1) \<Rightarrow>
                       (case pipe_ops pipeline send_op pub_buf (ops - batch) ss1 rs1 of
                          (out', completed, e) \<Rightarrow> (out @ out', batch + completed, e)))
              | (out, e, ss1) \<Rightarrow> (out, 0, e, ss1, rs))"
  by pat_completeness auto
termination
  by (relation "measure (\<lambda>(pipeline, op, buf, ops, ss, rs). ops)") auto

declare pipe_ops.simps [simp del]

definition execute_publish_ops ::
  "'d run_config \<Rightarrow> bytes \<Rightarrow> op_code \<Rightarrow> (nat \<Rightarrow> 'd) \<Rightarrow> int \<Rightarrow> send_result list \<Rightarrow> recv_result list
     \<Rightarrow> bytes \<times> 'd list \<times> nat \<times> nat \<times> op_end \<times> send_result list \<times> recv_result list" where
  "execute_publish_ops cfg pub_buf send_op lat ops ss rs =
     (if rc_pipeline cfg = 1 then sync_ops (rc_retry_on_busy cfg) send_op pub_buf lat (nat ops) 0 ss rs
      else case pipe_ops (nat (rc_pipeline cfg)) send_op pub_buf (nat ops) ss rs of (out, completed, e) \<Rightarrow> (out, [], completed, 0, e))"

subsection \<open>Workers\<close>

record worker_env =
  we_bootstrap :: "connection option"
  we_leader :: "connection option"

record 'd bench_results =
  res_latencies_us :: "'d list"
  res_completed :: nat
  res_busy_retries :: nat

definition Results :: "'d bench_results" where
  "Results = \<lparr>res_latencies_us = [], res_completed = 0, res_busy_retries = 0\<rparr>"

text \<open>What a worker does that others see: it signals that it is ready and waits for the start, and it sends.\<close>

datatype worker_event = SignalReady | SendTo "string \<times> u16" bytes

text \<open>The events, and the results once the worker has ended. \<open>lat\<close> are the times of the measured operations.\<close>

definition run_worker ::
  "'d run_config \<Rightarrow> nat \<Rightarrow> int \<Rightarrow> (nat \<Rightarrow> 'd) \<Rightarrow> worker_env \<Rightarrow> worker_event list \<times> 'd bench_results option" where
  "run_worker cfg thread_id ops lat env =
     (let part = partition_idx cfg thread_id
      in case bench_connect_to_leader (rc_topic cfg) (of_nat part) (we_bootstrap env) of
           None \<Rightarrow> ([], None)
         | Some None \<Rightarrow> ([SignalReady], Some Results)
         | Some (Some addr) \<Rightarrow>
             (case we_leader env of
                None \<Rightarrow> ([SignalReady], Some Results)
              | Some (ss, rs) \<Rightarrow>
                  let pub_buf = build_publish_payload cfg part;
                      send_op = (if rc_routing_key cfg = [] then PUBLISH else PUBLISH_V2)
                  in case (if rc_warmup_ops cfg > 0
                           then execute_publish_ops cfg pub_buf send_op lat (rc_warmup_ops cfg) ss rs
                           else ([], [], 0, 0, OpDone, ss, rs)) of
                       (out, _, _, _, OpRunning, _) \<Rightarrow> ([SendTo addr out], None)
                     | (out, _, _, _, OpFailed, _) \<Rightarrow> ([SendTo addr out, SignalReady], Some Results)
                     | (out, _, _, _, OpDone, ss1, rs1) \<Rightarrow>
                         (case execute_publish_ops cfg pub_buf send_op lat ops ss1 rs1 of
                            (out', lats, completed, busy, e, _) \<Rightarrow>
                              ([SendTo addr out, SignalReady, SendTo addr out'],
                               if e = OpRunning then None
                               else Some \<lparr>res_latencies_us = lats, res_completed = completed, res_busy_retries = busy\<rparr>))))"

subsection \<open>The replication observer\<close>

text \<open>The requests of \<^verbatim>\<open>start\<close>, one on a connection for each partition; the second component is its result. \<open>None\<close>: still sending.\<close>

fun observer_start :: "string \<Rightarrow> u16 \<Rightarrow> connection option list \<Rightarrow> nat \<Rightarrow> bytes list \<times> bool option" where
  "observer_start topic observed conns part =
     (if \<not> part < max 1 (unat observed) then ([], Some True)
      else case conns of
             [] \<Rightarrow> ([], Some False)
           | None # _ \<Rightarrow> ([], Some False)
           | Some (ss, rs) # conns' \<Rightarrow>
               (case write_frame FETCH_LOG (encode_fetch_log_req \<lparr>fl_topic = take 255 topic, fl_partition = of_nat part, fl_start_offset = 0,
                        fl_follower_id = of_nat (9000 + part)\<rparr>) ss of
                  (out, _, None) \<Rightarrow> ([out], None)
                | (out, _, Some False) \<Rightarrow> ([out], Some False)
                | (out, _, Some True) \<Rightarrow>
                    (case observer_start topic observed conns' (Suc part) of (outs, ok) \<Rightarrow> (out # outs, ok))))"

declare observer_start.simps [simp del]

text \<open>\<^verbatim>\<open>drain_socket\<close> until the connection ends: the bytes observed and the number of sync frames.\<close>

function drain_socket :: "recv_result list \<Rightarrow> nat \<times> nat" where
  "drain_socket rs =
     (case read_frame rs of
        (None, _) \<Rightarrow> (0, 0)
      | (Some resp, rs1) \<Rightarrow>
          (case drain_socket rs1 of
             (observed, syncs) \<Rightarrow>
               (length (frame_payload resp) + 5 + observed, (if frame_op resp = REPLICA_SYNC then 1 else 0) + syncs)))"
  by pat_completeness auto
termination
  by (relation "measure pending") (auto dest: read_frame_pending [OF sym])

declare drain_socket.simps [simp del]

subsection \<open>main\<close>

text \<open>\<open>None\<close>: the request is still being sent.\<close>

definition create_or_verify_topic :: "'d run_config \<Rightarrow> connection option \<Rightarrow> fault + bool option" where
  "create_or_verify_topic cfg conn =
     (case conn of
        None \<Rightarrow> Inr (Some False)
      | Some (ss, rs) \<Rightarrow>
          (case snd (snd (write_frame CREATE_TOPIC (encode_create_topic_req
                   \<lparr>ct_name = take 255 (rc_topic cfg), ct_num_partitions = rc_partitions cfg\<rparr>) ss)) of
             None \<Rightarrow> Inr None
           | Some False \<Rightarrow> Inr (Some False)
           | Some True \<Rightarrow>
               (case fst (read_frame rs) of
                  None \<Rightarrow> Inr (Some False)
                | Some resp \<Rightarrow>
                    if frame_op resp = ERR \<and> length (frame_payload resp) \<ge> 257
                    then map_sum id (\<lambda>(code, msg). Some (msg = ''Topic already exists'')) (error_text (frame_payload resp))
                    else Inr (Some True))))"

definition bench_valid :: "'d run_config \<Rightarrow> bool" where
  "bench_valid cfg \<longleftrightarrow>
     \<not> (rc_num_threads cfg \<le> 0 \<or> rc_total_ops cfg \<le> 0 \<or> rc_pipeline cfg \<le> 0 \<or> rc_payload_sz cfg \<le> 0 \<or> rc_partitions cfg = 0)"

text \<open>The number of operations of a worker.\<close>

definition thread_ops :: "'d run_config \<Rightarrow> nat \<Rightarrow> int" where
  "thread_ops cfg t =
     (let base_ops = rc_total_ops cfg div rc_num_threads cfg; extra_ops = rc_total_ops cfg mod rc_num_threads cfg
      in base_ops + (if int t < extra_ops then 1 else 0))"

definition run_workers ::
  "'d run_config \<Rightarrow> (nat \<Rightarrow> nat \<Rightarrow> 'd) \<Rightarrow> (nat \<Rightarrow> worker_env) \<Rightarrow> (worker_event list \<times> 'd bench_results option) list" where
  "run_workers cfg lat envs =
     map (\<lambda>t. run_worker cfg t (thread_ops cfg t) (lat t) (envs t)) [0..<nat (rc_num_threads cfg)]"

text \<open>\<^verbatim>\<open>ready_cv.wait\<close> returns when the count of ready workers has reached the number of threads; it stays there.\<close>

definition ready_count :: "(worker_event list \<times> 'd bench_results option) list \<Rightarrow> nat" where
  "ready_count ws = length (filter (\<lambda>ev. ev = SignalReady) (concat (map fst ws)))"

record 'd bench_report =
  rp_completed :: nat
  rp_busy_retries :: nat
  rp_latencies :: "'d list"       \<comment> \<open>sorted\<close>

definition total_results :: "'d::linorder bench_results list \<Rightarrow> 'd bench_report" where
  "total_results rs =
     \<lparr>rp_completed = sum_list (map res_completed rs), rp_busy_retries = sum_list (map res_busy_retries rs),
      rp_latencies = sort (concat (map res_latencies_us rs))\<rparr>"

text \<open>The printed latencies: minimum, median, the 90th, 99th and 99.9th percentile, and maximum. \<open>scale q n\<close> is the
  product of \<open>n\<close> and \<open>q\<close> thousandths, cut to an integer.\<close>

definition latency_report :: "(nat \<Rightarrow> nat \<Rightarrow> nat) \<Rightarrow> 'd::zero list \<Rightarrow> 'd list" where
  "latency_report scale xs =
     [xs ! 0, percentile xs (scale 500 (length xs)), percentile xs (scale 900 (length xs)), percentile xs (scale 990 (length xs)),
      percentile xs (scale 999 (length xs)), last xs]"

datatype 'd bench_end = BenchExit int | BenchRunning | BenchReport "'d bench_report"

text \<open>The environment: the connection for the topic, the workers', the observer's, and what operations take.\<close>

definition bench_main ::
  "(string \<Rightarrow> fault + 'd) \<Rightarrow> string list \<Rightarrow> connection option \<Rightarrow> (nat \<Rightarrow> worker_env) \<Rightarrow> connection option list \<Rightarrow> (nat \<Rightarrow> nat \<Rightarrow> 'd)
     \<Rightarrow> fault + ('d::{linorder, zero}) bench_end" where
  "bench_main stod args setup envs observers lat =
     (case bench_args stod args RunConfig of
        Inl e \<Rightarrow> Inl e
      | Inr cfg \<Rightarrow>
          if \<not> bench_valid cfg then Inr (BenchExit 1)
          else case (if rc_create_topic cfg then create_or_verify_topic cfg setup else Inr (Some True)) of
                 Inl e \<Rightarrow> Inl e
               | Inr None \<Rightarrow> Inr BenchRunning
               | Inr (Some False) \<Rightarrow> Inr (BenchExit 1)
               | Inr (Some True) \<Rightarrow>
                   let ws = run_workers cfg lat envs;
                       observed = (if rc_shared_partition cfg then 1 else rc_partitions cfg)
                   in if ready_count ws < nat (rc_num_threads cfg) then Inr BenchRunning
                      else case (if rc_scenario cfg = ''live-follower'' then snd (observer_start (rc_topic cfg) observed observers 0) else Some True) of
                             None \<Rightarrow> Inr BenchRunning
                           | Some started \<Rightarrow>
                               if list_ex (\<lambda>w. snd w = None) ws then Inr BenchRunning
                               else if \<not> started then Inr (BenchExit 1)
                               else let report = total_results (map (the \<circ> snd) ws)
                                    in if rp_completed report = 0 then Inr (BenchExit 1) else Inr (BenchReport report))"

section \<open>Routing\<close>

lemma bench_fnv1a_eq: "bench_fnv1a = fnv1a"
  by (simp add: bench_fnv1a_def fnv1a_def fun_eq_iff)

lemma partition_idx_choose:
  "rc_routing_key cfg \<noteq> [] \<Longrightarrow> rc_partitions cfg \<noteq> 0 \<Longrightarrow>
     of_nat (partition_idx cfg t) = choose_partition (rc_routing_key cfg) rr (unat (rc_partitions cfg))"
  by (simp add: partition_idx_def choose_partition_def bench_fnv1a_eq Let_def max_def word_le_nat_alt unat_gt_0 Suc_leI)

lemma partition_idx_range: "rc_partitions cfg \<noteq> 0 \<Longrightarrow> partition_idx cfg t < unat (rc_partitions cfg)"
  by (auto simp: partition_idx_def Let_def max_def unat_gt_0 Suc_leI not_le)

section \<open>Dividing the work\<close>

lemma sum_thread_ops:
  assumes "0 < rc_num_threads cfg" "0 \<le> rc_total_ops cfg"
  shows "sum_list (map (thread_ops cfg) [0..<nat (rc_num_threads cfg)]) = rc_total_ops cfg"
proof -
  define n where "n = nat (rc_num_threads cfg)"
  define b where "b = rc_total_ops cfg div rc_num_threads cfg"
  define x where "x = rc_total_ops cfg mod rc_num_threads cfg"
  have x: "0 \<le> x" "x < int n" using assms by (simp_all add: x_def n_def)
  have "sum_list (map (\<lambda>t. b + (if int t < x then 1 else 0)) [0..<k]) = int k * b + min (int k) x" for k
    using x(1) by (induction k) (auto simp: algebra_simps)
  moreover have "thread_ops cfg = (\<lambda>t. b + (if int t < x then 1 else 0))" by (simp add: fun_eq_iff thread_ops_def Let_def b_def x_def)
  moreover have "int n * b + x = rc_total_ops cfg" using assms by (simp add: n_def b_def x_def)
  ultimately show ?thesis using x(2) unfolding n_def [symmetric] by simp
qed

lemma thread_ops_nonneg: "bench_valid cfg \<Longrightarrow> 0 \<le> thread_ops cfg t"
  by (auto simp: bench_valid_def thread_ops_def Let_def not_le pos_imp_zdiv_nonneg_iff intro: add_nonneg_nonneg)

section \<open>The start barrier\<close>

text \<open>A worker is stuck before the barrier when its metadata request or its warm-up does not end.\<close>

definition stuck_before_start :: "'d run_config \<Rightarrow> nat \<Rightarrow> (nat \<Rightarrow> 'd) \<Rightarrow> worker_env \<Rightarrow> bool" where
  "stuck_before_start cfg t lat env = (SignalReady \<notin> set (fst (run_worker cfg t 0 lat env)))"

text \<open>The phases of a worker: connecting, warming up, measuring.\<close>

lemma run_worker_cases:
  obtains (stuck) "\<And>ops. run_worker cfg t ops lat env = ([], None)"
  | (unconnected) "\<And>ops. run_worker cfg t ops lat env = ([SignalReady], Some Results)"
  | (warming) addr out where "\<And>ops. run_worker cfg t ops lat env = ([SendTo addr out], None)"
  | (warm_failed) addr out where "\<And>ops. run_worker cfg t ops lat env = ([SendTo addr out, SignalReady], Some Results)"
  | (measured) addr out where
      "\<And>ops. \<exists>out' res. run_worker cfg t ops lat env = ([SendTo addr out, SignalReady, SendTo addr out'], res)"
proof (cases "bench_connect_to_leader (rc_topic cfg) (of_nat (partition_idx cfg t)) (we_bootstrap env)")
  case None then show ?thesis using stuck by (simp add: run_worker_def Let_def)
next
  case (Some a)
  show ?thesis
  proof (cases "a = None \<or> we_leader env = None")
    case True then show ?thesis using unconnected Some by (cases a) (auto simp: run_worker_def Let_def)
  next
    case False
    then obtain addr ss rs where c: "a = Some addr" "we_leader env = Some (ss, rs)" by auto
    let ?w = "if rc_warmup_ops cfg > 0
      then execute_publish_ops cfg (build_publish_payload cfg (partition_idx cfg t)) (if rc_routing_key cfg = [] then PUBLISH else PUBLISH_V2) lat
             (rc_warmup_ops cfg) ss rs else ([], [], 0, 0, OpDone, ss, rs)"
    obtain out l n k e ss1 rs1 where w: "?w = (out, l, n, k, e, ss1, rs1)" by (metis prod.exhaust)
    show ?thesis
    proof (cases e)
      case OpDone then show ?thesis using measured [of addr out] Some c w by (simp add: run_worker_def Let_def split: prod.split)
    next
      case OpFailed then show ?thesis using warm_failed [of addr out] Some c w by (simp add: run_worker_def Let_def)
    next
      case OpRunning then show ?thesis using warming [of addr out] Some c w by (simp add: run_worker_def Let_def)
    qed
  qed
qed

lemma run_worker_signals_once:
  "length (filter (\<lambda>ev. ev = SignalReady) (fst (run_worker cfg t ops lat env))) = (if stuck_before_start cfg t lat env then 0 else 1)"
proof (cases rule: run_worker_cases [of cfg t lat env])
  case (measured addr out)
  obtain o1 r1 o2 r2 where "run_worker cfg t ops lat env = ([SendTo addr out, SignalReady, SendTo addr o1], r1)"
    "run_worker cfg t 0 lat env = ([SendTo addr out, SignalReady, SendTo addr o2], r2)" using measured by meson
  then show ?thesis by (simp add: stuck_before_start_def)
qed (simp_all add: stuck_before_start_def)

lemma sum_list_01: "sum_list (map (\<lambda>x. if P x then 0 else 1) xs) = length (filter (\<lambda>x. \<not> P x) xs)"
  by (induction xs) auto

lemma ready_count_workers:
  "ready_count (run_workers cfg lat envs)
     = length (filter (\<lambda>t. \<not> stuck_before_start cfg t (lat t) (envs t)) [0..<nat (rc_num_threads cfg)])"
  by (simp add: ready_count_def run_workers_def filter_concat length_concat comp_def run_worker_signals_once sum_list_01 cong: map_cong)

lemma barrier_opens:
  "ready_count (run_workers cfg lat envs) = nat (rc_num_threads cfg)
     \<longleftrightarrow> (\<forall>t < nat (rc_num_threads cfg). \<not> stuck_before_start cfg t (lat t) (envs t))"
  unfolding ready_count_workers
  by (metis (no_types, lifting) atLeastLessThan_upt diff_zero filter_id_conv length_filter_less length_upt less_irrefl lessThan_atLeast0 lessThan_iff)

section \<open>Publishing\<close>

lemma write_frame_big:
  assumes "buf \<noteq> []" "length buf \<le> k" "5 \<le> k"
  shows "write_frame op buf (Sent k # Sent k # ss) = (encode_frame \<lparr>frame_op = op, frame_payload = buf\<rparr>, ss, Some True)"
proof -
  have w: "write_exact bs (Sent k # rs) = (bs, rs, Some True)" if "bs \<noteq> []" "length bs \<le> k" for bs rs
    using that by (cases rs) simp_all
  show ?thesis using assms w [of "write_be32 (1 + of_nat (length buf)) @ [op]" "Sent k # ss"] w [of buf ss]
    by (simp add: write_frame_def encode_frame_def mem_swap)
qed

lemma read_busy:
  assumes "delivers rs (encode_error BUSY msg @ rest)" "length msg \<le> 255"
  shows "\<exists>p rs'. read_frame rs = (Some \<lparr>frame_op = ERR, frame_payload = p\<rparr>, rs') \<and> length p = 257 \<and> p ! 0 = err_byte BUSY \<and> delivers rs' rest"
proof -
  let ?p = "encode_error_resp \<lparr>er_code = err_byte BUSY, er_msg = msg\<rparr>"
  have len: "length ?p = 257" using error.width_enc assms(2) by simp
  have "delivers rs (encode_frame \<lparr>frame_op = ERR, frame_payload = ?p\<rparr> @ rest)" using assms(1) by (simp add: encode_error_def)
  from read_frame_delivers [OF this] len obtain rs' where "read_frame rs = (Some \<lparr>frame_op = ERR, frame_payload = ?p\<rparr>, rs')" "delivers rs' rest" by auto
  moreover have "?p ! 0 = err_byte BUSY" by (simp add: encode_error_resp_def)
  ultimately show ?thesis using len by blast
qed

lemma read_acked:
  assumes "delivers rs (encode_ack v @ rest)"
  shows "\<exists>rs'. read_frame rs = (Some \<lparr>frame_op = ACK, frame_payload = write_be64 v\<rparr>, rs') \<and> delivers rs' rest"
  using read_frame_delivers [of rs "\<lparr>frame_op = ACK, frame_payload = write_be64 v\<rparr>" rest] assms by (simp add: encode_ack_def)

text \<open>A socket that takes whole writes of the given size.\<close>

definition takes_writes :: "nat \<Rightarrow> nat \<Rightarrow> send_result list" where
  "takes_writes z n = replicate (2 * n) (Sent z)"

lemma takes_writes_Suc: "takes_writes z (Suc n) = Sent z # Sent z # takes_writes z n"
  by (simp add: takes_writes_def)

lemma publish_op_acked:
  assumes "delivers rs (concat (replicate k (encode_error BUSY msg)) @ encode_ack v @ rest)" "length msg \<le> 255" "retry \<or> k = 0"
    and "buf \<noteq> []" "length buf \<le> z" "5 \<le> z"
  shows "\<exists>rs'. publish_op retry op buf (takes_writes z (Suc k + n)) rs
       = (concat (replicate (Suc k) (encode_frame \<lparr>frame_op = op, frame_payload = buf\<rparr>)), k, OpDone, takes_writes z n, rs') \<and> delivers rs' rest"
  using assms(1,3)
proof (induction k arbitrary: rs)
  case 0
  then obtain rs' where "read_frame rs = (Some \<lparr>frame_op = ACK, frame_payload = write_be64 v\<rparr>, rs')" "delivers rs' rest"
    using read_acked by fastforce
  moreover have "ACK \<noteq> ERR" by (simp add: op_code_defs)
  ultimately show ?case
    by (subst publish_op.simps) (simp add: takes_writes_Suc write_frame_big [OF assms(4-6)])
next
  case (Suc k)
  from Suc.prems(1) have "delivers rs (encode_error BUSY msg @ (concat (replicate k (encode_error BUSY msg)) @ encode_ack v @ rest))" by simp
  from read_busy [OF this assms(2)] obtain p rs1 where
    r: "read_frame rs = (Some \<lparr>frame_op = ERR, frame_payload = p\<rparr>, rs1)" "length p = 257" "p ! 0 = err_byte BUSY"
      "delivers rs1 (concat (replicate k (encode_error BUSY msg)) @ encode_ack v @ rest)" by blast
  from Suc.IH [OF r(4)] Suc.prems(2) obtain rs2 where
    i: "publish_op retry op buf (takes_writes z (Suc k + n)) rs1
      = (concat (replicate (Suc k) (encode_frame \<lparr>frame_op = op, frame_payload = buf\<rparr>)), k, OpDone, takes_writes z n, rs2)" "delivers rs2 rest" by auto
  show ?case using r(1-3) i Suc.prems(2)
    by (subst publish_op.simps) (simp add: takes_writes_Suc write_frame_big [OF assms(4-6)])
qed

text \<open>The replies to a sequence of operations: some times that the broker is busy, and then the acknowledgement.\<close>

definition replies_to :: "string \<Rightarrow> (nat \<times> u64) list \<Rightarrow> bytes" where
  "replies_to msg rps = concat (map (\<lambda>(k, v). concat (replicate k (encode_error BUSY msg)) @ encode_ack v) rps)"

lemma sync_ops_acked:
  assumes "delivers rs (replies_to msg rps @ rest)" "length msg \<le> 255" "retry \<or> (\<forall>r \<in> set rps. fst r = 0)"
    and "buf \<noteq> []" "length buf \<le> z" "5 \<le> z"
  shows "\<exists>rs'. sync_ops retry op buf lat (length rps) i (takes_writes z (length rps + sum_list (map fst rps) + n)) rs
       = (concat (replicate (length rps + sum_list (map fst rps)) (encode_frame \<lparr>frame_op = op, frame_payload = buf\<rparr>)),
          map lat [i..<i + length rps], length rps, sum_list (map fst rps), OpDone, takes_writes z n, rs') \<and> delivers rs' rest"
  using assms(1,3)
proof (induction rps arbitrary: rs i)
  case Nil then show ?case by (simp add: replies_to_def)
next
  case (Cons rp rps)
  obtain k v where rp: "rp = (k, v)" by (cases rp)
  let ?N = "length rps + sum_list (map fst rps) + n" and ?f = "encode_frame \<lparr>frame_op = op, frame_payload = buf\<rparr>"
  have "delivers rs (concat (replicate k (encode_error BUSY msg)) @ encode_ack v @ (replies_to msg rps @ rest))"
    using Cons.prems(1) by (simp add: replies_to_def rp)
  from publish_op_acked [OF this assms(2) _ assms(4-6), of retry op ?N] Cons.prems(2) obtain rs1 where
    p: "publish_op retry op buf (takes_writes z (Suc k + ?N)) rs = (concat (replicate (Suc k) ?f), k, OpDone, takes_writes z ?N, rs1)"
      "delivers rs1 (replies_to msg rps @ rest)" by (auto simp: rp)
  from Cons.IH [OF p(2), of "Suc i"] Cons.prems(2) obtain rs2 where
    q: "sync_ops retry op buf lat (length rps) (Suc i) (takes_writes z ?N) rs1
      = (concat (replicate (length rps + sum_list (map fst rps)) ?f), map lat [Suc i..<Suc i + length rps], length rps, sum_list (map fst rps), OpDone,
         takes_writes z n, rs2)" "delivers rs2 rest" by auto
  have out: "concat (replicate (Suc k) ?f) @ concat (replicate (length rps + sum_list (map fst rps)) ?f)
      = concat (replicate (length (rp # rps) + sum_list (map fst (rp # rps))) ?f)"
    by (simp add: rp replicate_add [symmetric] ac_simps flip: concat_append replicate_Suc)
  have lats: "lat i # map lat [Suc i..<Suc i + length rps] = map lat [i..<i + length (rp # rps)]"
    using upt_conv_Cons [of i "Suc (i + length rps)"] by (simp del: upt_Suc)
  have N: "length (rp # rps) + sum_list (map fst (rp # rps)) + n = Suc k + ?N" by (simp add: rp)
  have "sync_ops retry op buf lat (length (rp # rps)) i (takes_writes z (Suc k + ?N)) rs
      = (concat (replicate (Suc k) ?f) @ concat (replicate (length rps + sum_list (map fst rps)) ?f), lat i # map lat [Suc i..<Suc i + length rps],
         Suc (length rps), k + sum_list (map fst rps), OpDone, takes_writes z n, rs2)"
    unfolding length_Cons sync_ops.simps p(1) prod.case op_end.case q(1) ..
  then show ?case unfolding N out lats using q(2) by (simp add: rp)
qed

lemma pipeline_writes_ok:
  assumes "buf \<noteq> []" "length buf \<le> z" "5 \<le> z"
  shows "pipeline_writes m op buf (takes_writes z (m + n)) = (concat (replicate m (encode_frame \<lparr>frame_op = op, frame_payload = buf\<rparr>)), OpDone, takes_writes z n)"
  by (induction m) (simp_all add: takes_writes_Suc write_frame_big [OF assms])

lemma pipeline_reads_acked:
  "delivers rs (concat (map encode_ack vs) @ rest) \<Longrightarrow> \<exists>rs'. pipeline_reads (length vs) rs = (True, rs') \<and> delivers rs' rest"
proof (induction vs arbitrary: rs)
  case (Cons v vs)
  then obtain rs1 where "read_frame rs = (Some \<lparr>frame_op = ACK, frame_payload = write_be64 v\<rparr>, rs1)" "delivers rs1 (concat (map encode_ack vs) @ rest)"
    using read_acked [of rs v] by auto
  moreover have "ACK \<noteq> ERR" by (simp add: op_code_defs)
  ultimately show ?case using Cons.IH by simp
qed simp

lemma pipe_ops_acked:
  assumes "0 < p" "buf \<noteq> []" "length buf \<le> z" "5 \<le> z" "delivers rs (concat (map encode_ack vs) @ rest)"
  shows "\<exists>rs'. pipe_ops p op buf (length vs) (takes_writes z (length vs + n)) rs
     = (concat (replicate (length vs) (encode_frame \<lparr>frame_op = op, frame_payload = buf\<rparr>)), length vs, OpDone, takes_writes z n, rs') \<and> delivers rs' rest"
  using assms(5)
proof (induction vs arbitrary: rs rule: length_induct)
  case (1 vs)
  let ?f = "encode_frame \<lparr>frame_op = op, frame_payload = buf\<rparr>"
  show ?case
  proof (cases "vs = []")
    case True then show ?thesis using "1.prems" by (simp add: pipe_ops.simps)
  next
    case False
    define b where "b = min p (length vs)"
    have b: "0 < b" "b \<le> length vs" using False assms(1) by (auto simp: b_def)
    have N: "length vs + n = b + (length (drop b vs) + n)" using b by simp
    have w: "pipeline_writes b op buf (takes_writes z (length vs + n)) = (concat (replicate b ?f), OpDone, takes_writes z (length (drop b vs) + n))"
      unfolding N by (rule pipeline_writes_ok [OF assms(2-4)])
    have "concat (map encode_ack vs) = concat (map encode_ack (take b vs)) @ concat (map encode_ack (drop b vs))"
      by (metis append_take_drop_id concat_append map_append)
    with "1.prems" have "delivers rs (concat (map encode_ack (take b vs)) @ (concat (map encode_ack (drop b vs)) @ rest))" by simp
    from pipeline_reads_acked [OF this] b obtain rs1 where r: "pipeline_reads b rs = (True, rs1)" "delivers rs1 (concat (map encode_ack (drop b vs)) @ rest)" by auto
    have "length (drop b vs) < length vs" using b by simp
    with "1.IH" r(2) obtain rs2 where i: "pipe_ops p op buf (length (drop b vs)) (takes_writes z (length (drop b vs) + n)) rs1
        = (concat (replicate (length (drop b vs)) ?f), length (drop b vs), OpDone, takes_writes z n, rs2)" "delivers rs2 rest" by blast
    have "concat (replicate b ?f) @ concat (replicate (length (drop b vs)) ?f) = concat (replicate (length vs) ?f)"
      using b by (simp add: replicate_add [symmetric] flip: concat_append)
    then show ?thesis using False assms(1) w r(1) i b
      by (subst pipe_ops.simps) (simp add: Let_def b_def [symmetric])
  qed
qed

lemma delivers_one: "bs \<noteq> [] \<Longrightarrow> delivers [RecvData bs] bs"
  unfolding delivers_def by (rule exI [of _ "[bs]"]) simp

section \<open>The observer and the report\<close>

lemma drain_socket_frames:
  assumes "delivers rs (encode_frames fs)" "\<forall>f \<in> set fs. length (frame_payload f) + 1 < 2 ^ 32"
  shows "drain_socket rs = (length (encode_frames fs), length (filter (\<lambda>f. frame_op f = REPLICA_SYNC) fs))"
  using assms
proof (induction fs arbitrary: rs)
  case Nil
  then have "rs = []" by (auto simp: delivers_def) (metis list.set_intros(1) neq_Nil_conv)
  then show ?case by (simp add: drain_socket.simps read_frame_def read_exact.simps)
next
  case (Cons f fs)
  then obtain rs1 where "read_frame rs = (Some f, rs1)" "delivers rs1 (encode_frames fs)"
    using read_frame_delivers [of rs f "encode_frames fs"] by auto
  then show ?case using Cons by (subst drain_socket.simps) (simp add: encode_frame_def)
qed

text \<open>The reported latencies are measured ones, in ascending order, when the products of the size with larger quantiles are not smaller.\<close>

lemma latency_report_sorted:
  fixes xs :: "'d::{linorder, zero} list"
  assumes "xs \<noteq> []" "sorted xs" "\<And>p q. p \<le> q \<Longrightarrow> scale p (length xs) \<le> scale q (length xs)"
  shows "sorted (latency_report scale xs)" "set (latency_report scale xs) \<subseteq> set xs"
proof -
  let ?i = "\<lambda>q. min (scale q (length xs)) (length xs - 1)"
  have p: "percentile xs (scale q (length xs)) = xs ! ?i q" for q using assms(1) by (simp add: percentile_def)
  have i: "?i q < length xs" for q using assms(1) by (simp add: min_less_iff_disj)
  have l: "last xs = xs ! (length xs - 1)" using assms(1) by (rule last_conv_nth)
  have m: "?i 500 \<le> ?i 900" "?i 900 \<le> ?i 990" "?i 990 \<le> ?i 999" by (rule min.mono [OF assms(3) order_refl], simp)+
  have n: "xs ! a \<le> xs ! b" if "a \<le> b" "b < length xs" for a b using assms(2) that by (rule sorted_nth_mono)
  have "xs ! 0 \<le> xs ! ?i 500" "xs ! ?i 500 \<le> xs ! ?i 900" "xs ! ?i 900 \<le> xs ! ?i 990" "xs ! ?i 990 \<le> xs ! ?i 999" "xs ! ?i 999 \<le> last xs"
    unfolding l using n [OF _ i, of 0 500] n [OF m(1) i] n [OF m(2) i] n [OF m(3) i] n [of "?i 999" "length xs - 1"] assms(1) by simp_all
  then show "sorted (latency_report scale xs)" unfolding latency_report_def p by (auto intro: order_trans)
  show "set (latency_report scale xs) \<subseteq> set xs" unfolding latency_report_def p using nth_mem [OF i] assms(1) by simp
qed

section \<open>Properties\<close>



text \<open>The load generator publishes to the partition whose leader it is connected to. A worker chooses a partition, by the hash of the key or by
  its number, and connects to the leader of that partition; when the topic has as many partitions as the generator was told,
  the broker takes each of its requests as a publish of the message to exactly that partition.\<close>

theorem bench_publishes_to_its_partition:
  assumes "broker_rel (rh_registry h) A" "room A" "rc_topic cfg \<noteq> []" "length (rc_topic cfg) \<le> 255" "length (rc_routing_key cfg) \<le> 255"
    and "rc_partitions cfg \<noteq> 0" "rc_partitions cfg = num_partitions (rc_topic cfg) (rh_registry h)" "nat (rc_payload_sz cfg) < 2 ^ 32"
    and "part = partition_idx cfg t" "msg = replicate (nat (rc_payload_sz cfg)) (byte_of CHR ''X'')"
  shows "\<exists>res. handle e \<lparr>frame_op = (if rc_routing_key cfg = [] then PUBLISH else PUBLISH_V2), frame_payload = build_publish_payload cfg part\<rparr> conn h = Inr res
     \<and> publish_outcome A (rc_topic cfg) (of_nat part) msg conn h res"
proof -
  let ?n = "num_partitions (rc_topic cfg) (rh_registry h)"
  let ?req = "\<lparr>pv_topic = rc_topic cfg, pv_partition = (if rc_routing_key cfg = [] then of_nat part else 0xFFFF), pv_key = rc_routing_key cfg,
    pv_payload_size = of_nat (length msg)\<rparr>"
  let ?f = "\<lparr>frame_op = PUBLISH_V2, frame_payload = encode_publish_v2_req ?req @ msg\<rparr>"
  have lt: "part < unat ?n" using partition_idx_range [of cfg t] assms(6,7,9) by simp
  have part: "unat (of_nat part :: u16) = part" using lt unat_lt_u16 [of ?n] by (intro unat_of_nat_u16) simp
  have free: "(of_nat part :: u16) \<noteq> 0xFFFF"
  proof
    assume p: "(of_nat part :: u16) = 0xFFFF"
    have "part = 65535" using part unfolding p by simp
    then show False using lt unat_lt_u16 [of ?n] by simp
  qed
  have route: "route ?n rr ?req = Some (of_nat part)" for rr
  proof (cases "rc_routing_key cfg = []")
    case True
    then show ?thesis using free part lt by (simp add: route_def word_le_nat_alt)
  next
    case False
    have "of_nat part = choose_partition (rc_routing_key cfg) 0 (unat ?n)" using partition_idx_choose [OF False assms(6)] assms(7,9) by simp
    from producer_route [OF _ this, of 0] False assms(6,7) show ?thesis by (simp add: route_def)
  qed
  have after: "after_route ?req conn = conn" using free by (simp add: after_route_def)
  have v: "length (pv_topic ?req) \<le> 255 \<and> length (pv_key ?req) \<le> 255" "pv_topic ?req \<noteq> []" using assms(3-5) by simp_all
  have len: "length msg < 2 ^ 32" using assms(8,10) by simp
  obtain res where res: "handle e ?f conn h = Inr res" "publish_outcome A (rc_topic cfg) (of_nat part) msg conn h res"
    using handle_publish_v2_ok [OF assms(1,2) _ v _ len, of ?f conn "of_nat part" e] route after assms(6,7)
    by (auto simp: handle_def op_code_defs)
  have "handle e \<lparr>frame_op = (if rc_routing_key cfg = [] then PUBLISH else PUBLISH_V2), frame_payload = build_publish_payload cfg part\<rparr> conn h
      = handle e ?f conn h"
  proof (cases "rc_routing_key cfg = []")
    case True
    then show ?thesis using publish_is_publish_v2_without_key [OF assms(4) len, of e "of_nat part" conn h] assms(4,10)
      by (simp add: build_publish_payload_def Let_def)
  next
    case False
    then show ?thesis using assms(4,5,10) by (simp add: build_publish_payload_def Let_def)
  qed
  then show ?thesis using res by simp
qed

theorem bench_publishes_to_its_partition_witness:
  "\<exists>res. handle example_env \<lparr>frame_op = PUBLISH, frame_payload = build_publish_payload (RunConfig\<lparr>rc_topic := ''t''\<rparr> :: nat run_config) 0\<rparr>
         (ConnectionState 100 4) example_handler = Inr res
     \<and> publish_outcome example_spec ''t'' 0 (replicate 256 (byte_of CHR ''X'')) (ConnectionState 100 4) example_handler res"
proof -
  let ?cfg = "RunConfig\<lparr>rc_topic := ''t''\<rparr> :: nat run_config"
  have c: "rc_topic ?cfg \<noteq> []" "length (rc_topic ?cfg) \<le> 255" "length (rc_routing_key ?cfg) \<le> 255" "rc_partitions ?cfg \<noteq> 0"
    "rc_partitions ?cfg = num_partitions (rc_topic ?cfg) (rh_registry example_handler)" "nat (rc_payload_sz ?cfg) < 2 ^ 32" "0 = partition_idx ?cfg 3"
    "rc_routing_key ?cfg = []" "rc_topic ?cfg = ''t''" "nat (rc_payload_sz ?cfg) = 256"
    by (simp_all add: RunConfig_def example_num partition_idx_def)
  show ?thesis
    using bench_publishes_to_its_partition [OF example_ok(1,2) c(1-7) refl, of example_env "ConnectionState 100 4"] unfolding c(8-10) by simp
qed

text \<open>The load generator's start barrier opens exactly when every worker gets through its metadata request and its warm-up: each
  worker signals at most once, whether it can connect or not and whether its warm-up succeeds or not; and the operations that
  the workers are given add up to the number that was asked for.\<close>

theorem bench_barrier_opens:
  assumes "bench_valid cfg"
  shows "(ready_count (run_workers cfg lat envs) = nat (rc_num_threads cfg)
       \<longleftrightarrow> (\<forall>t < nat (rc_num_threads cfg). \<not> stuck_before_start cfg t (lat t) (envs t)))
     \<and> ready_count (run_workers cfg lat envs) \<le> nat (rc_num_threads cfg)
     \<and> sum_list (map (thread_ops cfg) [0..<nat (rc_num_threads cfg)]) = rc_total_ops cfg"
  using barrier_opens [of cfg lat envs] sum_thread_ops [of cfg] assms length_filter_le [of _ "[0..<nat (rc_num_threads cfg)]"]
  by (simp add: bench_valid_def ready_count_workers)

theorem bench_barrier_opens_witness:
  "ready_count (run_workers (RunConfig :: nat run_config) (\<lambda>_ _. 0) (\<lambda>_. \<lparr>we_bootstrap = None, we_leader = None\<rparr>)) = 4"
proof -
  have "bench_valid (RunConfig :: nat run_config)" "nat (rc_num_threads (RunConfig :: nat run_config)) = 4"
    by (simp_all add: bench_valid_def RunConfig_def)
  then show ?thesis
    using bench_barrier_opens [of "RunConfig :: nat run_config" "\<lambda>_ _. 0" "\<lambda>_. \<lparr>we_bootstrap = None, we_leader = None\<rparr>"]
    by (simp add: stuck_before_start_def run_worker_def bench_connect_to_leader_def bench_fetch_metadata_def)
qed

end
