(* ===== verification/Fell_Micro_Bench.thy ===== *)
theory Fell_Micro_Bench
  imports Fell_Offset_Index Fell_Frame_Decoder Fell_Replica_Manager
begin

text \<open>
  The micro benchmarks of \<^verbatim>\<open>bench/micro\<close>, as far as they hold code of their own: the writer that fills the files of
  \<^verbatim>\<open>storage_bench.cpp\<close> without the store, the inputs of \<^verbatim>\<open>decoder_bench.cpp\<close>, and the metadata and the byte count of
  \<^verbatim>\<open>replication_bench.cpp\<close>. The lemmas show that each of them measures what it is meant to: the scan returns every record that
  was written, the lookup finds its record, an iteration decodes all the frames it feeds, and the bytes drained from a follower are
  the bytes that one batch sends to it.
\<close>

section \<open>Definitions\<close>

subsection \<open>storage\_bench.cpp\<close>

text \<open>\<open>log_r\<close> and \<open>idx_r\<close> are the results of the two \<^verbatim>\<open>writev\<close> calls; they are not looked at.\<close>

definition write_record_raw :: "int \<Rightarrow> int \<Rightarrow> u64 \<Rightarrow> u64 \<Rightarrow> bytes \<Rightarrow> dir \<Rightarrow> dir" where
  "write_record_raw log_r idx_r offset timestamp_ms payload d =
     (let log_path = log_name 0; idx_path = idx_name 0;
          d = open_file_append (open_file_append d log_path) idx_path;
          file_pos = of_nat (file_size d log_path);
          header = \<lparr>lh_offset = offset, lh_timestamp_ms = timestamp_ms, lh_payload_size = of_nat (length payload)\<rparr>;
          d = snd (write_file_vec log_r d log_path [encode_header header, payload])
      in snd (write_file_vec idx_r d idx_path [encode_index_entry \<lparr>ie_offset = offset, ie_file_position = file_pos\<rparr>]))"

text \<open>The loop of a fixture, on an empty directory.\<close>

fun write_fixture :: "(nat \<Rightarrow> int \<times> int) \<Rightarrow> bytes \<Rightarrow> nat \<Rightarrow> dir" where
  "write_fixture rs payload 0 = []"
| "write_fixture rs payload (Suc i) =
     write_record_raw (fst (rs i)) (snd (rs i)) (of_nat i) (1000 + of_nat i) payload (write_fixture rs payload i)"

definition ReaderFixture_SetUp :: "(nat \<Rightarrow> int \<times> int) \<Rightarrow> dir" where
  "ReaderFixture_SetUp rs = write_fixture rs (replicate 1024 0xEE) 10000"

definition SegmentReader_Scan :: "dir \<Rightarrow> fault + disk_record list" where
  "SegmentReader_Scan d = segment_read d (SegmentReader d ''00000000000000000000.log'') 0 0 10000"

definition IndexFixture_SetUp :: "(nat \<Rightarrow> int \<times> int) \<Rightarrow> fault + index_entry list" where
  "IndexFixture_SetUp rs = OffsetIndex (write_fixture rs (replicate 128 0xAA) 100000) ''00000000000000000000.idx''"

text \<open>The position is kept in a \<^verbatim>\<open>uint32_t\<close>.\<close>

definition OffsetIndex_Lookup :: "index_entry list \<Rightarrow> u32" where
  "OffsetIndex_Lookup index = ucast (lookup index 50000)"

subsection \<open>decoder\_bench.cpp\<close>

definition single_frame :: bytes where
  "single_frame = [0x00, 0x00, 0x00, 0x02, 0x01, 0xAA]"

definition batch_buffer :: bytes where
  "batch_buffer = concat (replicate 100 [0x00, 0x00, 0x00, 0x02, 0x02, 0xBB])"

text \<open>One iteration feeds its chunks one after the other; what it decodes is cleared before the next.\<close>

definition BM_Decoder_SingleFrame :: "frame_decoder \<Rightarrow> fault + frame list \<times> frame_decoder option" where
  "BM_Decoder_SingleFrame d = push_all [single_frame] d"

definition BM_Decoder_BatchFrames :: "frame_decoder \<Rightarrow> fault + frame list \<times> frame_decoder option" where
  "BM_Decoder_BatchFrames d = push_all [batch_buffer] d"

definition BM_Decoder_Fragmented :: "frame_decoder \<Rightarrow> fault + frame list \<times> frame_decoder option" where
  "BM_Decoder_Fragmented d = push_all (map (\<lambda>b. [b]) single_frame) d"

fun iterations :: "nat \<Rightarrow> (frame_decoder \<Rightarrow> fault + frame list \<times> frame_decoder option) \<Rightarrow> frame_decoder \<Rightarrow> (frame list list \<times> frame_decoder) option" where
  "iterations 0 body d = Some ([], d)"
| "iterations (Suc n) body d =
     (case body d of
        Inr (out, Some d') \<Rightarrow> map_option (\<lambda>(outs, d''). (out # outs, d'')) (iterations n body d')
      | _ \<Rightarrow> None)"

subsection \<open>replication\_bench.cpp\<close>

definition bench_replica :: "u32 \<Rightarrow> replica_state" where
  "bench_replica i = \<lparr>rs_broker_id = i, rs_next_offset = 0, rs_ack_offset = 0, rs_last_seen_ms = 0, rs_in_isr = True\<rparr>"

definition bench_init_meta :: "nat \<Rightarrow> partition_meta" where
  "bench_init_meta followers =
     \<lparr>pm_topic = ''bench-repl'', pm_partition_idx = 0, pm_role = Leader, pm_leader_id = 0, pm_epoch = 1,
      pm_replicas = bench_replica 0 # map (\<lambda>i. bench_replica (of_nat i)) [1..<Suc followers]\<rparr>"

definition template_records :: "nat \<Rightarrow> nat \<Rightarrow> committed_record list" where
  "template_records batch_size payload_size =
     map (\<lambda>i. \<lparr>rec_offset = of_nat i, rec_timestamp_ms = ucast (1000 + of_nat i :: u32), rec_payload = replicate payload_size 0xAB\<rparr>) [0..<batch_size]"

definition expected_bytes_per_follower :: "nat \<Rightarrow> nat \<Rightarrow> nat" where
  "expected_bytes_per_follower batch_size payload_size =
     sum_list (replicate batch_size (4 + 1 + sizeof_ReplicaSyncHeader + payload_size))"

definition send_fixture :: "(u32 \<times> int) list \<Rightarrow> replica_manager" where
  "send_fixture fds = rm_start (fold (\<lambda>(follower, write_fd). set_follower_fd follower write_fd) fds ReplicaManager)"

text \<open>The records of an iteration carry the offsets from \<open>base_offset\<close> on.\<close>

definition fanout_records :: "u64 \<Rightarrow> committed_record list \<Rightarrow> committed_record list" where
  "fanout_records base_offset rs = map2 (\<lambda>i r. r\<lparr>rec_offset := base_offset + of_nat i\<rparr>) [0..<length rs] rs"

section \<open>The files of the storage benchmark\<close>

text \<open>What the fixture is meant to have written.\<close>

definition fixture_records :: "bytes \<Rightarrow> nat \<Rightarrow> log_record list" where
  "fixture_records payload n = map (\<lambda>i. \<lparr>rec_offset = of_nat i, rec_timestamp_ms = 1000 + of_nat i, rec_payload = payload\<rparr>) [0..<n]"

definition fixture_entries :: "nat \<Rightarrow> nat \<Rightarrow> index_entry list" where
  "fixture_entries step n = map (\<lambda>i. \<lparr>ie_offset = of_nat i, ie_file_position = of_nat (i * step)\<rparr>) [0..<n]"

lemma length_fixture_records: "length (encode_records (fixture_records payload n)) = n * (20 + length payload)"
  by (induction n) (simp_all add: fixture_records_def)

text \<open>Every \<^verbatim>\<open>writev\<close> takes everything.\<close>

definition writes_all :: "nat \<Rightarrow> (nat \<Rightarrow> int \<times> int) \<Rightarrow> nat \<Rightarrow> bool" where
  "writes_all len rs n = list_all (\<lambda>i. 20 + int len \<le> fst (rs i) \<and> 16 \<le> snd (rs i)) [0..<n]"

lemma write_record_raw_complete:
  assumes "20 + int (length payload) \<le> log_r" "16 \<le> idx_r"
  shows "map_of (write_record_raw log_r idx_r off ts payload d) (log_name 0) =
       Some (file_contents d (log_name 0) @ encode_record \<lparr>rec_offset = off, rec_timestamp_ms = ts, rec_payload = payload\<rparr>)"
    "map_of (write_record_raw log_r idx_r off ts payload d) (idx_name 0) =
       Some (file_contents d (idx_name 0) @ encode_index_entry \<lparr>ie_offset = off, ie_file_position = of_nat (length (file_contents d (log_name 0)))\<rparr>)"
proof -
  have "nat log_r \<ge> 20 + length payload" "nat idx_r \<ge> 16" using assms by simp_all
  then show "map_of (write_record_raw log_r idx_r off ts payload d) (log_name 0) =
       Some (file_contents d (log_name 0) @ encode_record \<lparr>rec_offset = off, rec_timestamp_ms = ts, rec_payload = payload\<rparr>)"
    "map_of (write_record_raw log_r idx_r off ts payload d) (idx_name 0) =
       Some (file_contents d (idx_name 0) @ encode_index_entry \<lparr>ie_offset = off, ie_file_position = of_nat (length (file_contents d (log_name 0)))\<rparr>)"
    using assms by (simp_all add: write_record_raw_def Let_def write_file_vec_def iov_max_def file_size_def encode_record_def record_header_def)
qed

lemma fixture_contents:
  assumes "writes_all (length payload) rs n"
  shows "file_contents (write_fixture rs payload n) (log_name 0) = encode_records (fixture_records payload n)
     \<and> file_contents (write_fixture rs payload n) (idx_name 0) = encode_index (fixture_entries (20 + length payload) n)"
  using assms
proof (induction n)
  case 0
  then show ?case by (simp add: fixture_records_def fixture_entries_def file_contents_def)
next
  case (Suc n)
  then have "writes_all (length payload) rs n" and w: "20 + int (length payload) \<le> fst (rs n)" "16 \<le> snd (rs n)"
    by (simp_all add: writes_all_def)
  with Suc.IH have ih: "file_contents (write_fixture rs payload n) (log_name 0) = encode_records (fixture_records payload n)"
     "file_contents (write_fixture rs payload n) (idx_name 0) = encode_index (fixture_entries (20 + length payload) n)" by blast+
  note m = write_record_raw_complete [OF w, of "of_nat n" "1000 + of_nat n" "write_fixture rs payload n"]
  have "file_contents (write_fixture rs payload (Suc n)) (log_name 0) = encode_records (fixture_records payload (Suc n))"
    using m(1) ih(1) by (simp add: file_contents_def [of "write_record_raw _ _ _ _ _ _"] fixture_records_def)
  moreover have "file_contents (write_fixture rs payload (Suc n)) (idx_name 0) = encode_index (fixture_entries (20 + length payload) (Suc n))"
    using m(2) ih by (simp add: file_contents_def [of "write_record_raw _ _ _ _ _ _"] fixture_entries_def length_fixture_records encode_index_def [of "[_]"])
  ultimately show ?case by blast
qed

lemma fixture_exists:
  assumes "writes_all (length payload) rs n" "0 < n"
  shows "map_of (write_fixture rs payload n) (log_name 0) = Some (encode_records (fixture_records payload n))"
    "map_of (write_fixture rs payload n) (idx_name 0) = Some (encode_index (fixture_entries (20 + length payload) n))"
proof -
  obtain k where n: "n = Suc k" using assms(2) by (cases n) simp_all
  then have w: "20 + int (length payload) \<le> fst (rs k)" "16 \<le> snd (rs k)" using assms(1) by (simp_all add: writes_all_def)
  note m = write_record_raw_complete [OF w, of "of_nat k" "1000 + of_nat k" "write_fixture rs payload k"]
  show "map_of (write_fixture rs payload n) (log_name 0) = Some (encode_records (fixture_records payload n))"
    "map_of (write_fixture rs payload n) (idx_name 0) = Some (encode_index (fixture_entries (20 + length payload) n))"
    using fixture_contents [OF assms(1)] m unfolding n by (simp_all add: file_contents_def)
qed

lemma dec_digits_zero: "dec_digits k 0 = replicate k CHR ''0''"
proof (induction k)
  case (Suc k)
  have "(of_char (digit 0) :: nat) = of_char CHR ''0''" by (simp add: of_char_digit)
  then have "digit 0 = CHR ''0''" by (simp only: of_char_eq_iff)
  then show ?case using Suc by (simp add: replicate_append_same)
qed simp

lemma names_of_zero: "log_name 0 = ''00000000000000000000.log''" "idx_name 0 = ''00000000000000000000.idx''"
proof -
  have "segment_stem 0 = ''00000000000000000000''"
    unfolding segment_stem_def by (simp add: dec_digits_zero numeral_eq_Suc)
  then show "log_name 0 = ''00000000000000000000.log''" "idx_name 0 = ''00000000000000000000.idx''"
    by (simp_all add: log_name_def idx_name_def)
qed

lemma fixture_read:
  assumes "writes_all (length payload) rs n" "0 < n" "length payload < 2 ^ 32" "n * (20 + length payload) < 2 ^ 62" "n \<le> unat (m :: u16)"
  shows "segment_read (write_fixture rs payload n) (SegmentReader (write_fixture rs payload n) (log_name 0)) 0 0 m = Inr (fixture_records payload n)"
proof -
  let ?d = "write_fixture rs payload n" and ?rs = "fixture_records payload n"
  have len: "length (encode_records ?rs) < 2 ^ 62" unfolding length_fixture_records by (fact assms(4))
  have "file_contents ?d (log_name 0) = encode_records ?rs" using fixture_contents [OF assms(1)] by blast
  then have "at_pos ?d (log_name 0) 0 [] (encode_records ?rs @ [])" unfolding at_pos_def using len by simp
  moreover have "\<forall>r \<in> set ?rs. wf_record r" using assms(3) by (auto simp: fixture_records_def wf_record_def)
  moreover have "SegmentReader ?d (log_name 0) = Some (log_name 0)"
    using fixture_exists [OF assms(1,2)] by (simp add: SegmentReader_def open_file_read_def)
  moreover have "length ?rs = n" by (simp add: fixture_records_def)
  ultimately show ?thesis using segment_read_records [of ?d "log_name 0" 0 "[]" ?rs "[]" 0 m] assms(5) by simp
qed

lemma fixture_lookup:
  assumes "k < n" "n < 2 ^ 64"
  shows "lookup (fixture_entries step n) (of_nat k) = of_nat (k * step)"
proof -
  let ?es = "fixture_entries step n" and ?le = "\<lambda>e. ie_offset e \<le> of_nat k"
  have le: "(of_nat i :: u64) \<le> of_nat j \<longleftrightarrow> i \<le> j" if "i < n" "j < n" for i j
    using that assms(2) by (simp add: word_le_nat_alt unat_of_nat_u64)
  have "map ie_offset ?es = map of_nat [0..<n]" by (simp add: fixture_entries_def)
  moreover have "sorted (map (of_nat :: nat \<Rightarrow> u64) [0..<n])" using le by (auto simp: sorted_iff_nth_mono)
  ultimately have srt: "sorted (map ie_offset ?es)" by simp
  have split: "[0..<n] = [0..<k] @ k # [Suc k..<n]" using assms(1) by (metis less_imp_le_nat plus_nat.add_0 upt_add_eq_append upt_conv_Cons le_add_diff_inverse zero_order(1))
  have "takeWhile ?le ?es = fixture_entries step (Suc k)"
  proof -
    have "?es = fixture_entries step (Suc k) @ map (\<lambda>i. \<lparr>ie_offset = of_nat i, ie_file_position = of_nat (i * step)\<rparr>) [Suc k..<n]"
      unfolding fixture_entries_def split by simp
    moreover have "takeWhile ?le (map (\<lambda>i. \<lparr>ie_offset = of_nat i, ie_file_position = of_nat (i * step)\<rparr>) [Suc k..<n]) = []"
      using le [of "Suc k" k] assms(1) by (cases "Suc k < n") (simp_all add: upt_conv_Cons del: of_nat_Suc)
    moreover have "\<forall>e \<in> set (fixture_entries step (Suc k)). ?le e" using le assms(1) by (auto simp: fixture_entries_def)
    ultimately show ?thesis by (simp add: takeWhile_append2)
  qed
  then show ?thesis unfolding lookup_sorted [OF srt] by (simp add: fixture_entries_def)
qed

section \<open>The frames of the decoder benchmark\<close>

definition between_frames :: "frame_decoder \<Rightarrow> bool" where
  "between_frames d = (decoder_ok d \<and> decoder_pending d = [] \<and> fd_max_frame_size d = 1048576)"

lemma push_all_limit: "push_all cs d = Inr (out, Some d') \<Longrightarrow> fd_max_frame_size d' = fd_max_frame_size d"
proof (induction cs arbitrary: d out)
  case (Cons c cs)
  then obtain k o1 d1 o2 where "push c d = Inr (k, o1, d1)" "push_all cs d1 = Inr (o2, Some d')"
    by (auto split: sum.splits if_splits prod.splits)
  moreover from this(1) have "fd_max_frame_size d1 = fd_max_frame_size d"
    by (auto simp: push_def Let_def split: if_splits sum.splits loop_end.splits)
  ultimately show ?case using Cons.IH by simp
qed simp

text \<open>An iteration that feeds whole frames decodes them, and leaves the decoder between two frames.\<close>

lemma iteration_decodes:
  assumes "between_frames d" "concat cs = encode_frames fs" "\<forall>f \<in> set fs. frame_ok 1048576 f" "\<forall>c \<in> set cs. length c \<le> 4093"
  shows "\<exists>d'. push_all cs d = Inr (fs, Some d') \<and> between_frames d'"
proof -
  have "decoder_ok d" "decoder_pending d = []" "fd_max_frame_size d = 1048576" using assms(1) by (simp_all add: between_frames_def)
  then obtain d' where "push_all cs d = Inr (fs, Some d')" "decoder_ok d'" "decoder_pending d' = []"
    using push_all_stream [of d cs fs "[]" 1048576] assms(2,3,4) by (auto simp: partial_frame_def stream_fits_def)
  then show ?thesis using push_all_limit assms(1) by (auto simp: between_frames_def)
qed

lemma iterations_decode:
  assumes "\<And>d. between_frames d \<Longrightarrow> \<exists>d'. body d = Inr (fs, Some d') \<and> between_frames d'" "between_frames d"
  shows "\<exists>d'. iterations n body d = Some (replicate n fs, d') \<and> between_frames d'"
  using assms(2)
proof (induction n arbitrary: d)
  case (Suc n)
  from assms(1) [OF Suc.prems] obtain d1 where "body d = Inr (fs, Some d1)" "between_frames d1" by blast
  with Suc.IH [of d1] show ?case by auto
qed simp

lemma fresh_between: "between_frames (FrameDecoder 1048576)"
  by (simp add: between_frames_def FrameDecoder_def decoder_ok_def decoder_pending_def)

abbreviation small_frame :: "u8 \<Rightarrow> u8 \<Rightarrow> frame" where
  "small_frame op b \<equiv> \<lparr>frame_op = op, frame_payload = [b]\<rparr>"

lemma small_frame_bytes: "encode_frame (small_frame op b) = [0, 0, 0, 2, op, b]"
  by (simp add: encode_frame_def write_be32_def)

lemma batch_frames: "encode_frames (replicate n f) = concat (replicate n (encode_frame f))"
  by (induction n) simp_all

section \<open>The bytes of the replication benchmark\<close>

lemma bench_meta_isr: "length (isr_ids (bench_init_meta followers)) = Suc followers"
  by (simp add: isr_ids_def bench_init_meta_def bench_replica_def comp_def)

lemma sync_sends_bytes:
  assumes "length topic \<le> 255"
  shows "concat (map snd (filter (\<lambda>s. fst s = fd') (sync_sends topic part epoch fd r))) =
     (if fd' = fd then concat (map snd (sync_sends topic part epoch fd r)) else [])"
    "length (concat (map snd (sync_sends topic part epoch fd r))) = 4 + 1 + sizeof_ReplicaSyncHeader + length (rec_payload r)"
  using assms sync_header.width_enc [of "sync_header_of topic part epoch r"]
  by (auto simp: sync_sends_def sizeof_ReplicaSyncHeader_def sync_header_of_def)

lemma filter_sends_bytes:
  assumes "length topic \<le> 255"
  shows "length (concat (map snd (filter (\<lambda>s. fst s = fd') (concat (map (sync_sends topic part epoch fd) rs))))) =
     (if fd' = fd then sum_list (map (\<lambda>r. 4 + 1 + sizeof_ReplicaSyncHeader + length (rec_payload r)) rs) else 0)"
proof (induction rs)
  case (Cons r rs)
  then show ?case using sync_sends_bytes [OF assms] by simp
qed simp

lemma worker_stream_bytes:
  assumes "length (pm_topic m) \<le> 255" "distinct (map snd (rm_follower_fds rm))" "(follower, fd) \<in> set (rm_follower_fds rm)"
  shows "length (concat (map snd (filter (\<lambda>s. fst s = fd) (worker_stream qc epoch m rm)))) =
     sum_list (map (\<lambda>r. 4 + 1 + sizeof_ReplicaSyncHeader + length (rec_payload r)) (snd qc))"
proof -
  have bytes: "length (concat (map snd (filter (\<lambda>s. fst s = fd)
          (concat (map (\<lambda>(follower_id, fd). concat (map (sync_sends (pm_topic m) (pm_partition_idx m) epoch fd) (snd qc))) fds))))) =
        sum_list (map (\<lambda>(_, f). if f = fd then sum_list (map (\<lambda>r. 4 + 1 + sizeof_ReplicaSyncHeader + length (rec_payload r)) (snd qc)) else 0) fds)" for fds
    by (induction fds) (auto simp: filter_sends_bytes [OF assms(1)] split: prod.splits)
  have once: "sum_list (map (\<lambda>(_, f). if f = fd then c else 0) fds) = c"
    if "distinct (map snd fds)" "(follower, fd) \<in> set fds" for fds :: "(u32 \<times> int) list" and c :: nat
    using that
  proof (induction fds)
    case (Cons p fds)
    have "sum_list (map (\<lambda>(_, f). if f = fd then c else 0) fds) = 0" if "fd \<notin> snd ` set fds"
      using that by (induction fds) auto
    then show ?case using Cons by (cases p) (force simp: image_iff)
  qed simp
  show ?thesis unfolding worker_stream_def by (rule trans [OF bytes once [OF assms(2,3)]])
qed

lemma fanout_payloads: "map (length \<circ> rec_payload) (fanout_records base rs) = map (length \<circ> rec_payload) rs"
  by (rule nth_equalityI) (simp_all add: fanout_records_def)

section \<open>What the benchmarks measure\<close>

text \<open>When every write is complete, the scan returns the 10000 records that the fixture wrote, and the lookup gives the position
  of record 50000, which fits into 32 bits.\<close>

theorem storage_bench_reads_back:
  assumes "writes_all 1024 rs 10000" "writes_all 128 rs' 100000"
  shows "SegmentReader_Scan (ReaderFixture_SetUp rs) = Inr (fixture_records (replicate 1024 0xEE) 10000)
     \<and> map_sum id OffsetIndex_Lookup (IndexFixture_SetUp rs') = Inr (50000 * 148)"
proof -
  let ?p = "replicate 1024 (0xEE :: u8)" and ?q = "replicate 128 (0xAA :: u8)"
  have p: "length ?p = 1024" and q: "length ?q = 128" by (simp_all only: length_replicate)
  have "SegmentReader_Scan (ReaderFixture_SetUp rs) = Inr (fixture_records ?p 10000)"
    unfolding SegmentReader_Scan_def ReaderFixture_SetUp_def names_of_zero [symmetric]
    using fixture_read [of ?p rs 10000 10000] assms(1) unfolding p by simp
  moreover have "OffsetIndex (write_fixture rs' ?q 100000) (idx_name 0) = Inr (fixture_entries (20 + length ?q) 100000)"
    using OffsetIndex_encoded [OF fixture_exists(2) [of ?q rs' 100000]] assms(2) unfolding q by simp
  moreover have "lookup (fixture_entries 148 100000) (of_nat 50000) = of_nat (50000 * 148)"
    by (rule fixture_lookup) simp_all
  ultimately show ?thesis unfolding IndexFixture_SetUp_def names_of_zero [symmetric] q by (simp add: OffsetIndex_Lookup_def)
qed

text \<open>Every iteration of the three decoder loops decodes all the frames that it feeds, however many iterations there are.\<close>

theorem decoder_bench_decodes_all:
  "\<exists>d1 d2 d3. iterations n BM_Decoder_SingleFrame (FrameDecoder 1048576) = Some (replicate n [small_frame 1 0xAA], d1)
     \<and> iterations n BM_Decoder_BatchFrames (FrameDecoder 1048576) = Some (replicate n (replicate 100 (small_frame 2 0xBB)), d2)
     \<and> iterations n BM_Decoder_Fragmented (FrameDecoder 1048576) = Some (replicate n [small_frame 1 0xAA], d3)"
proof -
  have ok: "frame_ok 1048576 (small_frame op b)" for op b by (simp add: frame_ok_def)
  have single: "single_frame = encode_frames [small_frame 1 0xAA]" by (simp add: single_frame_def small_frame_bytes)
  have batch: "batch_buffer = encode_frames (replicate 100 (small_frame 2 0xBB))"
    unfolding batch_buffer_def batch_frames small_frame_bytes ..
  have len: "length single_frame \<le> 4093" by (simp add: single_frame_def)
  have lenb: "length batch_buffer \<le> 4093" by (simp add: batch_buffer_def length_concat sum_list_replicate)
  have "\<exists>d'. BM_Decoder_SingleFrame d = Inr ([small_frame 1 0xAA], Some d') \<and> between_frames d'" if "between_frames d" for d
    unfolding BM_Decoder_SingleFrame_def by (rule iteration_decodes [OF that]) (simp_all only: list.set concat.simps append_Nil2 single, use ok len single in auto)
  moreover have "\<exists>d'. BM_Decoder_BatchFrames d = Inr (replicate 100 (small_frame 2 0xBB), Some d') \<and> between_frames d'" if "between_frames d" for d
    unfolding BM_Decoder_BatchFrames_def by (rule iteration_decodes [OF that]) (use ok lenb batch in auto)
  moreover have "\<exists>d'. BM_Decoder_Fragmented d = Inr ([small_frame 1 0xAA], Some d') \<and> between_frames d'" if "between_frames d" for d
    unfolding BM_Decoder_Fragmented_def
    by (rule iteration_decodes [OF that]) (use ok single in \<open>auto simp: concat_map_singleton\<close>)
  ultimately show ?thesis using iterations_decode [OF _ fresh_between] by metis
qed

text \<open>The bytes that an iteration of the fan-out benchmark drains from a follower are the bytes that one batch sends to it.\<close>

theorem fanout_drains_one_batch:
  assumes "distinct (map snd (rm_follower_fds (send_fixture fds)))" "(follower, fd) \<in> set (rm_follower_fds (send_fixture fds))"
  shows "length (concat (map snd (filter (\<lambda>s. fst s = fd)
       (worker_stream (base, fanout_records base (template_records batch_size payload_size)) epoch (bench_init_meta followers) (send_fixture fds)))))
     = expected_bytes_per_follower batch_size payload_size"
proof -
  let ?rs = "template_records batch_size payload_size" and ?g = "\<lambda>n. 4 + 1 + sizeof_ReplicaSyncHeader + n"
  have "map (\<lambda>r. ?g (length (rec_payload r))) (fanout_records base ?rs) = map ?g (map (length \<circ> rec_payload) ?rs)"
    unfolding fanout_payloads [symmetric, of ?rs base] by simp
  also have "\<dots> = replicate batch_size (?g payload_size)" by (simp add: template_records_def comp_def map_replicate_const)
  finally show ?thesis
    using worker_stream_bytes [OF _ assms, of "bench_init_meta followers" "(base, fanout_records base ?rs)" epoch]
    by (simp add: expected_bytes_per_follower_def bench_init_meta_def del: replicate.simps)
qed

end
