(* ===== verification/Spec2Isabelle.thy ===== *)
theory Spec2Isabelle
  imports Fell_Store_Properties Fell_Frame_Decoder Fell_Small_Payload Fell_Replica_Manager Fell_Handler_Properties
    Fell_Replication_Properties Fell_Broker_Properties Fell_Consumer_Cli Fell_Deferred_Acks Fell_Poller Fell_Sockets Fell_Wakeup
    Fell_Files_Win Fell_Debug_Mutex Fell_Network_Bench Fell_Micro_Bench
begin

text \<open>
  A verification development of the Fell message broker.

  \<^bold>\<open>The program.\<close> Producers send frames over TCP to a broker, which appends the messages to the log of a partition; consumers
  fetch them by offset; followers copy the logs of leaders. A broker is one reactor thread that decodes and answers requests, one I/O
  thread for each partition that writes the queued records to segment files, one worker thread for each led partition that sends
  committed records to followers, and a thread for the replication server and for each followed partition. Two command line clients, a
  load generator and micro benchmarks use it. Paths below are relative to \<^verbatim>\<open>src/\<close>.

  \<^bold>\<open>Conventions.\<close> Machine integers are words of their width and wrap; \<^verbatim>\<open>size_t\<close> values that count bytes in memory are natural
  numbers. A read behind the end of a buffer, a use of a deleted object, an exception from the file layer and a malformed number are
  faults (\<open>Inl\<close> of a sum). What the operating system answers (\<^verbatim>\<open>recv\<close>, \<^verbatim>\<open>send\<close>, \<^verbatim>\<open>accept\<close>, \<^verbatim>\<open>writev\<close>, \<^verbatim>\<open>epoll_wait\<close>, the clock) is an
  argument of the operation, and what an operation does to the outside is a list of effects in its result. Threads are step
  relations, or lists of events that interleave. Locking is modelled by its granularity: what the code does under one lock is one step.

  \<^bold>\<open>Foundations.\<close>
  \<^item> \<open>Fell_Prelude\<close>: word types, byte strings, the collections of rules, the interface \<open>fixed_codec\<close>.
  \<^item> \<open>Fell_Endian\<close> (\<^verbatim>\<open>platform/include/platform/endian.hpp\<close>, the byte helpers of \<^verbatim>\<open>broker/request_handler.cpp\<close> and of the clients): the
    conversions are inverse to each other and the different implementations agree.
  \<^item> \<open>Fell_Files\<close> (\<^verbatim>\<open>platform/file_posix.cpp\<close>): a directory as an association list from names to contents. \<open>Fell_Files_Win\<close>
    (\<^verbatim>\<open>platform/file_win.cpp\<close>): the Windows layer does the same to the files; the layers differ on short writes.
  \<^item> \<open>Fell_Search\<close>: \<^verbatim>\<open>std::upper_bound\<close> ends, and finds the boundary.
  \<^item> \<open>Fell_Sockets\<close> (\<^verbatim>\<open>platform/socket_posix.cpp\<close>, \<^verbatim>\<open>platform/socket_win.cpp\<close>): computations over the results of system calls;
    which descriptors are open after success and after failure.
  \<^item> \<open>Fell_Debug_Mutex\<close> (\<^verbatim>\<open>storage/include/storage/debug_mutex.hpp\<close>): every interleaving of the accesses; the alarms are exact.

  \<^bold>\<open>Storage.\<close>
  \<^item> \<open>Fell_Log_Format\<close>, \<open>Fell_Segment_Reader\<close>, \<open>Fell_Offset_Index\<close>, \<open>Fell_Log_Recovery\<close> (the files of the same names in \<^verbatim>\<open>storage/\<close>):
    record and index encodings round trip; the reader's loops end on every file and return exactly the complete records; reading
    through any list of correct index entries gives what reading from the start gives; recovery cuts off exactly a torn tail.
  \<^item> \<open>Fell_Partition_Store\<close> (\<^verbatim>\<open>storage/partition_store.cpp\<close>, \<^verbatim>\<open>storage/segment_writer.cpp\<close>): the record \<open>store\<close> has the members of
    \<^verbatim>\<open>PartitionStore\<close> and of its writer, one definition for each member function.
  \<^item> \<open>Fell_Store_Queue\<close>, \<open>Fell_Store_Log\<close>, \<open>Fell_Store_Write\<close>: the invariants of the queue and of the files, and that every step keeps them.
  \<^item> \<open>Fell_Store_System\<close>, \<open>Fell_Store_Progress\<close>, \<open>Fell_Store_Boot\<close>: the I/O thread as a step relation (\<open>sys_step\<close>) in which
    appends, fetches and registrations happen between its steps; that it commits what is queued and ends after a shutdown; starting from a directory.
  \<^item> \<open>Fell_Partition_Interface\<close>: the locale \<open>partition_log\<close>, the contract under which the other parts use a partition, with an
    abstract log (\<open>spec_log\<close>) as specification; its interpretation \<open>store\<close> is the refinement proof.
  \<^item> \<open>Fell_Store_Properties\<close>: refinement of the log, fetch as a slice of the log, commit order, callbacks exactly once, crash
    safety, shutdown; and the runs in which records are lost or not found.

  \<^bold>\<open>Protocol and requests.\<close>
  \<^item> \<open>Fell_Protocol\<close>, \<open>Fell_Frame_Decoder\<close>, \<open>Fell_Small_Payload\<close> (\<^verbatim>\<open>broker/include/broker/protocol.hpp\<close>,
    \<^verbatim>\<open>replication/include/replication/repl_protocol.hpp\<close>, \<^verbatim>\<open>broker/frame_decoder.cpp\<close> and its header): the packed structs as instances of the locale
    \<open>struct_codec\<close>; a stream of frames is decoded however it is cut into reads, with bounded memory; the payload container
    neither leaks nor frees twice.
  \<^item> \<open>Fell_Topic_Registry\<close>, \<open>Fell_Request_Handler\<close> (\<^verbatim>\<open>broker/topic_registry.cpp\<close>, \<^verbatim>\<open>broker/request_handler.cpp\<close>): one definition for
    each handler. \<open>Fell_Handler_Properties\<close>: an abstract broker, a map from partitions to abstract logs; every request is
    answered without a fault, publishes append to the routed partition, fetches return the slice of its log.
  \<^item> \<open>Fell_Broker\<close>, \<open>Fell_Broker_Properties\<close> (\<^verbatim>\<open>broker/broker.cpp\<close>, \<^verbatim>\<open>connection_manager.cpp\<close>, \<^verbatim>\<open>acceptor.cpp\<close>): the reactor with connection
    objects in a heap; the invariant of connection table and poller registrations, and the order of pipelined answers.
    \<open>Fell_Deferred_Acks\<close>: from the last follower's acknowledgement through the response queue to the producer's socket.
  \<^item> \<open>Fell_Poller\<close> (\<^verbatim>\<open>platform/epoll_poller.cpp\<close>, \<^verbatim>\<open>platform/wsapoll_poller.cpp\<close>): the locale \<open>poller\<close> is what the reactor relies on, both
    implementations are interpretations of it, and the calls of the reactor are replayed into them.

  \<^bold>\<open>Replication.\<close>
  \<^item> \<open>Fell_Cluster_Config\<close>, \<open>Fell_Partition_Meta\<close> (\<^verbatim>\<open>replication/cluster_config.cpp\<close>, \<^verbatim>\<open>partition_meta.cpp\<close>): options, roles, in-sync replicas.
  \<^item> \<open>Fell_Replica_Manager\<close> (\<^verbatim>\<open>replication/replica_manager.cpp\<close>): the worker and the acknowledgements as events; a deferred answer is
    released exactly at its quorum.
  \<^item> \<open>Fell_Replication_Channel\<close>, \<open>Fell_Replication_Server\<close>, \<open>Fell_Replication_Client\<close> (\<^verbatim>\<open>replication_server.cpp\<close>,
    \<^verbatim>\<open>replication_client.cpp\<close>): the two receiving loops once, with the frame handlers as arguments; the locale \<open>replica_source\<close> is what the server
    needs of a partition. \<open>Fell_Replication_Properties\<close>: a follower's log becomes a copy of the leader's; elections.
  \<^item> \<open>Fell_Wakeup\<close>: the client's loop, its partition's commits and the notify pair together. On POSIX systems the pair is a pipe and
    \<^verbatim>\<open>send\<close> fails on it, so that followers never acknowledge.

  \<^bold>\<open>Clients.\<close>
  \<^item> \<open>Fell_Cli_Util\<close>, \<open>Fell_Producer_Cli\<close>, \<open>Fell_Consumer_Cli\<close> (\<^verbatim>\<open>cli/\<close>): the producer's requests reach the leader of the partition that the
    broker routes to; the consumer prints the log in order.
  \<^item> \<open>Fell_Network_Bench\<close> (\<^verbatim>\<open>bench/sys/network_bench.cpp\<close>): workers, start barrier and totals count what was acknowledged.
    \<open>Fell_Micro_Bench\<close> (\<^verbatim>\<open>bench/micro/\<close>): the benchmarks measure what they mean to.

  \<^bold>\<open>Composition.\<close> A publish or fetch of a client is followed through the reactor, the handler, the registry and the interface of the
  partition to the abstract log; catching up goes from the follower's request through the leader's loop to the follower's log; the
  reactor's registrations go through the poller's interface to both implementations. These theorems stand in the
  theory of the last component they use.

  \<^bold>\<open>Bounds.\<close> Files are assumed to be shorter than \<open>2 ^ 62\<close> bytes and logs to end below offset \<open>2 ^ 64\<close>, where positions and offsets would
  wrap. The loops whose length the environment decides have fuel: catching up (a fuel above the leader's committed offset is
  enough, which is proved), the accept loop (one more than the results of the system), and the clients' loops, which
  consume their lists of results; running out is a result of its own, and the theorems exclude it.

  \<^bold>\<open>Not modelled.\<close>
  \<^item> Memory order and races inside one step: the model takes each locked section, and each atomic access outside of one, as one step.
  \<^item> Destructors and \<^verbatim>\<open>stop\<close> functions where they only join threads and close descriptors; \<^verbatim>\<open>SegmentWriter::flush\<close> is an event, since what
    \<^verbatim>\<open>fdatasync\<close> adds is outside of the file model: a crash keeps what was written and may cut the last write.
  \<^item> Failing opens of segment files on POSIX systems, logging, printing, and floating-point ratios in reports.
  \<^item> The INI parser of the configuration (a library whose parsed result is an argument), the benchmark library with its timing
    loops, and the two micro benchmarks that only call operations modelled elsewhere (\<^verbatim>\<open>registry_bench.cpp\<close>, \<^verbatim>\<open>swapping_bench.cpp\<close>).
  \<^item> The tests under \<^verbatim>\<open>tests/\<close>.
\<close>

end
